(* ===== verification/Prelude.thy ===== *)
theory Prelude
  imports Main "HOL-Library.Word"
begin

section \<open>Shared vocabulary of the stanix development\<close>

text \<open>
  Types, error values, fact collections and list lemmas that every component theory uses.
  A C function that returns a negative \<^verbatim>\<open>errno\<close> is modelled by a function into
  \<open>errno + 'a\<close> (\<open>Inl\<close> the error); a branch on which the kernel panics (a failing
  \<^verbatim>\<open>kassert\<close>) or on which the C code has no defined behaviour (a null pointer read,
  \<^verbatim>\<open>__builtin_unreachable\<close>) is modelled by the value \<open>Inl\<close> of a \<open>kfault\<close>.
\<close>

type_synonym byte = "8 word"
type_synonym u16 = "16 word"
type_synonym u32 = "32 word"
type_synonym u64 = "64 word"

text \<open>The error codes the modelled functions return.\<close>

datatype errno =
    ENOMEM | EINVAL | EFAULT | EAGAIN | EINTR | EPIPE | EILSEQ | EACCES | EPERM | ESRCH
  | ENOENT | EEXIST | ENOTDIR | EISDIR | ENOTEMPTY | ENOTSUP | EOPNOTSUPP | EBUSY | ENOSPC | EIO
  | EFTYPE | ETIMEDOUT | ENXIO | EBADF | ENODEV | EXDEV | ELOOP | ERANGE | EROFS | EMFILE

text \<open>Ways in which the kernel stops instead of returning.\<close>

datatype kfault = KPanic | KUnreachable | KNullDeref | KNoReturn | KListCorrupt | KOutOfBounds

text \<open>The events \<^verbatim>\<open>poll\<close> reports.\<close>

datatype poll_flag = POLLHUP | POLLIN | POLLOUT

type_synonym 'a kres = "kfault + 'a"

definition kbind :: "'a kres \<Rightarrow> ('a \<Rightarrow> 'b kres) \<Rightarrow> 'b kres" where
  "kbind m f = (case m of Inl e \<Rightarrow> Inl e | Inr x \<Rightarrow> f x)"

lemma kbind_Inl [simp]: "kbind (Inl e) f = Inl e"
  by (simp add: kbind_def)

lemma kbind_Inr [simp]: "kbind (Inr x) f = f x"
  by (simp add: kbind_def)

lemma kbind_eq_Inr [simp]: "kbind m f = Inr y \<longleftrightarrow> (\<exists>x. m = Inr x \<and> f x = Inr y)"
  by (cases m) auto

text \<open>Collections that component proofs extend.\<close>

named_theorems inv_intros \<open>preservation lemmas of the component invariants\<close>
named_theorems abs_simps \<open>equations that compute the abstraction of a component's state\<close>
named_theorems frame_simps \<open>what an operation leaves unchanged\<close>

subsection \<open>Lists\<close>

lemma take_drop_append_id: "n \<le> m \<Longrightarrow> take n xs @ take (m - n) (drop n xs) = take m xs"
  by (metis le_add_diff_inverse take_add)

lemma remove1_append_notin: "x \<notin> set xs \<Longrightarrow> remove1 x (xs @ x # ys) = xs @ ys"
  by (induction xs) auto

lemma distinct_split_notin:
  "distinct (xs @ x # ys) \<Longrightarrow> x \<notin> set xs \<and> x \<notin> set ys"
  by auto

lemma sum_list_remove1:
  fixes f :: "'a \<Rightarrow> nat"
  assumes "x \<in> set xs"
  shows "f x + sum_list (map f (remove1 x xs)) = sum_list (map f xs)"
  using assms by (induction xs) auto

lemma sum_list_remove1_le:
  fixes f :: "'a \<Rightarrow> nat"
  shows "x \<in> set xs \<Longrightarrow> f x \<le> sum_list (map f xs)"
  by (induction xs) auto

lemma find_append:
  "find P (xs @ ys) = (case find P xs of None \<Rightarrow> find P ys | Some x \<Rightarrow> Some x)"
  by (induction xs) auto

lemma find_eq_NoneI: "(\<And>x. x \<in> set xs \<Longrightarrow> \<not> P x) \<Longrightarrow> find P xs = None"
  by (auto simp: find_None_iff)

lemma size_nth_less [termination_simp]: "i < length xs \<Longrightarrow> f (xs ! i) < Suc (size_list f xs)"
proof (induction xs arbitrary: i)
  case (Cons x xs)
  then show ?case by (cases i) fastforce+
qed simp

subsection \<open>The page granularity shared by the memory components\<close>

definition PAGE_SIZE :: nat where
  "PAGE_SIZE = 4096"

definition PAGE_ALIGN_DOWN :: "nat \<Rightarrow> nat" where
  "PAGE_ALIGN_DOWN a = a div PAGE_SIZE * PAGE_SIZE"

definition PAGE_ALIGN_UP :: "nat \<Rightarrow> nat" where
  "PAGE_ALIGN_UP a = (a + PAGE_SIZE - 1) div PAGE_SIZE * PAGE_SIZE"

lemma PAGE_ALIGN_DOWN_bounds: "PAGE_ALIGN_DOWN a \<le> a" "a < PAGE_ALIGN_DOWN a + PAGE_SIZE"
  by (auto simp: PAGE_ALIGN_DOWN_def PAGE_SIZE_def)

lemma PAGE_ALIGN_UP_bounds: "a \<le> PAGE_ALIGN_UP a" "PAGE_ALIGN_UP a < a + PAGE_SIZE"
  by (auto simp: PAGE_ALIGN_UP_def PAGE_SIZE_def)

lemma PAGE_ALIGN_dvd [simp]: "PAGE_SIZE dvd PAGE_ALIGN_DOWN a" "PAGE_SIZE dvd PAGE_ALIGN_UP a"
  by (simp_all add: PAGE_ALIGN_DOWN_def PAGE_ALIGN_UP_def)

end
