(* ===== verification/Userspace.thy ===== *)
theory Userspace
  imports Prelude
begin

section \<open>Copies between kernel buffers and user memory\<close>

text \<open>
  Models \<^verbatim>\<open>kernel/arch/x86_64/copy.s\<close> (\<^verbatim>\<open>safe_copy_to\<close>, \<^verbatim>\<open>safe_copy_from\<close>) and the checks of
  \<^verbatim>\<open>kernel/include/task/userspace.h\<close>. The copy is one \<^verbatim>\<open>rep movsb\<close>: byte by byte, and a
  page fault that cannot be resolved stops it with \<^verbatim>\<open>-EFAULT\<close> after the bytes before the
  faulting address were moved. User memory is a partial map: \<open>None\<close> is an address whose
  access faults.
\<close>

type_synonym umem = "nat \<rightharpoonup> byte"

fun safe_copy_from :: "byte list \<Rightarrow> nat \<Rightarrow> umem \<Rightarrow> nat \<Rightarrow> nat \<Rightarrow> bool \<times> byte list" where
  "safe_copy_from dest i src j 0 = (True, dest)"
| "safe_copy_from dest i src j (Suc n) =
     (case src j of
        None \<Rightarrow> (False, dest)
      | Some b \<Rightarrow> safe_copy_from (dest[i := b]) (Suc i) src (Suc j) n)"

fun safe_copy_to :: "umem \<Rightarrow> nat \<Rightarrow> byte list \<Rightarrow> nat \<Rightarrow> nat \<Rightarrow> bool \<times> umem" where
  "safe_copy_to dest j src i 0 = (True, dest)"
| "safe_copy_to dest j src i (Suc n) =
     (case dest j of
        None \<Rightarrow> (False, dest)
      | Some _ \<Rightarrow> safe_copy_to (dest(j \<mapsto> src ! i)) (Suc j) src (Suc i) n)"

text \<open>\<open>readable m a n\<close>: the user range \<open>[a, a + n)\<close> can be accessed; \<open>ubytes m a n\<close> are its bytes.\<close>

definition readable :: "umem \<Rightarrow> nat \<Rightarrow> nat \<Rightarrow> bool" where
  "readable m a n \<longleftrightarrow> (\<forall>k<n. m (a + k) \<noteq> None)"

definition ubytes :: "umem \<Rightarrow> nat \<Rightarrow> nat \<Rightarrow> byte list" where
  "ubytes m a n = map (\<lambda>k. the (m (a + k))) [0..<n]"

definition mem_of :: "byte list \<Rightarrow> umem" where
  "mem_of xs = (\<lambda>k. if k < length xs then Some (xs ! k) else None)"

definition MEM_USERSPACE_END :: nat where
  "MEM_USERSPACE_END = 0x7FFFFFFFFFFFF"

definition CHECK_PTR :: "u64 \<Rightarrow> bool" where
  "CHECK_PTR p \<longleftrightarrow> unat p \<le> MEM_USERSPACE_END"

definition CHECK_MEM :: "u64 \<Rightarrow> u64 \<Rightarrow> bool" where
  "CHECK_MEM p n \<longleftrightarrow> CHECK_PTR (p + n)"

definition user_copy_to :: "umem \<Rightarrow> u64 \<Rightarrow> byte list \<Rightarrow> nat \<Rightarrow> u64 \<Rightarrow> (errno + unit) \<times> umem" where
  "user_copy_to m dest src i n =
     (if \<not> CHECK_MEM dest n then (Inl EFAULT, m)
      else (case safe_copy_to m (unat dest) src i (unat n) of
              (True, m') \<Rightarrow> (Inr (), m')
            | (False, m') \<Rightarrow> (Inl EFAULT, m')))"

definition user_copy_from :: "byte list \<Rightarrow> nat \<Rightarrow> umem \<Rightarrow> u64 \<Rightarrow> u64 \<Rightarrow> (errno + unit) \<times> byte list" where
  "user_copy_from dest i m src n =
     (if \<not> CHECK_MEM src n then (Inl EFAULT, dest)
      else (case safe_copy_from dest i m (unat src) (unat n) of
              (True, d') \<Rightarrow> (Inr (), d')
            | (False, d') \<Rightarrow> (Inl EFAULT, d')))"

subsection \<open>What a copy does\<close>

lemma readable_0 [simp]: "readable m a 0"
  by (simp add: readable_def)

lemma readable_Suc: "readable m a (Suc n) \<longleftrightarrow> m a \<noteq> None \<and> readable m (Suc a) n"
  by (auto simp: readable_def less_Suc_eq_0_disj)

lemma readable_add: "readable m a (n + k) \<longleftrightarrow> readable m a n \<and> readable m (a + n) k"
proof (induction n arbitrary: a)
  case (Suc n)
  then show ?case by (simp add: readable_Suc)
qed simp

lemma readable_mono: "readable m a n \<Longrightarrow> k \<le> n \<Longrightarrow> readable m a k"
  by (simp add: readable_def)

lemma ubytes_0 [simp]: "ubytes m a 0 = []"
  by (simp add: ubytes_def)

lemma length_ubytes [simp]: "length (ubytes m a n) = n"
  by (simp add: ubytes_def)

lemma ubytes_Suc: "ubytes m a (Suc n) = the (m a) # ubytes m (Suc a) n"
  by (simp add: ubytes_def upt_conv_Cons map_Suc_upt [symmetric] del: upt_Suc)

lemma ubytes_add: "ubytes m a (n + k) = ubytes m a n @ ubytes m (a + n) k"
  by (induction n arbitrary: a) (simp_all add: ubytes_Suc)

lemma take_ubytes: "k \<le> n \<Longrightarrow> take k (ubytes m a n) = ubytes m a k"
  using ubytes_add [of m a k "n - k"] by simp

lemma drop_ubytes: "k \<le> n \<Longrightarrow> drop k (ubytes m a n) = ubytes m (a + k) (n - k)"
  using ubytes_add [of m a k "n - k"] by simp

lemma readable_mem_of [simp]: "readable (mem_of xs) 0 (length xs)"
  by (simp add: readable_def mem_of_def)

lemma ubytes_mem_of [simp]: "ubytes (mem_of xs) 0 (length xs) = xs"
  by (rule nth_equalityI) (simp_all add: ubytes_def mem_of_def)

lemma safe_copy_from_ok:
  assumes "readable src j n" and "i + n \<le> length dest"
  shows "safe_copy_from dest i src j n = (True, take i dest @ ubytes src j n @ drop (i + n) dest)"
  using assms
proof (induction n arbitrary: dest i j)
  case (Suc n)
  then obtain b where b: "src j = Some b" by (auto simp: readable_Suc)
  have "take (Suc i) (dest[i := b]) = take i dest @ [b]"
    using Suc.prems(2) by (simp add: take_Suc_conv_app_nth)
  with Suc b show ?case
    by (simp add: readable_Suc ubytes_Suc)
qed simp

lemma safe_copy_from_len:
  "length (snd (safe_copy_from dest i src j n)) = length dest"
  by (induction n arbitrary: dest i j) (auto split: option.split)

lemma safe_copy_from_outside:
  "k < i \<or> i + n \<le> k \<Longrightarrow> snd (safe_copy_from dest i src j n) ! k = dest ! k"
proof (induction n arbitrary: dest i j)
  case (Suc n)
  have "snd (safe_copy_from (dest[i := b]) (Suc i) src (Suc j) n) ! k = dest ! k" for b
    using Suc.IH [of "Suc i" "dest[i := b]" "Suc j"] Suc.prems by auto
  then show ?case by (simp split: option.split)
qed simp

lemma safe_copy_from_fst: "fst (safe_copy_from dest i src j n) \<longleftrightarrow> readable src j n"
  by (induction n arbitrary: dest i j) (auto simp: readable_Suc split: option.split)

lemma safe_copy_to_fst: "fst (safe_copy_to m j src i n) \<longleftrightarrow> readable m j n"
proof (induction n arbitrary: m i j)
  case (Suc n)
  have "readable (m(j \<mapsto> b)) (Suc j) n = readable m (Suc j) n" for b
    by (simp add: readable_def)
  with Suc show ?case by (auto simp: readable_Suc fun_upd_def split: option.split)
qed simp

lemma safe_copy_to_outside:
  "k < j \<or> j + n \<le> k \<Longrightarrow> snd (safe_copy_to m j src i n) k = m k"
  by (induction n arbitrary: m i j) (auto split: option.split)

lemma safe_copy_to_dom: "dom (snd (safe_copy_to m j src i n)) = dom m"
  by (induction n arbitrary: m i j) (auto split: option.split)

lemma safe_copy_to_readable:
  "readable (snd (safe_copy_to m j src i n)) a k = readable m a k"
proof -
  have "snd (safe_copy_to m j src i n) x \<noteq> None \<longleftrightarrow> m x \<noteq> None" for x
    using safe_copy_to_dom [of m j src i n] by (metis domIff)
  then show ?thesis unfolding readable_def by blast
qed

lemma safe_copy_to_bytes:
  assumes "readable m j n" and "i + n \<le> length src"
  shows "ubytes (snd (safe_copy_to m j src i n)) j n = take n (drop i src)"
  using assms
proof (induction n arbitrary: m i j)
  case (Suc n)
  then obtain b where b: "m j = Some b" by (auto simp: readable_Suc)
  let ?m = "m(j \<mapsto> src ! i)"
  have r: "readable ?m (Suc j) n"
    using Suc.prems(1) by (simp add: readable_Suc) (simp add: readable_def)
  have "ubytes (snd (safe_copy_to ?m (Suc j) src (Suc i) n)) (Suc j) n = take n (drop (Suc i) src)"
    using Suc.IH [OF r, of "Suc i"] Suc.prems(2) by (simp add: fun_upd_def)
  moreover have "snd (safe_copy_to ?m (Suc j) src (Suc i) n) j = Some (src ! i)"
    by (subst safe_copy_to_outside) auto
  moreover have "take (Suc n) (drop i src) = src ! i # take n (drop (Suc i) src)"
    using Suc.prems(2) by (metis Cons_nth_drop_Suc Suc_le_lessD add_Suc_right le_add1 le_trans not_less_eq_eq take_Suc_Cons)
  ultimately show ?case using b by (simp add: ubytes_Suc fun_upd_def)
qed simp

lemma ubytes_cong: "(\<And>x. a \<le> x \<Longrightarrow> x < a + n \<Longrightarrow> m x = m' x) \<Longrightarrow> ubytes m a n = ubytes m' a n"
  by (simp add: ubytes_def)

end
