(* ===== verification/Ringbuf.thy ===== *)
theory Ringbuf
  imports Userspace
begin

section \<open>The ring buffer of the kernel library\<close>

text \<open>
  Models \<^verbatim>\<open>kernel/klib/ringbuf.c\<close> and \<^verbatim>\<open>kernel/include/klib/ringbuf.h\<close>. Pipes and terminals keep
  their data in it. The record has the fields of \<^verbatim>\<open>struct ringbuffer\<close>; the memory behind
  \<^verbatim>\<open>buffer\<close> is the list \<open>rb_buffer\<close>. Offsets and counts are natural numbers: under the
  invariant \<open>rb_ok\<close> every sum the code forms is at most twice the buffer size, so no
  \<^verbatim>\<open>size_t\<close> wraps for a buffer below half of the address space.

  The abstraction \<open>rb_contents\<close> lists the bytes still to be read, oldest first. The locale
  \<open>byte_fifo\<close> states the contract the clients rely on, and is interpreted on the model.
\<close>

record ringbuffer =
  rb_buffer :: "byte list"
  rb_write_offset :: nat
  rb_read_offset :: nat
  rb_buffer_size :: nat
  rb_read_available :: nat

definition ringbuffer_init :: "(nat \<Rightarrow> byte list option) \<Rightarrow> nat \<Rightarrow> errno + ringbuffer" where
  "ringbuffer_init kmalloc buffer_size =
     (case kmalloc buffer_size of
        None \<Rightarrow> Inl ENOMEM
      | Some mem \<Rightarrow> Inr \<lparr>rb_buffer = mem, rb_write_offset = 0, rb_read_offset = 0,
                         rb_buffer_size = buffer_size, rb_read_available = 0\<rparr>)"

definition ringbuffer_read_available :: "ringbuffer \<Rightarrow> nat" where
  "ringbuffer_read_available ring = rb_read_available ring"

definition ringbuffer_write_available :: "ringbuffer \<Rightarrow> nat" where
  "ringbuffer_write_available ring = rb_buffer_size ring - ringbuffer_read_available ring"

definition ringbuffer_read ::
    "ringbuffer \<Rightarrow> umem \<Rightarrow> nat \<Rightarrow> nat \<Rightarrow> (errno + nat) \<times> ringbuffer \<times> umem" where
  "ringbuffer_read ring mem buf count0 =
     (let count = (if count0 > ringbuffer_read_available ring
                   then ringbuffer_read_available ring else count0)
      in if count + rb_read_offset ring \<ge> rb_buffer_size ring
         then let first = rb_buffer_size ring - rb_read_offset ring
              in (case safe_copy_to mem buf (rb_buffer ring) (rb_read_offset ring) first of
                    (False, mem1) \<Rightarrow> (Inl EFAULT, ring, mem1)
                  | (True, mem1) \<Rightarrow>
                      let rest = count - first;
                          ring1 = ring\<lparr>rb_read_available := rb_read_available ring - first,
                                       rb_read_offset := 0\<rparr>
                      in (case safe_copy_to mem1 (buf + first) (rb_buffer ring1) (rb_read_offset ring1) rest of
                            (False, mem2) \<Rightarrow> (Inl EFAULT, ring1, mem2)
                          | (True, mem2) \<Rightarrow>
                              (Inr count,
                               ring1\<lparr>rb_read_offset := rb_read_offset ring1 + rest,
                                     rb_read_available := rb_read_available ring1 - rest\<rparr>, mem2)))
         else (case safe_copy_to mem buf (rb_buffer ring) (rb_read_offset ring) count of
                 (False, mem1) \<Rightarrow> (Inl EFAULT, ring, mem1)
               | (True, mem1) \<Rightarrow>
                   (Inr count,
                    ring\<lparr>rb_read_offset := rb_read_offset ring + count,
                         rb_read_available := rb_read_available ring - count\<rparr>, mem1)))"

definition ringbuffer_write ::
    "ringbuffer \<Rightarrow> umem \<Rightarrow> nat \<Rightarrow> nat \<Rightarrow> (errno + nat) \<times> ringbuffer" where
  "ringbuffer_write ring mem buf count0 =
     (let count = (if count0 > ringbuffer_write_available ring
                   then ringbuffer_write_available ring else count0)
      in if count + rb_write_offset ring \<ge> rb_buffer_size ring
         then let first = rb_buffer_size ring - rb_write_offset ring
              in (case safe_copy_from (rb_buffer ring) (rb_write_offset ring) mem buf first of
                    (False, b1) \<Rightarrow> (Inl EFAULT, ring\<lparr>rb_buffer := b1\<rparr>)
                  | (True, b1) \<Rightarrow>
                      let rest = count - first;
                          ring1 = ring\<lparr>rb_buffer := b1,
                                       rb_read_available := rb_read_available ring + first,
                                       rb_write_offset := 0\<rparr>
                      in (case safe_copy_from (rb_buffer ring1) (rb_write_offset ring1) mem (buf + first) rest of
                            (False, b2) \<Rightarrow> (Inl EFAULT, ring1\<lparr>rb_buffer := b2\<rparr>)
                          | (True, b2) \<Rightarrow>
                              (Inr count,
                               ring1\<lparr>rb_buffer := b2,
                                     rb_write_offset := rb_write_offset ring1 + rest,
                                     rb_read_available := rb_read_available ring1 + rest\<rparr>)))
         else (case safe_copy_from (rb_buffer ring) (rb_write_offset ring) mem buf count of
                 (False, b1) \<Rightarrow> (Inl EFAULT, ring\<lparr>rb_buffer := b1\<rparr>)
               | (True, b1) \<Rightarrow>
                   (Inr count,
                    ring\<lparr>rb_buffer := b1,
                         rb_write_offset := rb_write_offset ring + count,
                         rb_read_available := rb_read_available ring + count\<rparr>)))"

subsection \<open>Invariant and abstraction\<close>

definition rb_ok :: "ringbuffer \<Rightarrow> bool" where
  "rb_ok r \<longleftrightarrow> length (rb_buffer r) = rb_buffer_size r \<and> 0 < rb_buffer_size r \<and>
     rb_read_offset r < rb_buffer_size r \<and> rb_write_offset r < rb_buffer_size r \<and>
     rb_read_available r \<le> rb_buffer_size r \<and>
     rb_write_offset r = (rb_read_offset r + rb_read_available r) mod rb_buffer_size r"

definition window :: "byte list \<Rightarrow> nat \<Rightarrow> nat \<Rightarrow> byte list" where
  "window b i n = map (\<lambda>k. b ! ((i + k) mod length b)) [0..<n]"

definition rb_contents :: "ringbuffer \<Rightarrow> byte list" where
  "rb_contents r = window (rb_buffer r) (rb_read_offset r) (rb_read_available r)"

lemma length_window [simp]: "length (window b i n) = n"
  by (simp add: window_def)

lemma length_rb_contents [simp]: "length (rb_contents r) = rb_read_available r"
  by (simp add: rb_contents_def)

lemma nth_window: "k < n \<Longrightarrow> window b i n ! k = b ! ((i + k) mod length b)"
  by (simp add: window_def)

lemma take_window: "k \<le> n \<Longrightarrow> take k (window b i n) = window b i k"
  by (simp add: window_def take_map)

lemma drop_window:
  "k \<le> n \<Longrightarrow> drop k (window b i n) = window b ((i + k) mod length b) (n - k)"
proof (rule nth_equalityI)
  fix j assume "k \<le> n" "j < length (drop k (window b i n))"
  then have "j + k < n" "j < n - k" by auto
  then show "drop k (window b i n) ! j = window b ((i + k) mod length b) (n - k) ! j"
    using \<open>k \<le> n\<close> by (simp add: nth_window ac_simps mod_add_left_eq mod_add_right_eq)
qed simp

lemma window_straight: "i + n \<le> length b \<Longrightarrow> window b i n = take n (drop i b)"
  by (rule nth_equalityI) (auto simp: nth_window)

lemma window_split:
  assumes "i < length b" and "length b - i \<le> n"
  shows "window b i n = drop i b @ window b 0 (n - (length b - i))"
proof -
  have "window b i n = take (length b - i) (window b i n) @ drop (length b - i) (window b i n)"
    by simp
  also have "take (length b - i) (window b i n) = drop i b"
    using assms by (simp add: take_window window_straight)
  also have "drop (length b - i) (window b i n) = window b 0 (n - (length b - i))"
    using assms by (simp add: drop_window)
  finally show ?thesis .
qed


subsection \<open>Reading\<close>

definition rb_advance_read :: "ringbuffer \<Rightarrow> nat \<Rightarrow> ringbuffer" where
  "rb_advance_read r n = r\<lparr>rb_read_offset := (rb_read_offset r + n) mod rb_buffer_size r,
                           rb_read_available := rb_read_available r - n\<rparr>"

lemma rb_advance_read_ok [inv_intros]:
  assumes "rb_ok r" and "n \<le> rb_read_available r"
  shows "rb_ok (rb_advance_read r n)"
proof -
  have "((rb_read_offset r + n) mod rb_buffer_size r + (rb_read_available r - n)) mod rb_buffer_size r
        = (rb_read_offset r + n + (rb_read_available r - n)) mod rb_buffer_size r"
    by (simp add: mod_add_left_eq)
  also have "rb_read_offset r + n + (rb_read_available r - n) = rb_read_offset r + rb_read_available r"
    using assms(2) by simp
  finally show ?thesis using assms by (auto simp: rb_ok_def rb_advance_read_def)
qed

lemma rb_advance_read_contents [abs_simps]:
  assumes "rb_ok r" and "n \<le> rb_read_available r"
  shows "rb_contents (rb_advance_read r n) = drop n (rb_contents r)"
  using assms by (simp add: rb_contents_def rb_advance_read_def drop_window rb_ok_def)

text \<open>The first chunk of a wrapping read reaches exactly the end of the buffer.\<close>

lemma rb_advance_to_end:
  assumes "rb_ok r"
  shows "rb_advance_read r (rb_buffer_size r - rb_read_offset r) =
     r\<lparr>rb_read_available := rb_read_available r - (rb_buffer_size r - rb_read_offset r),
       rb_read_offset := 0\<rparr>"
  using assms by (simp add: rb_advance_read_def rb_ok_def)

lemma ringbuffer_read_straight:
  assumes ok: "rb_ok r" and n: "n = min count (rb_read_available r)"
    and straight: "n + rb_read_offset r < rb_buffer_size r"
    and read: "ringbuffer_read r mem buf count = (res, r', mem')"
  shows "if readable mem buf n
         then res = Inr n \<and> r' = rb_advance_read r n \<and>
              ubytes mem' buf n = take n (rb_contents r)
         else res = Inl EFAULT \<and> r' = r"
proof -
  have cnt: "(if ringbuffer_read_available r < count then ringbuffer_read_available r else count) = n"
    using n by (auto simp: ringbuffer_read_available_def)
  have ub: "readable mem buf n \<Longrightarrow>
      ubytes (snd (safe_copy_to mem buf (rb_buffer r) (rb_read_offset r) n)) buf n = take n (rb_contents r)"
    using ok straight n
    by (subst safe_copy_to_bytes) (auto simp: rb_ok_def rb_contents_def take_window window_straight)
  have fs: "fst (safe_copy_to mem buf (rb_buffer r) (rb_read_offset r) n) = readable mem buf n"
    by (rule safe_copy_to_fst)
  show ?thesis
    using read straight ub fs
    by (cases "safe_copy_to mem buf (rb_buffer r) (rb_read_offset r) n")
      (auto simp: ringbuffer_read_def cnt rb_advance_read_def Let_def split: bool.splits)
qed

lemma ringbuffer_read_wrap:
  assumes ok: "rb_ok r" and n: "n = min count (rb_read_available r)"
    and wrap: "rb_buffer_size r \<le> n + rb_read_offset r"
    and f: "f = rb_buffer_size r - rb_read_offset r"
    and read: "ringbuffer_read r mem buf count = (res, r', mem')"
  shows "if \<not> readable mem buf f then res = Inl EFAULT \<and> r' = r
         else if \<not> readable mem buf n then res = Inl EFAULT \<and> r' = rb_advance_read r f
         else res = Inr n \<and> r' = rb_advance_read r n \<and> ubytes mem' buf n = take n (rb_contents r)"
proof -
  have cnt: "(if ringbuffer_read_available r < count then ringbuffer_read_available r else count) = n"
    using n by (auto simp: ringbuffer_read_available_def)
  have fn: "f \<le> n" and len: "length (rb_buffer r) = rb_buffer_size r"
    and off: "rb_read_offset r < rb_buffer_size r" and nn: "n \<le> rb_buffer_size r"
    using ok f wrap n by (auto simp: rb_ok_def)
  obtain b1 m1 where c1: "safe_copy_to mem buf (rb_buffer r) (rb_read_offset r) f = (b1, m1)"
    by fastforce
  obtain b2 m2 where c2: "safe_copy_to m1 (buf + f) (rb_buffer r) 0 (n - f) = (b2, m2)"
    by fastforce
  have b1: "b1 = readable mem buf f"
    using safe_copy_to_fst [of mem buf "rb_buffer r" "rb_read_offset r" f] c1 by simp
  have b2: "b2 = readable mem (buf + f) (n - f)"
    using safe_copy_to_fst [of m1 "buf + f" "rb_buffer r" 0 "n - f"] c1 c2
      safe_copy_to_readable [of mem buf "rb_buffer r" "rb_read_offset r" f "buf + f" "n - f"] by simp
  have rd: "readable mem buf n = (readable mem buf f \<and> readable mem (buf + f) (n - f))"
    using readable_add [of mem buf f "n - f"] fn by simp
  have end_eq: "rb_advance_read r f = r\<lparr>rb_read_available := rb_read_available r - f, rb_read_offset := 0\<rparr>"
    using rb_advance_to_end [OF ok] f by simp
  have adv: "rb_advance_read r n =
      (rb_advance_read r f)\<lparr>rb_read_offset := n - f, rb_read_available := rb_read_available r - f - (n - f)\<rparr>"
  proof -
    have "rb_read_offset r + n = rb_buffer_size r + (n - f)" using f fn off by simp
    moreover have "n - f < rb_buffer_size r" using nn f off by simp
    ultimately have "(rb_read_offset r + n) mod rb_buffer_size r = n - f" by simp
    then show ?thesis unfolding end_eq by (simp add: rb_advance_read_def fn)
  qed
  have bytes: "ubytes m2 buf n = take n (rb_contents r)" if "readable mem buf n"
  proof -
    have "ubytes m2 buf n = ubytes m2 buf f @ ubytes m2 (buf + f) (n - f)"
      using ubytes_add [of m2 buf f "n - f"] fn by simp
    moreover have "ubytes m2 (buf + f) (n - f) = take (n - f) (rb_buffer r)"
      using safe_copy_to_bytes [of m1 "buf + f" "n - f" 0 "rb_buffer r"] c2 that rd c1 nn len
        safe_copy_to_readable [of mem buf "rb_buffer r" "rb_read_offset r" f "buf + f" "n - f"] by simp
    moreover have "ubytes m2 buf f = ubytes m1 buf f"
      using safe_copy_to_outside [of _ "buf + f" "n - f" m1 "rb_buffer r" 0] c2
      by (intro ubytes_cong) auto
    moreover have "ubytes m1 buf f = drop (rb_read_offset r) (rb_buffer r)"
      using safe_copy_to_bytes [of mem buf f "rb_read_offset r" "rb_buffer r"] c1 that rd f off len
      by simp
    moreover have "take n (rb_contents r) =
        drop (rb_read_offset r) (rb_buffer r) @ take (n - f) (rb_buffer r)"
      using n off len fn nn f
      by (simp add: rb_contents_def take_window window_split window_straight)
    ultimately show ?thesis by simp
  qed
  show ?thesis
    using read wrap b1 b2 rd bytes f c1 c2 end_eq adv
    by (auto simp: ringbuffer_read_def cnt Let_def split: bool.splits)
qed


subsection \<open>Writing\<close>

definition rb_advance_write :: "ringbuffer \<Rightarrow> byte list \<Rightarrow> nat \<Rightarrow> ringbuffer" where
  "rb_advance_write r b n = r\<lparr>rb_buffer := b,
      rb_write_offset := (rb_write_offset r + n) mod rb_buffer_size r,
      rb_read_available := rb_read_available r + n\<rparr>"

lemma mod_less_double: "a < 2 * m \<Longrightarrow> a mod m = (if a < m then a else a - m)" for a m :: nat
  by (simp add: mod_if)

lemma rb_advance_write_ok [inv_intros]:
  assumes "rb_ok r" and "length b = rb_buffer_size r" and "n + rb_read_available r \<le> rb_buffer_size r"
  shows "rb_ok (rb_advance_write r b n)"
  using assms by (auto simp: rb_ok_def rb_advance_write_def mod_add_left_eq mod_add_right_eq ac_simps)

lemma rb_advance_write_size [simp, frame_simps]:
  "rb_buffer_size (rb_advance_write r b n) = rb_buffer_size r"
  by (simp add: rb_advance_write_def)

lemma rb_advance_read_size [simp, frame_simps]:
  "rb_buffer_size (rb_advance_read r n) = rb_buffer_size r"
  by (simp add: rb_advance_read_def)

text \<open>An occupied index is never in the free run that starts at the write offset.\<close>

lemma occupied_not_written:
  assumes "rb_ok r" and "j < rb_read_available r" and "n + rb_read_available r \<le> rb_buffer_size r"
    and "rb_write_offset r + n \<le> rb_buffer_size r"
  shows "(rb_read_offset r + j) mod rb_buffer_size r < rb_write_offset r \<or>
         rb_write_offset r + n \<le> (rb_read_offset r + j) mod rb_buffer_size r"
proof -
  have j: "(rb_read_offset r + j) mod rb_buffer_size r =
      (if rb_read_offset r + j < rb_buffer_size r then rb_read_offset r + j
       else rb_read_offset r + j - rb_buffer_size r)"
    using assms by (intro mod_less_double) (auto simp: rb_ok_def)
  have w: "rb_write_offset r =
      (if rb_read_offset r + rb_read_available r < rb_buffer_size r
       then rb_read_offset r + rb_read_available r
       else rb_read_offset r + rb_read_available r - rb_buffer_size r)"
    using assms mod_less_double [of "rb_read_offset r + rb_read_available r" "rb_buffer_size r"]
    by (auto simp: rb_ok_def)
  show ?thesis using assms unfolding j by (auto simp: rb_ok_def w split: if_splits)
qed

text \<open>One \<^verbatim>\<open>safe_copy_from\<close> into the free run: the bytes before the write offset stay as they are.\<close>

lemma rb_write_chunk:
  assumes ok: "rb_ok r" and fit: "n + rb_read_available r \<le> rb_buffer_size r"
    and straight: "rb_write_offset r + n \<le> rb_buffer_size r"
    and copy: "safe_copy_from (rb_buffer r) (rb_write_offset r) mem a n = (b, buf')"
  shows "b = readable mem a n" and "rb_ok (r\<lparr>rb_buffer := buf'\<rparr>)"
    and "rb_contents (r\<lparr>rb_buffer := buf'\<rparr>) = rb_contents r"
    and "length buf' = rb_buffer_size r"
    and "b \<Longrightarrow> rb_contents (rb_advance_write r buf' n) = rb_contents r @ ubytes mem a n"
proof -
  have len: "length (rb_buffer r) = rb_buffer_size r" using ok by (simp add: rb_ok_def)
  show b: "b = readable mem a n"
    using safe_copy_from_fst [of "rb_buffer r" "rb_write_offset r" mem a n] copy by simp
  show len': "length buf' = rb_buffer_size r"
    using safe_copy_from_len [of "rb_buffer r" "rb_write_offset r" mem a n] copy len by simp
  then show "rb_ok (r\<lparr>rb_buffer := buf'\<rparr>)" using ok by (simp add: rb_ok_def)
  have out: "buf' ! k = rb_buffer r ! k"
    if "k < rb_write_offset r \<or> rb_write_offset r + n \<le> k" for k
    using safe_copy_from_outside [of k "rb_write_offset r" n "rb_buffer r" mem a] copy that by simp
  have old: "buf' ! ((rb_read_offset r + j) mod rb_buffer_size r) =
             rb_buffer r ! ((rb_read_offset r + j) mod rb_buffer_size r)"
    if "j < rb_read_available r" for j
    using out occupied_not_written [OF ok that fit straight] by blast
  then have win: "window buf' (rb_read_offset r) (rb_read_available r) = rb_contents r"
    by (auto simp: rb_contents_def window_def len len')
  then show "rb_contents (r\<lparr>rb_buffer := buf'\<rparr>) = rb_contents r"
    by (simp add: rb_contents_def)
  show "rb_contents (rb_advance_write r buf' n) = rb_contents r @ ubytes mem a n" if b
  proof -
    let ?W = "window buf' (rb_read_offset r) (rb_read_available r + n)"
    have "drop (rb_read_available r) ?W = window buf' (rb_write_offset r) n"
      using ok by (simp add: drop_window len' rb_ok_def)
    also have "\<dots> = take n (drop (rb_write_offset r) buf')"
      using straight len' by (simp add: window_straight)
    also have "\<dots> = ubytes mem a n"
      using safe_copy_from_ok [of mem a n "rb_write_offset r" "rb_buffer r"] copy that b straight len
      by simp
    finally have dr: "drop (rb_read_available r) ?W = ubytes mem a n" .
    have tk: "take (rb_read_available r) ?W = rb_contents r"
      using win by (simp add: take_window)
    have "rb_contents (rb_advance_write r buf' n) = ?W"
      by (simp add: rb_contents_def rb_advance_write_def)
    also have "\<dots> = take (rb_read_available r) ?W @ drop (rb_read_available r) ?W"
      by (rule append_take_drop_id [symmetric])
    finally show ?thesis by (simp only: dr tk)
  qed
qed

lemma ringbuffer_write_straight:
  assumes ok: "rb_ok r" and n: "n = min count (rb_buffer_size r - rb_read_available r)"
    and straight: "n + rb_write_offset r < rb_buffer_size r"
    and wr: "ringbuffer_write r mem buf count = (res, r')"
  shows "rb_ok r' \<and> rb_buffer_size r' = rb_buffer_size r \<and>
         (if readable mem buf n
          then res = Inr n \<and> rb_contents r' = rb_contents r @ ubytes mem buf n
          else res = Inl EFAULT \<and> rb_contents r' = rb_contents r)"
proof -
  have cnt: "(if ringbuffer_write_available r < count then ringbuffer_write_available r else count) = n"
    using n by (auto simp: ringbuffer_read_available_def ringbuffer_write_available_def)
  have fit: "n + rb_read_available r \<le> rb_buffer_size r" using n ok by (auto simp: rb_ok_def)
  obtain b b1 where c: "safe_copy_from (rb_buffer r) (rb_write_offset r) mem buf n = (b, b1)"
    by fastforce
  note ch = rb_write_chunk [OF ok fit _ c]
  have adv: "rb_advance_write r b1 n = r\<lparr>rb_buffer := b1, rb_write_offset := rb_write_offset r + n,
       rb_read_available := rb_read_available r + n\<rparr>"
    using straight by (simp add: rb_advance_write_def)
  have "rb_ok (rb_advance_write r b1 n)" using ok fit ch(4) straight by (intro inv_intros) auto
  then show ?thesis
    using wr straight c ch adv
    by (auto simp: ringbuffer_write_def cnt Let_def split: bool.splits)
qed

lemma ringbuffer_write_wrap:
  assumes ok: "rb_ok r" and n: "n = min count (rb_buffer_size r - rb_read_available r)"
    and wrap: "rb_buffer_size r \<le> n + rb_write_offset r"
    and f: "f = rb_buffer_size r - rb_write_offset r"
    and wr: "ringbuffer_write r mem buf count = (res, r')"
  shows "rb_ok r' \<and> rb_buffer_size r' = rb_buffer_size r \<and>
         (if \<not> readable mem buf f then res = Inl EFAULT \<and> rb_contents r' = rb_contents r
          else if \<not> readable mem buf n
          then res = Inl EFAULT \<and> rb_contents r' = rb_contents r @ ubytes mem buf f
          else res = Inr n \<and> rb_contents r' = rb_contents r @ ubytes mem buf n)"
proof -
  have cnt: "(if ringbuffer_write_available r < count then ringbuffer_write_available r else count) = n"
    using n by (auto simp: ringbuffer_read_available_def ringbuffer_write_available_def)
  have fn: "f \<le> n" and off: "rb_write_offset r < rb_buffer_size r"
    and fit: "n + rb_read_available r \<le> rb_buffer_size r"
    using ok f wrap n by (auto simp: rb_ok_def)
  obtain b1 m1 where c1: "safe_copy_from (rb_buffer r) (rb_write_offset r) mem buf f = (b1, m1)"
    by fastforce
  have fit1: "f + rb_read_available r \<le> rb_buffer_size r" using fit fn by simp
  have st1: "rb_write_offset r + f \<le> rb_buffer_size r" using f off by simp
  note ch1 = rb_write_chunk [OF ok fit1 st1 c1]
  define r1 where "r1 = rb_advance_write r m1 f"
  have r1: "r1 = r\<lparr>rb_buffer := m1, rb_read_available := rb_read_available r + f, rb_write_offset := 0\<rparr>"
    using off by (simp add: r1_def rb_advance_write_def f)
  have ok1: "rb_ok r1" unfolding r1_def using ok fit1 ch1(4) by (intro inv_intros) auto
  obtain b2 m2 where c2: "safe_copy_from (rb_buffer r1) (rb_write_offset r1) mem (buf + f) (n - f) = (b2, m2)"
    by fastforce
  have fit2: "(n - f) + rb_read_available r1 \<le> rb_buffer_size r1" using fit fn by (simp add: r1)
  have st2: "rb_write_offset r1 + (n - f) \<le> rb_buffer_size r1" using fit by (simp add: r1)
  note ch2 = rb_write_chunk [OF ok1 fit2 st2 c2]
  have lt: "n - f < rb_buffer_size r"
  proof -
    have "0 < f" "n \<le> rb_buffer_size r" using f off fit by simp_all
    then show ?thesis using off by linarith
  qed
  define r2 where "r2 = rb_advance_write r1 m2 (n - f)"
  have r2: "r2 = r1\<lparr>rb_buffer := m2, rb_write_offset := n - f,
       rb_read_available := rb_read_available r1 + (n - f)\<rparr>"
    using lt by (simp add: r2_def rb_advance_write_def r1)
  have ok2: "rb_ok r2" unfolding r2_def using ok1 fit2 ch2(4) by (intro inv_intros) auto
  have rd: "readable mem buf n = (readable mem buf f \<and> readable mem (buf + f) (n - f))"
    using readable_add [of mem buf f "n - f"] fn by simp
  have ub: "ubytes mem buf n = ubytes mem buf f @ ubytes mem (buf + f) (n - f)"
    using ubytes_add [of mem buf f "n - f"] fn by simp
  have sz: "rb_buffer_size r1 = rb_buffer_size r" "rb_write_offset r1 = 0"
    "rb_buffer_size r2 = rb_buffer_size r"
    by (simp_all add: r1 r2)
  have step: "ringbuffer_write r mem buf count =
      (if \<not> b1 then (Inl EFAULT, r\<lparr>rb_buffer := m1\<rparr>)
       else if \<not> b2 then (Inl EFAULT, r1\<lparr>rb_buffer := m2\<rparr>) else (Inr n, r2))"
    using wrap c1 c2 f sz
    by (simp add: ringbuffer_write_def cnt Let_def r2 r1 split: bool.splits)
  consider (first_fault) "\<not> b1" | (second_fault) "b1" "\<not> b2" | (copied) "b1" "b2" by blast
  then show ?thesis
  proof cases
    case first_fault
    then have "res = Inl EFAULT" "r' = r\<lparr>rb_buffer := m1\<rparr>" using wr by (simp_all add: step)
    then show ?thesis using first_fault ch1(1,2,3) by simp
  next
    case second_fault
    then have "res = Inl EFAULT" "r' = r1\<lparr>rb_buffer := m2\<rparr>" using wr by (simp_all add: step)
    then show ?thesis
      using second_fault ch1(1) ch1(5) [folded r1_def] ch2(1,2,3) rd sz(1) by simp
  next
    case copied
    then have "res = Inr n" "r' = r2" using wr by (simp_all add: step)
    then show ?thesis
      using copied ch1(1) ch1(5) [folded r1_def] ch2(1) ch2(5) [folded r2_def] ok2 rd ub sz(3) by simp
  qed
qed


subsection \<open>Every outcome of a read and of a write\<close>

lemma ringbuffer_read_spec:
  assumes "rb_ok r" and "n = min count (rb_read_available r)"
    and "ringbuffer_read r mem buf count = (res, r', mem')"
  shows "rb_ok r' \<and> rb_buffer_size r' = rb_buffer_size r \<and>
     (if readable mem buf n
      then res = Inr n \<and> rb_contents r' = drop n (rb_contents r) \<and>
           ubytes mem' buf n = take n (rb_contents r)
      else res = Inl EFAULT \<and> (\<exists>k \<le> n. rb_contents r' = drop k (rb_contents r)))"
proof -
  have n: "n \<le> rb_read_available r" using assms(2) by simp
  have consumed: ?thesis if "res = Inr n" "r' = rb_advance_read r n" "readable mem buf n"
    "ubytes mem' buf n = take n (rb_contents r)"
    using that n assms(1) by (simp add: abs_simps inv_intros)
  have fault: ?thesis if "res = Inl EFAULT" "r' = rb_advance_read r k" "k \<le> n" "\<not> readable mem buf n" for k
  proof -
    have "k \<le> rb_read_available r" using that(3) n by simp
    with assms(1) have "rb_contents r' = drop k (rb_contents r)" "rb_ok r'" "rb_buffer_size r' = rb_buffer_size r"
      by (simp_all add: that(2) abs_simps inv_intros)
    with that show ?thesis by auto
  qed
  have r0: "rb_advance_read r 0 = r" using assms(1) by (simp add: rb_advance_read_def rb_ok_def)
  let ?f = "rb_buffer_size r - rb_read_offset r"
  show ?thesis
  proof (cases "n + rb_read_offset r < rb_buffer_size r")
    case True
    note st = ringbuffer_read_straight [OF assms(1,2) True assms(3)]
    show ?thesis
    proof (cases "readable mem buf n")
      case True
      then show ?thesis using st by (intro consumed) auto
    next
      case False
      then show ?thesis using st r0 by (intro fault [of 0]) auto
    qed
  next
    case False
    then have f: "?f \<le> n" and wrap: "rb_buffer_size r \<le> n + rb_read_offset r" by simp_all
    then have rf: "readable mem buf n \<Longrightarrow> readable mem buf ?f" using readable_mono by blast
    note st = ringbuffer_read_wrap [OF assms(1,2) wrap refl assms(3)]
    consider "\<not> readable mem buf ?f" | "readable mem buf ?f" "\<not> readable mem buf n"
      | "readable mem buf n" by blast
    then show ?thesis
    proof cases
      case 1
      then show ?thesis using st r0 rf by (intro fault [of 0]) auto
    next
      case 2
      then show ?thesis using st f by (intro fault [of ?f]) auto
    next
      case 3
      then show ?thesis using st rf by (intro consumed) auto
    qed
  qed
qed

text \<open>
  C1. A read takes the oldest bytes. From a well-formed buffer, with \<open>n\<close> the smaller of the
  requested count and the bytes available: if the destination can be written the call returns
  \<open>n\<close>, the destination holds the \<open>n\<close> oldest bytes and exactly those have left the buffer;
  otherwise it returns \<^verbatim>\<open>-EFAULT\<close>, and what has left the buffer is a prefix. The buffer stays
  well formed in every case.
\<close>

theorem ringbuffer_read_correct:
  assumes "rb_ok r" and "n = min count (rb_read_available r)"
    and "ringbuffer_read r mem buf count = (res, r', mem')"
  shows "rb_ok r' \<and> rb_buffer_size r' = rb_buffer_size r \<and>
     (if readable mem buf n
      then res = Inr n \<and> rb_contents r' = drop n (rb_contents r) \<and>
           ubytes mem' buf n = take n (rb_contents r)
      else res = Inl EFAULT \<and> (\<exists>k \<le> n. rb_contents r' = drop k (rb_contents r)))"
  by (rule ringbuffer_read_spec [OF assms])

lemma ringbuffer_write_spec:
  assumes "rb_ok r" and "n = min count (rb_buffer_size r - rb_read_available r)"
    and "ringbuffer_write r mem buf count = (res, r')"
  shows "rb_ok r' \<and> rb_buffer_size r' = rb_buffer_size r \<and>
     (if readable mem buf n
      then res = Inr n \<and> rb_contents r' = rb_contents r @ ubytes mem buf n
      else res = Inl EFAULT \<and> (\<exists>k \<le> n. rb_contents r' = rb_contents r @ ubytes mem buf k))"
proof -
  have fault: ?thesis if "res = Inl EFAULT" "rb_ok r'" "rb_buffer_size r' = rb_buffer_size r"
    "rb_contents r' = rb_contents r @ ubytes mem buf k" "k \<le> n" "\<not> readable mem buf n" for k
    using that by auto
  let ?f = "rb_buffer_size r - rb_write_offset r"
  show ?thesis
  proof (cases "n + rb_write_offset r < rb_buffer_size r")
    case True
    note st = ringbuffer_write_straight [OF assms(1,2) True assms(3)]
    show ?thesis
    proof (cases "readable mem buf n")
      case True
      then show ?thesis using st by auto
    next
      case False
      then show ?thesis using st by (intro fault [of 0]) auto
    qed
  next
    case False
    then have f: "?f \<le> n" and wrap: "rb_buffer_size r \<le> n + rb_write_offset r" by simp_all
    then have rf: "readable mem buf n \<Longrightarrow> readable mem buf ?f" using readable_mono by blast
    note st = ringbuffer_write_wrap [OF assms(1,2) wrap refl assms(3)]
    consider "\<not> readable mem buf ?f" | "readable mem buf ?f" "\<not> readable mem buf n"
      | "readable mem buf n" by blast
    then show ?thesis
    proof cases
      case 1
      then show ?thesis using st rf by (intro fault [of 0]) auto
    next
      case 2
      then show ?thesis using st f by (intro fault [of ?f]) auto
    next
      case 3
      then show ?thesis using st rf by auto
    qed
  qed
qed

text \<open>
  C2. A write appends. From a well-formed buffer, with \<open>n\<close> the smaller of the given count and the
  free space: if the source can be read the call returns \<open>n\<close> and the contents are the old
  ones followed by the first \<open>n\<close> source bytes; otherwise it returns \<^verbatim>\<open>-EFAULT\<close> and a prefix of the
  source was appended. The buffer stays well formed in every case.
\<close>

theorem ringbuffer_write_correct:
  assumes "rb_ok r" and "n = min count (rb_buffer_size r - rb_read_available r)"
    and "ringbuffer_write r mem buf count = (res, r')"
  shows "rb_ok r' \<and> rb_buffer_size r' = rb_buffer_size r \<and>
     (if readable mem buf n
      then res = Inr n \<and> rb_contents r' = rb_contents r @ ubytes mem buf n
      else res = Inl EFAULT \<and> (\<exists>k \<le> n. rb_contents r' = rb_contents r @ ubytes mem buf k))"
  by (rule ringbuffer_write_spec [OF assms])


text \<open>A wrapped buffer of four bytes that holds two, for the witnesses.\<close>

definition ex_ring :: ringbuffer where
  "ex_ring = \<lparr>rb_buffer = [20, 0, 0, 10], rb_write_offset = 1, rb_read_offset = 3,
              rb_buffer_size = 4, rb_read_available = 2\<rparr>"

lemma ex_ring_ok: "rb_ok ex_ring"
  by (simp add: ex_ring_def rb_ok_def)

theorem ringbuffer_read_correct_witness:
  "rb_ok ex_ring \<and> rb_contents ex_ring = [10, 20] \<and>
   fst (ringbuffer_read ex_ring (mem_of [0, 0]) 0 7) = Inr 2 \<and>
   rb_contents (fst (snd (ringbuffer_read ex_ring (mem_of [0, 0]) 0 7))) = [] \<and>
   ubytes (snd (snd (ringbuffer_read ex_ring (mem_of [0, 0]) 0 7))) 0 2 = [10, 20]"
proof -
  have c: "rb_contents ex_ring = [10, 20]" "rb_read_available ex_ring = 2"
    by (simp_all add: ex_ring_def rb_contents_def window_def upt_rec)
  have "readable (mem_of [0, 0]) 0 2"
    using readable_mem_of [of "[0, 0]"] by (simp add: numeral_2_eq_2)
  then show ?thesis
    using ringbuffer_read_correct [OF ex_ring_ok, of 2 7 "mem_of [0, 0]" 0
        "fst (ringbuffer_read ex_ring (mem_of [0, 0]) 0 7)"
        "fst (snd (ringbuffer_read ex_ring (mem_of [0, 0]) 0 7))"
        "snd (snd (ringbuffer_read ex_ring (mem_of [0, 0]) 0 7))"] c ex_ring_ok
    by simp
qed

theorem ringbuffer_write_correct_witness:
  "rb_ok ex_ring \<and> fst (ringbuffer_write ex_ring (mem_of [1, 2, 3]) 0 3) = Inr 2 \<and>
   rb_contents (snd (ringbuffer_write ex_ring (mem_of [1, 2, 3]) 0 3)) = [10, 20, 1, 2]"
proof -
  have c: "rb_contents ex_ring = [10, 20]" "rb_read_available ex_ring = 2" "rb_buffer_size ex_ring = 4"
    by (simp_all add: ex_ring_def rb_contents_def window_def upt_rec)
  have "readable (mem_of [1, 2, 3]) 0 2"
    by (rule readable_mono [OF readable_mem_of]) simp
  moreover have "ubytes (mem_of [1, 2, 3]) 0 2 = [1, 2]"
    by (simp add: ubytes_def mem_of_def upt_rec)
  ultimately show ?thesis
    using ringbuffer_write_correct [OF ex_ring_ok, of 2 3 "mem_of [1, 2, 3]" 0
        "fst (ringbuffer_write ex_ring (mem_of [1, 2, 3]) 0 3)"
        "snd (ringbuffer_write ex_ring (mem_of [1, 2, 3]) 0 3)"] c ex_ring_ok
    by simp
qed

subsection \<open>The byte queue contract\<close>

text \<open>
  What pipes and terminals rely on: \<open>put\<close> offers bytes and returns how many were taken,
  \<open>get\<close> asks for bytes and returns those it got.
\<close>

locale byte_fifo =
  fixes ok :: "'r \<Rightarrow> bool"
    and contents :: "'r \<Rightarrow> byte list"
    and capacity :: "'r \<Rightarrow> nat"
    and put :: "'r \<Rightarrow> byte list \<Rightarrow> nat \<times> 'r"
    and get :: "'r \<Rightarrow> nat \<Rightarrow> byte list \<times> 'r"
  assumes bounded: "ok r \<Longrightarrow> length (contents r) \<le> capacity r"
    and put_law: "ok r \<Longrightarrow> put r xs = (n, r') \<Longrightarrow>
      ok r' \<and> capacity r' = capacity r \<and> n = min (length xs) (capacity r - length (contents r)) \<and>
      contents r' = contents r @ take n xs"
    and get_law: "ok r \<Longrightarrow> get r n = (xs, r') \<Longrightarrow>
      ok r' \<and> capacity r' = capacity r \<and> xs = take n (contents r) \<and> contents r' = drop n (contents r)"

datatype fifo_op = Put "byte list" | Get nat

text \<open>A sequence of operations, with the bytes that went in and the bytes that came out.\<close>

fun fifo_run :: "('r \<Rightarrow> byte list \<Rightarrow> nat \<times> 'r) \<Rightarrow> ('r \<Rightarrow> nat \<Rightarrow> byte list \<times> 'r) \<Rightarrow> 'r \<Rightarrow> fifo_op list
    \<Rightarrow> byte list \<times> byte list \<times> 'r" where
  "fifo_run put get r [] = ([], [], r)"
| "fifo_run put get r (Put xs # ops) =
     (let (n, r1) = put r xs; (ins, outs, r2) = fifo_run put get r1 ops
      in (take n xs @ ins, outs, r2))"
| "fifo_run put get r (Get n # ops) =
     (let (ys, r1) = get r n; (ins, outs, r2) = fifo_run put get r1 ops
      in (ins, ys @ outs, r2))"

context byte_fifo
begin

lemma run_conserves:
  "ok r \<Longrightarrow> fifo_run put get r ops = (ins, outs, r') \<Longrightarrow>
   ok r' \<and> capacity r' = capacity r \<and> contents r @ ins = outs @ contents r'"
proof (induction ops arbitrary: r ins outs r')
  case Nil
  then show ?case by simp
next
  case (Cons op ops)
  show ?case
  proof (cases op)
    case (Put xs)
    obtain n r1 where p: "put r xs = (n, r1)" by fastforce
    obtain ins2 outs2 r2 where f: "fifo_run put get r1 ops = (ins2, outs2, r2)"
      by (metis prod_cases3)
    show ?thesis
      using put_law [OF Cons.prems(1) p] Cons.IH [OF _ f] Cons.prems(2) Put p f by auto
  next
    case (Get n)
    obtain ys r1 where g: "get r n = (ys, r1)" by fastforce
    obtain ins2 outs2 r2 where f: "fifo_run put get r1 ops = (ins2, outs2, r2)"
      by (metis prod_cases3)
    have "ok r1" "contents r = ys @ contents r1" "capacity r1 = capacity r"
      using get_law [OF Cons.prems(1) g] by auto
    then show ?thesis
      using Cons.IH [OF _ f] Cons.prems(2) Get g f by auto
  qed
qed

lemma put_get_inverse:
  assumes "ok r" and "contents r = []" and "length xs \<le> capacity r"
    and "put r xs = (n, r1)" and "get r1 (length xs) = (ys, r2)"
  shows "n = length xs \<and> ys = xs \<and> contents r2 = []"
  using put_law [OF assms(1,4)] get_law [OF _ assms(5)] assms(2,3) by auto

end

text \<open>The ring buffer used from kernel buffers, where no copy faults.\<close>

definition rb_put :: "ringbuffer \<Rightarrow> byte list \<Rightarrow> nat \<times> ringbuffer" where
  "rb_put r xs =
     (case ringbuffer_write r (mem_of xs) 0 (length xs) of
        (Inr n, r') \<Rightarrow> (n, r') | (Inl _, r') \<Rightarrow> (0, r'))"

definition rb_get :: "ringbuffer \<Rightarrow> nat \<Rightarrow> byte list \<times> ringbuffer" where
  "rb_get r n =
     (case ringbuffer_read r (\<lambda>_. Some 0) 0 n of
        (Inr k, r', m) \<Rightarrow> (ubytes m 0 k, r') | (Inl _, r', _) \<Rightarrow> ([], r'))"

lemma rb_put_law:
  assumes "rb_ok r" and "rb_put r xs = (n, r')"
  shows "rb_ok r' \<and> rb_buffer_size r' = rb_buffer_size r \<and>
         n = min (length xs) (rb_buffer_size r - length (rb_contents r)) \<and>
         rb_contents r' = rb_contents r @ take n xs"
proof -
  let ?n = "min (length xs) (rb_buffer_size r - rb_read_available r)"
  obtain res r1 where w: "ringbuffer_write r (mem_of xs) 0 (length xs) = (res, r1)" by fastforce
  have rd: "readable (mem_of xs) 0 ?n" by (rule readable_mono [OF readable_mem_of]) simp
  have ub: "ubytes (mem_of xs) 0 ?n = take ?n xs"
    using take_ubytes [of ?n "length xs" "mem_of xs" 0] by simp
  show ?thesis
    using ringbuffer_write_spec [OF assms(1) refl w] rd ub assms(2) w by (auto simp: rb_put_def)
qed

lemma rb_put_available:
  assumes "rb_ok r" and "rb_put r xs = (n, r')"
  shows "rb_read_available r' = rb_read_available r + n"
proof -
  have "n \<le> length xs" and c: "rb_contents r' = rb_contents r @ take n xs"
    using rb_put_law [OF assms] by (simp_all only: min.cobounded1)
  then show ?thesis by (metis length_append length_rb_contents length_take min.absorb2)
qed

lemma rb_get_law:
  assumes "rb_ok r" and "rb_get r n = (xs, r')"
  shows "rb_ok r' \<and> rb_buffer_size r' = rb_buffer_size r \<and>
         xs = take n (rb_contents r) \<and> rb_contents r' = drop n (rb_contents r)"
proof -
  let ?n = "min n (rb_read_available r)"
  obtain res r1 m where w: "ringbuffer_read r (\<lambda>_. Some 0) 0 n = (res, r1, m)" by (metis prod_cases3)
  have rd: "readable (\<lambda>_. Some 0) 0 ?n" by (simp add: readable_def)
  have "take ?n (rb_contents r) = take n (rb_contents r)" "drop ?n (rb_contents r) = drop n (rb_contents r)"
    by (auto simp: min_def)
  then show ?thesis
    using ringbuffer_read_spec [OF assms(1) refl w] rd assms(2) w by (auto simp: rb_get_def)
qed

interpretation ring_fifo: byte_fifo rb_ok rb_contents rb_buffer_size rb_put rb_get
proof unfold_locales
  show "length (rb_contents r) \<le> rb_buffer_size r" if "rb_ok r" for r
    using that by (simp add: rb_ok_def)
qed (use rb_put_law rb_get_law in blast)+



end
