(* ===== verification/Klist.thy ===== *)
theory Klist
  imports Prelude
begin

section \<open>The intrusive doubly linked lists of the kernel library\<close>

text \<open>
  Models \<^verbatim>\<open>kernel/klib/list.c\<close>, \<^verbatim>\<open>kernel/include/klib/list.h\<close> and the writer side of
  \<^verbatim>\<open>kernel/klib/rculist.c\<close>. A node lives in memory shared by all lists, so the operations work
  on an explicit store \<open>nheap\<close> from addresses to nodes, in the order of the C assignments: a
  node that is already linked, or that two names alias, is updated as the code updates it.
  Each operation runs under the list's spinlock, so it is one atomic step here.

  \<open>klist h l xs\<close> says that the header \<open>l\<close> describes the list of nodes \<open>xs\<close> in the store \<open>h\<close>.
  The locale \<open>node_list\<close> is the contract that the allocators, the scheduler queues and the
  VFS rely on; both list implementations are interpretations of it.
\<close>

type_synonym addr = nat

record list_node =
  node_next :: "addr option"
  node_prev :: "addr option"

type_synonym nheap = "addr \<Rightarrow> list_node"

record list_t =
  first_node :: "addr option"
  last_node :: "addr option"
  node_count :: u64

definition list_init :: list_t where
  "list_init = \<lparr>first_node = None, last_node = None, node_count = 0\<rparr>"

definition list_is_empty :: "list_t \<Rightarrow> bool" where
  "list_is_empty l \<longleftrightarrow> first_node l = None"

definition list_prepend :: "nheap \<Rightarrow> list_t \<Rightarrow> addr \<Rightarrow> nheap \<times> list_t" where
  "list_prepend h l node =
     (let h1 = h(node := (h node)\<lparr>node_prev := None, node_next := first_node l\<rparr>);
          (h2, l2) = (case first_node l of
              Some f \<Rightarrow> (h1(f := (h1 f)\<lparr>node_prev := Some node\<rparr>), l)
            | None \<Rightarrow> (h1, l\<lparr>last_node := Some node\<rparr>))
      in (h2, l2\<lparr>first_node := Some node, node_count := node_count l2 + 1\<rparr>))"

definition list_append :: "nheap \<Rightarrow> list_t \<Rightarrow> addr \<Rightarrow> nheap \<times> list_t" where
  "list_append h l node =
     (let h1 = h(node := (h node)\<lparr>node_prev := last_node l, node_next := None\<rparr>);
          (h2, l2) = (case last_node l of
              Some e \<Rightarrow> (h1(e := (h1 e)\<lparr>node_next := Some node\<rparr>), l)
            | None \<Rightarrow> (h1, l\<lparr>first_node := Some node\<rparr>))
      in (h2, l2\<lparr>last_node := Some node, node_count := node_count l2 + 1\<rparr>))"

definition list_add_after :: "nheap \<Rightarrow> list_t \<Rightarrow> addr option \<Rightarrow> addr \<Rightarrow> nheap \<times> list_t" where
  "list_add_after h l ref node =
     (case ref of
        None \<Rightarrow> list_prepend h l node
      | Some r \<Rightarrow>
          (let h1 = h(node := (h node)\<lparr>node_prev := Some r, node_next := node_next (h r)\<rparr>);
               (h2, l2) = (case node_next (h1 r) of
                   Some n \<Rightarrow> (h1(n := (h1 n)\<lparr>node_prev := Some node\<rparr>), l)
                 | None \<Rightarrow> (h1, l\<lparr>last_node := Some node\<rparr>))
           in (h2(r := (h2 r)\<lparr>node_next := Some node\<rparr>), l2\<lparr>node_count := node_count l2 + 1\<rparr>)))"

definition list_add_before :: "nheap \<Rightarrow> list_t \<Rightarrow> addr option \<Rightarrow> addr \<Rightarrow> nheap \<times> list_t" where
  "list_add_before h l ref node =
     (case ref of
        Some r \<Rightarrow> list_add_after h l (node_prev (h r)) node
      | None \<Rightarrow> list_append h l node)"

definition list_remove :: "nheap \<Rightarrow> list_t \<Rightarrow> addr option \<Rightarrow> nheap \<times> list_t" where
  "list_remove h l node_opt =
     (case node_opt of
        None \<Rightarrow> (h, l)
      | Some node \<Rightarrow>
          (let (h1, l1) = (case node_prev (h node) of
                  Some p \<Rightarrow> (h(p := (h p)\<lparr>node_next := node_next (h node)\<rparr>), l)
                | None \<Rightarrow> (h, l\<lparr>first_node := node_next (h node)\<rparr>));
               (h2, l2) = (case node_next (h1 node) of
                  Some n \<Rightarrow> (h1(n := (h1 n)\<lparr>node_prev := node_prev (h1 node)\<rparr>), l1)
                | None \<Rightarrow> (h1, l1\<lparr>last_node := node_prev (h1 node)\<rparr>))
           in (h2, l2\<lparr>node_count := node_count l2 - 1\<rparr>)))"

text \<open>The \<^verbatim>\<open>foreach\<close> macro: follow the next pointers from the first node, at most \<open>fuel\<close> of them.\<close>

fun list_walk :: "nat \<Rightarrow> nheap \<Rightarrow> addr option \<Rightarrow> addr list option" where
  "list_walk fuel h None = Some []"
| "list_walk 0 h (Some x) = None"
| "list_walk (Suc fuel) h (Some x) = map_option (Cons x) (list_walk fuel h (node_next (h x)))"

text \<open>The read-copy-update list of \<^verbatim>\<open>rculist.c\<close>: no node count, and its own order of stores.\<close>

record rculist =
  rl_first :: "addr option"
  rl_last :: "addr option"

definition rculist_init :: rculist where
  "rculist_init = \<lparr>rl_first = None, rl_last = None\<rparr>"

definition rculist_raw_prepend :: "nheap \<Rightarrow> rculist \<Rightarrow> addr \<Rightarrow> nheap \<times> rculist" where
  "rculist_raw_prepend h l node =
     (let h1 = h(node := (h node)\<lparr>node_prev := None, node_next := rl_first l\<rparr>);
          (h2, l2) = (case rl_first l of
              Some f \<Rightarrow> (h1(f := (h1 f)\<lparr>node_prev := Some node\<rparr>), l)
            | None \<Rightarrow> (h1, l\<lparr>rl_last := Some node\<rparr>))
      in (h2, l2\<lparr>rl_first := Some node\<rparr>))"

definition rculist_raw_append :: "nheap \<Rightarrow> rculist \<Rightarrow> addr \<Rightarrow> nheap \<times> rculist" where
  "rculist_raw_append h l node =
     (let h1 = h(node := (h node)\<lparr>node_prev := rl_last l, node_next := None\<rparr>);
          l1 = l\<lparr>rl_last := Some node\<rparr>
      in (case node_prev (h1 node) of
            Some p \<Rightarrow> (h1(p := (h1 p)\<lparr>node_next := Some node\<rparr>), l1)
          | None \<Rightarrow> (h1, l1\<lparr>rl_first := Some node\<rparr>)))"

definition rculist_raw_remove :: "nheap \<Rightarrow> rculist \<Rightarrow> addr option \<Rightarrow> nheap \<times> rculist" where
  "rculist_raw_remove h l node_opt =
     (case node_opt of
        None \<Rightarrow> (h, l)
      | Some node \<Rightarrow>
          (let (h1, l1) = (case node_next (h node) of
                  Some n \<Rightarrow> (h(n := (h n)\<lparr>node_prev := node_prev (h node)\<rparr>), l)
                | None \<Rightarrow> (h, l\<lparr>rl_last := node_prev (h node)\<rparr>))
           in (case node_prev (h1 node) of
                  Some p \<Rightarrow> (h1(p := (h1 p)\<lparr>node_next := node_next (h1 node)\<rparr>), l1)
                | None \<Rightarrow> (h1, l1\<lparr>rl_first := node_next (h1 node)\<rparr>))))"

subsection \<open>List segments in the store\<close>

definition head_or :: "addr option \<Rightarrow> addr list \<Rightarrow> addr option" where
  "head_or n xs = (case xs of [] \<Rightarrow> n | x # _ \<Rightarrow> Some x)"

definition last_or :: "addr option \<Rightarrow> addr list \<Rightarrow> addr option" where
  "last_or p xs = (if xs = [] then p else Some (last xs))"

fun dseg :: "nheap \<Rightarrow> addr option \<Rightarrow> addr list \<Rightarrow> addr option \<Rightarrow> bool" where
  "dseg h p [] n = True"
| "dseg h p (x # xs) n \<longleftrightarrow>
     node_prev (h x) = p \<and> node_next (h x) = head_or n xs \<and> dseg h (Some x) xs n"

definition chain :: "nheap \<Rightarrow> addr option \<Rightarrow> addr option \<Rightarrow> addr list \<Rightarrow> bool" where
  "chain h f e xs \<longleftrightarrow> distinct xs \<and> dseg h None xs None \<and> f = head_or None xs \<and> e = last_or None xs"

definition klist :: "nheap \<Rightarrow> list_t \<Rightarrow> addr list \<Rightarrow> bool" where
  "klist h l xs \<longleftrightarrow> chain h (first_node l) (last_node l) xs \<and> node_count l = of_nat (length xs)"

definition krculist :: "nheap \<Rightarrow> rculist \<Rightarrow> addr list \<Rightarrow> bool" where
  "krculist h l xs \<longleftrightarrow> chain h (rl_first l) (rl_last l) xs"

lemma head_or_simps [simp]:
  "head_or n [] = n" "head_or n (x # xs) = Some x" "head_or n (xs @ ys) = head_or (head_or n ys) xs"
  by (auto simp: head_or_def split: list.split)

lemma last_or_simps [simp]:
  "last_or p [] = p" "last_or p (xs @ [x]) = Some x" "last_or p (xs @ ys) = last_or (last_or p xs) ys"
  "last_or p (x # xs) = last_or (Some x) xs"
  by (auto simp: last_or_def)

lemma head_or_None: "head_or None xs = None \<longleftrightarrow> xs = []"
  by (cases xs) auto

lemma last_or_None: "last_or None xs = None \<longleftrightarrow> xs = []"
  by (auto simp: last_or_def)

lemma dseg_append: "dseg h p (xs @ ys) n \<longleftrightarrow> dseg h p xs (head_or n ys) \<and> dseg h (last_or p xs) ys n"
  by (induction xs arbitrary: p) auto

lemma dseg_cong: "(\<And>x. x \<in> set xs \<Longrightarrow> h' x = h x) \<Longrightarrow> dseg h' p xs n = dseg h p xs n"
  by (induction xs arbitrary: p) auto

lemma dseg_upd_other [simp]: "x \<notin> set xs \<Longrightarrow> dseg (h(x := v)) p xs n = dseg h p xs n"
  by (rule dseg_cong) auto

text \<open>Changing what follows a segment is one store to its last node, and dually for its first.\<close>

lemma dseg_set_next:
  "distinct (xs @ [x]) \<Longrightarrow> dseg h p (xs @ [x]) n \<Longrightarrow>
   dseg (h(x := (h x)\<lparr>node_next := n'\<rparr>)) p (xs @ [x]) n'"
  by (auto simp: dseg_append)

lemma dseg_set_prev:
  "distinct (x # xs) \<Longrightarrow> dseg h p (x # xs) n \<Longrightarrow>
   dseg (h(x := (h x)\<lparr>node_prev := p'\<rparr>)) p' (x # xs) n"
  by auto

lemma chain_cong:
  assumes "\<And>x. x \<in> set xs \<Longrightarrow> h' x = h x"
  shows "chain h' f e xs = chain h f e xs"
  using dseg_cong [of xs h' h None None] assms by (simp add: chain_def)

text \<open>The two ways to link a node and the one to unlink it, on the segment around it.\<close>

lemma chain_split:
  "chain h f e (xs @ ys) \<longleftrightarrow>
     distinct (xs @ ys) \<and> dseg h None xs (head_or None ys) \<and> dseg h (last_or None xs) ys None \<and>
     f = head_or None (xs @ ys) \<and> e = last_or None (xs @ ys)"
  by (auto simp: chain_def dseg_append)

lemma chain_link_last:
  assumes "chain h f (Some z) (xs @ [z])" "n \<notin> set (xs @ [z])"
    and "h' = h(n := (h n)\<lparr>node_prev := Some z, node_next := None\<rparr>, z := (h z)\<lparr>node_next := Some n\<rparr>)"
  shows "chain h' f (Some n) (xs @ [z, n])"
  using assms by (auto simp: chain_def dseg_append)

lemma chain_link_first:
  assumes "chain h (Some z) e (z # xs)" "n \<notin> set (z # xs)"
    and "h' = h(n := (h n)\<lparr>node_prev := None, node_next := Some z\<rparr>, z := (h z)\<lparr>node_prev := Some n\<rparr>)"
  shows "chain h' (Some n) e (n # z # xs)"
  using assms by (auto simp: chain_def)

lemma chain_Nil [simp]: "chain h f e [] \<longleftrightarrow> f = None \<and> e = None"
  by (auto simp: chain_def)

lemma chain_ends:
  "chain h f e (z # xs) \<Longrightarrow> f = Some z" "chain h f e (xs @ [z]) \<Longrightarrow> e = Some z"
  "chain h f None xs \<Longrightarrow> xs = []" "chain h None e xs \<Longrightarrow> xs = []"
  by (auto simp: chain_def head_or_None last_or_None dest: sym)

subsection \<open>What each operation does to the list\<close>

definition unchanged :: "nheap \<Rightarrow> nheap \<Rightarrow> addr set \<Rightarrow> bool" where
  "unchanged h h' A \<longleftrightarrow> (\<forall>a. a \<notin> A \<longrightarrow> h' a = h a)"

lemma klist_init: "klist h list_init []"
  by (simp add: klist_def list_init_def)

lemma list_is_empty_iff: "klist h l xs \<Longrightarrow> list_is_empty l \<longleftrightarrow> xs = []"
  by (auto simp: klist_def list_is_empty_def chain_def head_or_None)

lemma list_append_spec:
  assumes "klist h l xs" "n \<notin> set xs" "list_append h l n = (h', l')"
  shows "klist h' l' (xs @ [n]) \<and> unchanged h h' (insert n (set xs))"
proof (cases xs rule: rev_cases)
  case Nil
  then show ?thesis
    using assms by (auto simp: klist_def list_append_def unchanged_def chain_def)
next
  case (snoc ys z)
  then have "last_node l = Some z"
    using assms(1) chain_ends(2) by (auto simp: klist_def)
  then show ?thesis
    using assms snoc
    by (auto simp: klist_def list_append_def unchanged_def chain_def dseg_append)
qed

lemma list_prepend_spec:
  assumes "klist h l xs" "n \<notin> set xs" "list_prepend h l n = (h', l')"
  shows "klist h' l' (n # xs) \<and> unchanged h h' (insert n (set xs))"
proof (cases xs)
  case Nil
  then show ?thesis
    using assms by (auto simp: klist_def list_prepend_def unchanged_def chain_def)
next
  case (Cons z ys)
  then show ?thesis
    using assms by (auto simp: klist_def list_prepend_def unchanged_def chain_def)
qed

lemma list_add_after_spec:
  assumes "klist h l (xs @ r # ys)" "n \<notin> set (xs @ r # ys)"
    and "list_add_after h l (Some r) n = (h', l')"
  shows "klist h' l' (xs @ r # n # ys) \<and> unchanged h h' (insert n (set (xs @ r # ys)))"
proof (cases ys)
  case Nil
  then show ?thesis
    using assms by (auto simp: klist_def list_add_after_def unchanged_def chain_def dseg_append)
next
  case (Cons z zs)
  then show ?thesis
    using assms by (auto simp: klist_def list_add_after_def unchanged_def chain_def dseg_append)
qed

lemma list_add_before_spec:
  assumes k: "klist h l (xs @ r # ys)" and n: "n \<notin> set (xs @ r # ys)"
    and op: "list_add_before h l (Some r) n = (h', l')"
  shows "klist h' l' (xs @ n # r # ys) \<and> unchanged h h' (insert n (set (xs @ r # ys)))"
proof (cases xs rule: rev_cases)
  case Nil
  have "node_prev (h r) = None"
    using k Nil by (simp add: klist_def chain_def)
  then have "list_prepend h l n = (h', l')"
    using op by (simp add: list_add_before_def list_add_after_def)
  then show ?thesis
    using list_prepend_spec [of h l "r # ys" n] k n Nil by simp
next
  case (snoc zs z)
  have "node_prev (h r) = Some z"
    using k snoc by (simp add: klist_def chain_def dseg_append)
  then have "list_add_after h l (Some z) n = (h', l')"
    using op by (simp add: list_add_before_def)
  then show ?thesis
    using list_add_after_spec [of h l zs z "r # ys" n] k n snoc by simp
qed

lemma list_remove_spec:
  assumes "klist h l (xs @ n # ys)" "list_remove h l (Some n) = (h', l')"
  shows "klist h' l' (xs @ ys) \<and> unchanged h h' (set (xs @ ys))"
proof (cases xs rule: rev_cases)
  case Nil
  then show ?thesis
    using assms by (cases ys) (auto simp: klist_def list_remove_def unchanged_def chain_def)
next
  case (snoc zs z)
  then show ?thesis
    using assms
    by (cases ys) (auto simp: klist_def list_remove_def unchanged_def chain_def dseg_append)
qed

lemma list_walk_dseg:
  "dseg h p xs None \<Longrightarrow> length xs < fuel \<Longrightarrow> list_walk fuel h (head_or None xs) = Some xs"
proof (induction xs arbitrary: p fuel)
  case (Cons x xs)
  then show ?case by (cases fuel) auto
qed simp

lemma rculist_raw_append_spec:
  assumes "krculist h l xs" "n \<notin> set xs" "rculist_raw_append h l n = (h', l')"
  shows "krculist h' l' (xs @ [n]) \<and> unchanged h h' (insert n (set xs))"
proof (cases xs rule: rev_cases)
  case Nil
  then show ?thesis
    using assms by (auto simp: krculist_def rculist_raw_append_def unchanged_def chain_def)
next
  case (snoc ys z)
  then show ?thesis
    using assms
    by (auto simp: krculist_def rculist_raw_append_def unchanged_def chain_def dseg_append)
qed

lemma rculist_raw_prepend_spec:
  assumes "krculist h l xs" "n \<notin> set xs" "rculist_raw_prepend h l n = (h', l')"
  shows "krculist h' l' (n # xs) \<and> unchanged h h' (insert n (set xs))"
  using assms
  by (cases xs) (auto simp: krculist_def rculist_raw_prepend_def unchanged_def chain_def)

lemma rculist_raw_remove_spec:
  assumes "krculist h l (xs @ n # ys)" "rculist_raw_remove h l (Some n) = (h', l')"
  shows "krculist h' l' (xs @ ys) \<and> unchanged h h' (set (xs @ ys))"
proof (cases xs rule: rev_cases)
  case Nil
  then show ?thesis
    using assms
    by (cases ys) (auto simp: krculist_def rculist_raw_remove_def unchanged_def chain_def)
next
  case (snoc zs z)
  then show ?thesis
    using assms
    by (cases ys) (auto simp: krculist_def rculist_raw_remove_def unchanged_def chain_def dseg_append)
qed

subsection \<open>The contract of an intrusive list\<close>

datatype list_op = Append addr | Prepend addr | Remove addr

text \<open>The operations on the abstract list, and when a client may call them: a node is linked
  once, and only a linked node is unlinked.\<close>

fun abs_op :: "list_op \<Rightarrow> addr list \<Rightarrow> addr list" where
  "abs_op (Append n) xs = xs @ [n]"
| "abs_op (Prepend n) xs = n # xs"
| "abs_op (Remove n) xs = remove1 n xs"

fun op_ok :: "list_op \<Rightarrow> addr list \<Rightarrow> bool" where
  "op_ok (Append n) xs \<longleftrightarrow> n \<notin> set xs"
| "op_ok (Prepend n) xs \<longleftrightarrow> n \<notin> set xs"
| "op_ok (Remove n) xs \<longleftrightarrow> n \<in> set xs"

fun ops_ok :: "list_op list \<Rightarrow> addr list \<Rightarrow> bool" where
  "ops_ok [] xs = True"
| "ops_ok (c # cs) xs \<longleftrightarrow> op_ok c xs \<and> ops_ok cs (abs_op c xs)"

fun op_node :: "list_op \<Rightarrow> addr" where
  "op_node (Append n) = n"
| "op_node (Prepend n) = n"
| "op_node (Remove n) = n"

fun run_ops :: "(list_op \<Rightarrow> nheap \<Rightarrow> 'l \<Rightarrow> nheap \<times> 'l) \<Rightarrow> list_op list \<Rightarrow> nheap \<Rightarrow> 'l \<Rightarrow> nheap \<times> 'l" where
  "run_ops step [] h l = (h, l)"
| "run_ops step (c # cs) h l = (case step c h l of (h', l') \<Rightarrow> run_ops step cs h' l')"

locale node_list =
  fixes rep :: "nheap \<Rightarrow> 'l \<Rightarrow> addr list \<Rightarrow> bool"
    and step :: "list_op \<Rightarrow> nheap \<Rightarrow> 'l \<Rightarrow> nheap \<times> 'l"
  assumes rep_distinct: "rep h l xs \<Longrightarrow> distinct xs"
    and rep_frame: "rep h l xs \<Longrightarrow> unchanged h h' A \<Longrightarrow> A \<inter> set xs = {} \<Longrightarrow> rep h' l xs"
    and step_law: "rep h l xs \<Longrightarrow> op_ok c xs \<Longrightarrow> step c h l = (h', l') \<Longrightarrow>
        rep h' l' (abs_op c xs) \<and> unchanged h h' (insert (op_node c) (set xs))"
begin

lemma run_refines:
  "rep h l xs \<Longrightarrow> ops_ok cs xs \<Longrightarrow> run_ops step cs h l = (h', l') \<Longrightarrow> rep h' l' (fold abs_op cs xs)"
proof (induction cs arbitrary: h l xs)
  case (Cons c cs)
  obtain h1 l1 where st: "step c h l = (h1, l1)" by force
  then have "rep h1 l1 (abs_op c xs)"
    using step_law Cons.prems by simp
  then show ?case
    using Cons.IH Cons.prems st by simp
qed simp

lemma move:
  assumes a: "rep h a xs" and b: "rep h b ys" and dj: "set xs \<inter> set ys = {}" and n: "n \<in> set xs"
    and rm: "step (Remove n) h a = (h1, a1)" and ap: "step (Append n) h1 b = (h2, b2)"
  shows "rep h2 a1 (remove1 n xs) \<and> rep h2 b2 (ys @ [n])"
proof -
  have r1: "rep h1 a1 (remove1 n xs)" and u1: "unchanged h h1 (set xs)"
    using step_law [OF a _ rm] n by (simp_all add: insert_absorb)
  have "rep h1 b ys"
    using rep_frame [OF b u1] dj by simp
  moreover have "n \<notin> set ys"
    using n dj by auto
  ultimately have r2: "rep h2 b2 (ys @ [n])" and u2: "unchanged h1 h2 (insert n (set ys))"
    using step_law [OF _ _ ap] by simp_all
  have "insert n (set ys) \<inter> set (remove1 n xs) = {}"
    using dj rep_distinct [OF a] by auto
  then show ?thesis
    using rep_frame [OF r1 u2] r2 by simp
qed

end

fun list_step :: "list_op \<Rightarrow> nheap \<Rightarrow> list_t \<Rightarrow> nheap \<times> list_t" where
  "list_step (Append n) h l = list_append h l n"
| "list_step (Prepend n) h l = list_prepend h l n"
| "list_step (Remove n) h l = list_remove h l (Some n)"

fun rculist_step :: "list_op \<Rightarrow> nheap \<Rightarrow> rculist \<Rightarrow> nheap \<times> rculist" where
  "rculist_step (Append n) h l = rculist_raw_append h l n"
| "rculist_step (Prepend n) h l = rculist_raw_prepend h l n"
| "rculist_step (Remove n) h l = rculist_raw_remove h l (Some n)"

lemma chain_distinct: "chain h f e xs \<Longrightarrow> distinct xs"
  by (simp add: chain_def)

lemma chain_frame:
  assumes "chain h f e xs" "unchanged h h' A" "A \<inter> set xs = {}"
  shows "chain h' f e xs"
  using assms chain_cong [of xs h' h f e] by (auto simp: unchanged_def)

lemma unchanged_mono: "unchanged h h' A \<Longrightarrow> A \<subseteq> B \<Longrightarrow> unchanged h h' B"
  by (auto simp: unchanged_def)

lemma remove_split: "n \<in> set xs \<Longrightarrow> \<exists>ys zs. xs = ys @ n # zs \<and> remove1 n xs = ys @ zs"
  by (metis remove1_append remove1.simps(2) split_list_first)

lemma list_step_law:
  assumes k: "klist h l xs" and ok: "op_ok c xs" and st: "list_step c h l = (h', l')"
  shows "klist h' l' (abs_op c xs) \<and> unchanged h h' (insert (op_node c) (set xs))"
proof (cases c)
  case (Remove n)
  then obtain ys zs where "xs = ys @ n # zs" "remove1 n xs = ys @ zs"
    using ok remove_split [of n xs] by (metis op_ok.simps(3))
  then show ?thesis
    using list_remove_spec [of h l ys n zs h' l'] k st Remove
    by (auto intro: unchanged_mono)
qed (use list_append_spec list_prepend_spec k ok st in auto)

lemma rculist_step_law:
  assumes k: "krculist h l xs" and ok: "op_ok c xs" and st: "rculist_step c h l = (h', l')"
  shows "krculist h' l' (abs_op c xs) \<and> unchanged h h' (insert (op_node c) (set xs))"
proof (cases c)
  case (Remove n)
  then obtain ys zs where "xs = ys @ n # zs" "remove1 n xs = ys @ zs"
    using ok remove_split [of n xs] by (metis op_ok.simps(3))
  then show ?thesis
    using rculist_raw_remove_spec [of h l ys n zs h' l'] k st Remove
    by (auto intro: unchanged_mono)
qed (use rculist_raw_append_spec rculist_raw_prepend_spec k ok st in auto)

lemma klist_distinct: "klist h l xs \<Longrightarrow> distinct xs"
  by (auto simp: klist_def dest: chain_distinct)

lemma klist_frame: "klist h l xs \<Longrightarrow> unchanged h h' A \<Longrightarrow> A \<inter> set xs = {} \<Longrightarrow> klist h' l xs"
  by (auto simp: klist_def intro: chain_frame)

lemma krculist_distinct: "krculist h l xs \<Longrightarrow> distinct xs"
  by (auto simp: krculist_def dest: chain_distinct)

lemma krculist_frame:
  "krculist h l xs \<Longrightarrow> unchanged h h' A \<Longrightarrow> A \<inter> set xs = {} \<Longrightarrow> krculist h' l xs"
  by (auto simp: krculist_def intro: chain_frame)

interpretation klists: node_list klist list_step
  by unfold_locales (fact klist_distinct klist_frame list_step_law)+

interpretation rculists: node_list krculist rculist_step
  by unfold_locales (fact krculist_distinct krculist_frame rculist_step_law)+

lemma list_walk_klist:
  "klist h l xs \<Longrightarrow> length xs < fuel \<Longrightarrow> list_walk fuel h (first_node l) = Some xs"
  by (auto simp: klist_def chain_def intro: list_walk_dseg)

subsection \<open>Properties\<close>

text \<open>C16: Any sequence of \<^verbatim>\<open>list_append\<close>, \<^verbatim>\<open>list_prepend\<close> and \<^verbatim>\<open>list_remove\<close> calls in which a node is
  linked once and only linked nodes are removed leaves the header and the pointers describing
  exactly the abstract list the calls build, its node count is the length of that list, and a
  \<^verbatim>\<open>foreach\<close> over it ends after visiting these nodes in order.\<close>

theorem list_ops_refine:
  assumes "klist h l xs" "ops_ok cs xs" "run_ops list_step cs h l = (h', l')"
  shows "klist h' l' (fold abs_op cs xs) \<and>
    node_count l' = of_nat (length (fold abs_op cs xs)) \<and>
    list_walk (Suc (length (fold abs_op cs xs))) h' (first_node l') = Some (fold abs_op cs xs)"
proof -
  have "klist h' l' (fold abs_op cs xs)"
    using klists.run_refines assms by blast
  then show ?thesis
    using list_walk_klist by (auto simp: klist_def)
qed

definition ex_heap :: nheap where
  "ex_heap = (\<lambda>_. \<lparr>node_next = None, node_prev = None\<rparr>)"

theorem list_ops_refine_witness:
  "(case run_ops list_step [Append 1, Append 2, Prepend 3, Remove 1] ex_heap list_init of (h', l') \<Rightarrow>
      klist h' l' [3, 2] \<and> node_count l' = 2 \<and> list_walk (Suc (length [3::addr, 2])) h' (first_node l') = Some [3, 2])"
proof -
  let ?cs = "[Append 1, Append 2, Prepend 3, Remove 1]"
  obtain h' l' where r: "run_ops list_step ?cs ex_heap list_init = (h', l')" by force
  have "ops_ok ?cs []" "fold abs_op ?cs [] = [3, 2]" by simp_all
  with list_ops_refine [OF klist_init _ r] show ?thesis
    unfolding r by simp
qed

text \<open>\<^verbatim>\<open>list_add_after\<close> links the node right behind the reference and \<^verbatim>\<open>list_add_before\<close> right
  in front of it; both write only to the new node and the nodes of the list.\<close>

lemma list_insert_relative:
  assumes "klist h l (xs @ r # ys)" "n \<notin> set (xs @ r # ys)"
  shows "(case list_add_after h l (Some r) n of (h', l') \<Rightarrow>
            klist h' l' (xs @ r # n # ys) \<and> unchanged h h' (insert n (set (xs @ r # ys)))) \<and>
         (case list_add_before h l (Some r) n of (h', l') \<Rightarrow>
            klist h' l' (xs @ n # r # ys) \<and> unchanged h h' (insert n (set (xs @ r # ys))))"
  using list_add_after_spec [OF assms] list_add_before_spec [OF assms] by (auto split: prod.split)

definition ex_list :: "nheap \<times> list_t" where
  "ex_list = run_ops list_step [Append 1, Append 2] ex_heap list_init"

lemma ex_list_ok: "klist (fst ex_list) (snd ex_list) [1, 2]"
  using klists.run_refines [OF klist_init, of "[Append 1, Append 2]" ex_heap "fst ex_list" "snd ex_list"]
  by (simp add: ex_list_def)

lemma list_insert_relative_example:
  "(case list_add_after (fst ex_list) (snd ex_list) (Some 1) 7 of (h', l') \<Rightarrow> klist h' l' [1, 7, 2]) \<and>
   (case list_add_before (fst ex_list) (snd ex_list) (Some 1) 7 of (h', l') \<Rightarrow> klist h' l' [7, 1, 2])"
  using list_insert_relative [of "fst ex_list" "snd ex_list" "[]" 1 "[2]" 7] ex_list_ok
  by (auto split: prod.splits)

text \<open>Moving a node from one list to the end of another, as the allocators do with
  \<^verbatim>\<open>list_remove\<close> followed by \<^verbatim>\<open>list_append\<close>, takes it out of the first list and leaves both lists well
  formed, although they share the store.\<close>

lemma list_move_between:
  assumes "klist h a xs" "klist h b ys" "set xs \<inter> set ys = {}" "n \<in> set xs"
    and "list_remove h a (Some n) = (h1, a1)" "list_append h1 b n = (h2, b2)"
  shows "klist h2 a1 (remove1 n xs) \<and> klist h2 b2 (ys @ [n])"
  using klists.move [OF assms(1-4)] assms(5,6) by simp

lemma list_move_between_example:
  "(case list_remove (fst ex_list) (snd ex_list) (Some 1) of (h1, a1) \<Rightarrow>
      case list_append h1 list_init 1 of (h2, b2) \<Rightarrow> klist h2 a1 [2] \<and> klist h2 b2 [1])"
  using list_move_between [OF ex_list_ok klist_init, of 1]
  by (auto split: prod.splits)

text \<open>C27: The writer side of the read-copy-update list keeps the same contract as the plain list:
  any legal sequence of \<^verbatim>\<open>rculist_raw_append\<close>, \<^verbatim>\<open>rculist_raw_prepend\<close> and \<^verbatim>\<open>rculist_raw_remove\<close> builds the
  abstract list.\<close>

theorem rculist_ops_refine:
  assumes "krculist h l xs" "ops_ok cs xs" "run_ops rculist_step cs h l = (h', l')"
  shows "krculist h' l' (fold abs_op cs xs)"
  using rculists.run_refines assms by blast

theorem rculist_ops_refine_witness:
  "(case run_ops rculist_step [Append 1, Append 2, Remove 1] ex_heap rculist_init of (h', l') \<Rightarrow>
      krculist h' l' [2])"
proof -
  have "krculist ex_heap rculist_init []" "ops_ok [Append 1, Append 2, Remove 1] []"
    by (simp_all add: krculist_def rculist_init_def)
  from rculist_ops_refine [OF this] show ?thesis
    by (auto split: prod.split)
qed

end
