(* ===== verification/Avltree.thy ===== *)
theory Avltree
  imports Prelude
begin

section \<open>The balanced trees of the kernel library\<close>

text \<open>
  Models \<^verbatim>\<open>kernel/klib/avltree.c\<close>, \<^verbatim>\<open>kernel/klib/intervaltree.c\<close> and their headers. A node embeds
  an element of type \<open>'e\<close>, which stands for the object around the node including its address
  (so equality of elements is equality of pointers), a stored height, and the data \<open>'g\<close>
  that the \<^verbatim>\<open>recalculate\<close> callback maintains. The callbacks are fields of \<open>avltree_ops\<close>, as in the
  code. The parent pointers are the path of a zipper in the iteration functions.

  A rotation around a missing child is \<open>KNullDeref\<close> and the \<^verbatim>\<open>__builtin_unreachable\<close> of a
  \<^verbatim>\<open>default\<close> case is \<open>KUnreachable\<close>.
\<close>

record ('e, 'g, 'k) avltree_ops =
  compare_nodes :: "'e \<Rightarrow> 'e \<Rightarrow> int"
  compare_key :: "'k \<Rightarrow> 'g option \<Rightarrow> 'e \<Rightarrow> int"
  recalculate :: "('g option \<Rightarrow> 'e \<Rightarrow> 'g option \<Rightarrow> 'g) option"

datatype ('e, 'g) avltree_node = Leaf | Node "('e, 'g) avltree_node" 'e 'g nat "('e, 'g) avltree_node"

datatype dir = L | R

fun avltree_height :: "('e, 'g) avltree_node \<Rightarrow> nat" where
  "avltree_height Leaf = 0"
| "avltree_height (Node l e g h r) = h"

fun aug :: "('e, 'g) avltree_node \<Rightarrow> 'g option" where
  "aug Leaf = None"
| "aug (Node l e g h r) = Some g"

text \<open>\<open>avltree_compute_height ops l e g r\<close> is the node with these fields after the call.\<close>

definition avltree_compute_height ::
    "('e, 'g, 'k) avltree_ops \<Rightarrow> ('e, 'g) avltree_node \<Rightarrow> 'e \<Rightarrow> 'g \<Rightarrow> ('e, 'g) avltree_node \<Rightarrow> ('e, 'g) avltree_node" where
  "avltree_compute_height ops l e g r =
     Node l e (case recalculate ops of None \<Rightarrow> g | Some f \<Rightarrow> f (aug l) e (aug r))
       ((if avltree_height l > avltree_height r then avltree_height l else avltree_height r) + 1) r"

fun avltree_balance_factor :: "('e, 'g) avltree_node \<Rightarrow> int" where
  "avltree_balance_factor Leaf = 0"
| "avltree_balance_factor (Node l e g h r) = int (avltree_height r) - int (avltree_height l)"

fun avltree_rotate_left :: "('e, 'g, 'k) avltree_ops \<Rightarrow> ('e, 'g) avltree_node \<Rightarrow> ('e, 'g) avltree_node kres" where
  "avltree_rotate_left ops (Node l e g h (Node rl re rg rh rr)) =
     Inr (avltree_compute_height ops (avltree_compute_height ops l e g rl) re rg rr)"
| "avltree_rotate_left ops _ = Inl KNullDeref"

fun avltree_rotate_right :: "('e, 'g, 'k) avltree_ops \<Rightarrow> ('e, 'g) avltree_node \<Rightarrow> ('e, 'g) avltree_node kres" where
  "avltree_rotate_right ops (Node (Node ll le lg lh lr) e g h r) =
     Inr (avltree_compute_height ops ll le lg (avltree_compute_height ops lr e g r))"
| "avltree_rotate_right ops _ = Inl KNullDeref"

fun avltree_leftest_subnode :: "('e, 'g) avltree_node \<Rightarrow> ('e \<times> 'g) option" where
  "avltree_leftest_subnode Leaf = None"
| "avltree_leftest_subnode (Node l e g h r) =
     (if l = Leaf then Some (e, g) else avltree_leftest_subnode l)"

text \<open>\<^verbatim>\<open>*child\<close>, where \<^verbatim>\<open>child\<close> is the link the caller descended into.\<close>

fun get_child :: "dir \<Rightarrow> ('e, 'g) avltree_node \<Rightarrow> ('e, 'g) avltree_node" where
  "get_child _ Leaf = Leaf"
| "get_child L (Node l e g h r) = l"
| "get_child R (Node l e g h r) = r"

fun set_child :: "dir \<Rightarrow> ('e, 'g) avltree_node \<Rightarrow> ('e, 'g) avltree_node \<Rightarrow> ('e, 'g) avltree_node" where
  "set_child _ Leaf c = Leaf"
| "set_child L (Node l e g h r) c = Node c e g h r"
| "set_child R (Node l e g h r) c = Node l e g h c"

fun avltree_rebalance :: "('e, 'g, 'k) avltree_ops \<Rightarrow> dir \<Rightarrow> ('e, 'g) avltree_node \<Rightarrow> ('e, 'g) avltree_node kres" where
  "avltree_rebalance ops d Leaf = Inr Leaf"
| "avltree_rebalance ops d (Node l e g h r) =
     (let current = avltree_compute_height ops l e g r; bf = avltree_balance_factor current in
      if bf = -2 then
        kbind (if avltree_balance_factor (get_child d current) > 0
               then kbind (avltree_rotate_left ops (get_child d current)) (\<lambda>c. Inr (set_child d current c))
               else Inr current)
          (avltree_rotate_right ops)
      else if bf \<in> {-1, 0, 1} then Inr current
      else if bf = 2 then
        kbind (if avltree_balance_factor (get_child d current) < 0
               then kbind (avltree_rotate_right ops (get_child d current)) (\<lambda>c. Inr (set_child d current c))
               else Inr current)
          (avltree_rotate_left ops)
      else Inl KUnreachable)"

fun avltree_insert_helper ::
    "('e, 'g, 'k) avltree_ops \<Rightarrow> ('e, 'g) avltree_node \<Rightarrow> 'e \<Rightarrow> 'g \<Rightarrow> ('e, 'g) avltree_node kres" where
  "avltree_insert_helper ops Leaf x gx = Inr (Node Leaf x gx 1 Leaf)"
| "avltree_insert_helper ops (Node l e g h r) x gx =
     (if compare_nodes ops x e < 0
      then kbind (avltree_insert_helper ops l x gx) (\<lambda>l'. avltree_rebalance ops L (Node l' e g h r))
      else kbind (avltree_insert_helper ops r x gx) (\<lambda>r'. avltree_rebalance ops R (Node l e g h r')))"

definition avltree_insert ::
    "('e, 'g, 'k) avltree_ops \<Rightarrow> ('e, 'g) avltree_node \<Rightarrow> 'e \<Rightarrow> 'g \<Rightarrow> ('e, 'g) avltree_node kres" where
  "avltree_insert ops t x gx = avltree_insert_helper ops t x gx"

text \<open>The result is the return value of the C function and the new subtree.\<close>

fun avltree_remove_helper ::
    "('e, 'g, 'k) avltree_ops \<Rightarrow> ('e, 'g) avltree_node \<Rightarrow> 'e \<Rightarrow> (bool \<times> ('e, 'g) avltree_node) kres" where
  "avltree_remove_helper ops Leaf x = Inr (False, Leaf)"
| "avltree_remove_helper ops (Node l e g h r) x =
     (if compare_nodes ops x e < 0 then
        kbind (avltree_remove_helper ops l x) (\<lambda>(found, l').
          if \<not> found then Inr (False, Node l' e g h r)
          else kbind (avltree_rebalance ops L (Node l' e g h r)) (\<lambda>t. Inr (True, t)))
      else if compare_nodes ops x e > 0 \<or> e \<noteq> x then
        kbind (avltree_remove_helper ops r x) (\<lambda>(found, r').
          if \<not> found then Inr (False, Node l e g h r')
          else kbind (avltree_rebalance ops R (Node l e g h r')) (\<lambda>t. Inr (True, t)))
      else if r = Leaf then Inr (True, l)
      else if l = Leaf then Inr (True, r)
      else (case avltree_leftest_subnode r of
              None \<Rightarrow> Inl KNullDeref
            | Some (le, lg) \<Rightarrow>
                kbind (avltree_remove_helper ops r le) (\<lambda>(found, r').
                  if \<not> found then Inl KUnreachable
                  else kbind (avltree_rebalance ops R (Node l le lg h r')) (\<lambda>t. Inr (True, t)))))"

definition avltree_remove ::
    "('e, 'g, 'k) avltree_ops \<Rightarrow> ('e, 'g) avltree_node \<Rightarrow> 'e \<Rightarrow> (bool \<times> ('e, 'g) avltree_node) kres" where
  "avltree_remove ops t x = avltree_remove_helper ops t x"

fun avltree_lookup :: "('e, 'g, 'k) avltree_ops \<Rightarrow> ('e, 'g) avltree_node \<Rightarrow> 'k \<Rightarrow> 'e option" where
  "avltree_lookup ops Leaf k = None"
| "avltree_lookup ops (Node l e g h r) k =
     (let c = compare_key ops k (aug l) e in
      if c < 0 then avltree_lookup ops l k
      else if c > 0 then avltree_lookup ops r k
      else Some e)"

fun first_superior_from ::
    "('e, 'g, 'k) avltree_ops \<Rightarrow> 'e option \<Rightarrow> ('e, 'g) avltree_node \<Rightarrow> 'k \<Rightarrow> 'e option" where
  "first_superior_from ops best Leaf k = best"
| "first_superior_from ops best (Node l e g h r) k =
     (if compare_key ops k (aug l) e \<le> 0 then first_superior_from ops (Some e) l k
      else first_superior_from ops best r k)"

definition avltree_first_superior_or_equal ::
    "('e, 'g, 'k) avltree_ops \<Rightarrow> ('e, 'g) avltree_node \<Rightarrow> 'k \<Rightarrow> 'e option" where
  "avltree_first_superior_or_equal ops t k = first_superior_from ops None t k"

text \<open>Iteration. A position is a subtree with the links from its root up to the root of the tree;
  a link says which child of the ancestor the position is below.\<close>

type_synonym ('e, 'g) position = "('e, 'g) avltree_node \<times> (dir \<times> ('e, 'g) avltree_node) list"

fun leftest_position :: "('e, 'g) avltree_node \<Rightarrow> (dir \<times> ('e, 'g) avltree_node) list \<Rightarrow> ('e, 'g) position option" where
  "leftest_position Leaf up = None"
| "leftest_position (Node l e g h r) up =
     (if l = Leaf then Some (Node l e g h r, up)
      else leftest_position l ((L, Node l e g h r) # up))"

definition avltree_first :: "('e, 'g) avltree_node \<Rightarrow> ('e, 'g) position option" where
  "avltree_first t = leftest_position t []"

fun move_up :: "(dir \<times> ('e, 'g) avltree_node) list \<Rightarrow> ('e, 'g) position option" where
  "move_up [] = None"
| "move_up ((R, p) # up) = move_up up"
| "move_up ((L, p) # up) = Some (p, up)"

fun avltree_next :: "('e, 'g) position \<Rightarrow> ('e, 'g) position option" where
  "avltree_next (Leaf, up) = None"
| "avltree_next (Node l e g h r, up) =
     (if r \<noteq> Leaf then leftest_position r ((R, Node l e g h r) # up) else move_up up)"

fun avltree_foreach :: "nat \<Rightarrow> ('e, 'g) position option \<Rightarrow> 'e list option" where
  "avltree_foreach fuel None = Some []"
| "avltree_foreach 0 (Some z) = None"
| "avltree_foreach (Suc fuel) (Some z) =
     (case fst z of
        Leaf \<Rightarrow> None
      | Node l e g h r \<Rightarrow> map_option (Cons e) (avltree_foreach fuel (avltree_next z)))"

subsection \<open>Order of the elements, stored heights and balance\<close>

fun inorder :: "('e, 'g) avltree_node \<Rightarrow> 'e list" where
  "inorder Leaf = []"
| "inorder (Node l e g h r) = inorder l @ e # inorder r"

fun heights_ok :: "('e, 'g) avltree_node \<Rightarrow> bool" where
  "heights_ok Leaf = True"
| "heights_ok (Node l e g h r) \<longleftrightarrow>
     h = max (avltree_height l) (avltree_height r) + 1 \<and> heights_ok l \<and> heights_ok r"

fun avl :: "('e, 'g) avltree_node \<Rightarrow> bool" where
  "avl Leaf = True"
| "avl (Node l e g h r) \<longleftrightarrow>
     h = max (avltree_height l) (avltree_height r) + 1 \<and>
     avltree_height l \<le> avltree_height r + 1 \<and> avltree_height r \<le> avltree_height l + 1 \<and>
     avl l \<and> avl r"

lemma avl_heights_ok: "avl t \<Longrightarrow> heights_ok t"
  by (induction t) auto

lemma heights_ok_0: "heights_ok t \<Longrightarrow> avltree_height t = 0 \<longleftrightarrow> t = Leaf"
  by (cases t) auto

lemma inorder_compute [simp]: "inorder (avltree_compute_height ops l e g r) = inorder l @ e # inorder r"
  by (simp add: avltree_compute_height_def)

lemma height_compute [simp]:
  "avltree_height (avltree_compute_height ops l e g r) = max (avltree_height l) (avltree_height r) + 1"
  by (simp add: avltree_compute_height_def max_def)

lemma heights_ok_compute [simp]:
  "heights_ok (avltree_compute_height ops l e g r) \<longleftrightarrow> heights_ok l \<and> heights_ok r"
  by (simp add: avltree_compute_height_def max_def)

lemma avl_compute [simp]:
  "avl (avltree_compute_height ops l e g r) \<longleftrightarrow>
     avltree_height l \<le> avltree_height r + 1 \<and> avltree_height r \<le> avltree_height l + 1 \<and> avl l \<and> avl r"
  by (simp add: avltree_compute_height_def max_def)

lemma compute_not_Leaf [simp]: "avltree_compute_height ops l e g r \<noteq> Leaf"
  by (simp add: avltree_compute_height_def)

lemma rotate_left_compute [simp]:
  "avltree_rotate_left ops (Node l e g h (avltree_compute_height ops' rl re rg rr)) =
     Inr (avltree_compute_height ops (avltree_compute_height ops l e g rl) re
       (case recalculate ops' of None \<Rightarrow> rg | Some f \<Rightarrow> f (aug rl) re (aug rr)) rr)"
  by (simp add: avltree_compute_height_def)

lemma rotate_right_compute [simp]:
  "avltree_rotate_right ops (Node (avltree_compute_height ops' ll le lg lr) e g h r) =
     Inr (avltree_compute_height ops ll le
       (case recalculate ops' of None \<Rightarrow> lg | Some f \<Rightarrow> f (aug ll) le (aug lr))
       (avltree_compute_height ops lr e g r))"
  by (simp add: avltree_compute_height_def)

lemma compute_eq_Node:
  "avltree_compute_height ops l e g r =
     Node l e (case recalculate ops of None \<Rightarrow> g | Some f \<Rightarrow> f (aug l) e (aug r))
       (max (avltree_height l) (avltree_height r) + 1) r"
  by (simp add: avltree_compute_height_def max_def)

text \<open>Rotations and the rebalancing step never change the order of the elements.\<close>

lemma inorder_rotate_left: "avltree_rotate_left ops t = Inr t' \<Longrightarrow> inorder t' = inorder t"
  by (cases "(ops, t)" rule: avltree_rotate_left.cases) auto

lemma inorder_rotate_right: "avltree_rotate_right ops t = Inr t' \<Longrightarrow> inorder t' = inorder t"
  by (cases "(ops, t)" rule: avltree_rotate_right.cases) auto

lemma inorder_set_child:
  "inorder c = inorder (get_child d t) \<Longrightarrow> inorder (set_child d t c) = inorder t"
  by (cases t; cases d) auto

lemma inorder_rebalance: "avltree_rebalance ops d t = Inr t' \<Longrightarrow> inorder t' = inorder t"
  by (cases t)
    (auto simp: Let_def kbind_eq_Inr inorder_set_child split: if_splits
      dest!: inorder_rotate_left inorder_rotate_right)

subsection \<open>Insertion\<close>

text \<open>When the child that was descended into is the one that grew, the rebalancing step restores
  the balance and the height grows by at most one.\<close>

lemma rebalance_left_grown:
  assumes "avl l'" "avl r" "avltree_height l' \<le> avltree_height r + 2"
    "avltree_height r \<le> avltree_height l' + 1"
  shows "\<exists>t'. avltree_rebalance ops L (Node l' e g h r) = Inr t' \<and> avl t' \<and>
    (avltree_height t' = max (avltree_height l') (avltree_height r) + 1 \<or>
     avltree_height t' = avltree_height l' \<and> avltree_height l' = avltree_height r + 2)"
proof (cases "avltree_height l' = avltree_height r + 2")
  case False
  then have "int (avltree_height r) - int (avltree_height l') \<in> {-1, 0, 1}"
    using assms by auto
  then show ?thesis
    using assms False by (auto simp: Let_def compute_eq_Node)
next
  case True
  then obtain ll le lg lh lr where l': "l' = Node ll le lg lh lr"
    by (cases l') auto
  show ?thesis
  proof (cases "avltree_height lr > avltree_height ll")
    case False
    then show ?thesis
      using assms True l' by (auto simp: Let_def compute_eq_Node)
  next
    case up: True
    then obtain a b c d e' where "lr = Node a b c d e'"
      by (cases lr) auto
    then show ?thesis
      using assms True l' up by (auto simp: Let_def compute_eq_Node)
  qed
qed

lemma rebalance_right_grown:
  assumes "avl l" "avl r'" "avltree_height r' \<le> avltree_height l + 2"
    "avltree_height l \<le> avltree_height r' + 1"
  shows "\<exists>t'. avltree_rebalance ops R (Node l e g h r') = Inr t' \<and> avl t' \<and>
    (avltree_height t' = max (avltree_height l) (avltree_height r') + 1 \<or>
     avltree_height t' = avltree_height r' \<and> avltree_height r' = avltree_height l + 2)"
proof (cases "avltree_height r' = avltree_height l + 2")
  case False
  then have "int (avltree_height r') - int (avltree_height l) \<in> {-1, 0, 1}"
    using assms by auto
  then show ?thesis
    using assms False by (auto simp: Let_def compute_eq_Node)
next
  case True
  then obtain rl re rg rh rr where r': "r' = Node rl re rg rh rr"
    by (cases r') auto
  show ?thesis
  proof (cases "avltree_height rl > avltree_height rr")
    case False
    then show ?thesis
      using assms True r' by (auto simp: Let_def compute_eq_Node)
  next
    case up: True
    then obtain a b c d e' where "rl = Node a b c d e'"
      by (cases rl) auto
    then show ?thesis
      using assms True r' up by (auto simp: Let_def compute_eq_Node)
  qed
qed

text \<open>The place of a new element: behind every element it does not precede. On the elements of the
  tree the comparison with the new one has to be monotone.\<close>

abbreviation monotone_for :: "('e, 'g, 'k) avltree_ops \<Rightarrow> 'e \<Rightarrow> 'e list \<Rightarrow> bool" where
  "monotone_for ops x es \<equiv>
     sorted_wrt (\<lambda>a b. compare_nodes ops x a < 0 \<longrightarrow> compare_nodes ops x b < 0) es"

abbreviation place :: "('e, 'g, 'k) avltree_ops \<Rightarrow> 'e \<Rightarrow> 'e list \<Rightarrow> 'e list" where
  "place ops x es \<equiv> takeWhile (\<lambda>y. \<not> compare_nodes ops x y < 0) es @ x #
     dropWhile (\<lambda>y. \<not> compare_nodes ops x y < 0) es"

lemma place_left:
  "compare_nodes ops x e < 0 \<Longrightarrow> place ops x (xs @ e # ys) = place ops x xs @ e # ys"
  by (induction xs) auto

lemma place_right:
  "\<not> compare_nodes ops x e < 0 \<Longrightarrow> monotone_for ops x (xs @ e # ys) \<Longrightarrow>
   place ops x (xs @ e # ys) = xs @ e # place ops x ys"
  by (induction xs) auto

lemma avltree_insert_helper_spec:
  assumes "avl t" "monotone_for ops x (inorder t)"
  shows "\<exists>t'. avltree_insert_helper ops t x gx = Inr t' \<and> avl t' \<and>
    inorder t' = place ops x (inorder t) \<and>
    avltree_height t \<le> avltree_height t' \<and> avltree_height t' \<le> avltree_height t + 1"
  using assms
proof (induction t)
  case (Node l e g h r)
  have mono: "monotone_for ops x (inorder l)" "monotone_for ops x (inorder r)"
    using Node.prems(2) unfolding inorder.simps sorted_wrt_append sorted_wrt.simps by blast+
  have avls: "avl l" "avl r" "avltree_height l \<le> avltree_height r + 1"
    "avltree_height r \<le> avltree_height l + 1" "h = max (avltree_height l) (avltree_height r) + 1"
    using Node.prems(1) by simp_all
  show ?case
  proof (cases "compare_nodes ops x e < 0")
    case True
    obtain l' where l': "avltree_insert_helper ops l x gx = Inr l'" "avl l'"
      "inorder l' = place ops x (inorder l)"
      "avltree_height l \<le> avltree_height l'" "avltree_height l' \<le> avltree_height l + 1"
      using Node.IH(1) [OF avls(1) mono(1)] by blast
    obtain t' where t': "avltree_rebalance ops L (Node l' e g h r) = Inr t'" "avl t'"
      "avltree_height t' = max (avltree_height l') (avltree_height r) + 1 \<or>
       avltree_height t' = avltree_height l' \<and> avltree_height l' = avltree_height r + 2"
      using rebalance_left_grown [of l' r ops e g h] l'(2,4,5) avls by auto
    have "inorder t' = place ops x (inorder (Node l e g h r))"
      unfolding inorder_rebalance [OF t'(1)] inorder.simps l'(3) by (rule place_left [OF True, symmetric])
    moreover have "avltree_insert_helper ops (Node l e g h r) x gx = Inr t'"
      using True l'(1) t'(1) by simp
    moreover have "h \<le> avltree_height t'" "avltree_height t' \<le> h + 1"
      using l'(4,5) t'(3) avls by auto
    ultimately show ?thesis
      using t'(2) by simp
  next
    case False
    obtain r' where r': "avltree_insert_helper ops r x gx = Inr r'" "avl r'"
      "inorder r' = place ops x (inorder r)"
      "avltree_height r \<le> avltree_height r'" "avltree_height r' \<le> avltree_height r + 1"
      using Node.IH(2) [OF avls(2) mono(2)] by blast
    obtain t' where t': "avltree_rebalance ops R (Node l e g h r') = Inr t'" "avl t'"
      "avltree_height t' = max (avltree_height l) (avltree_height r') + 1 \<or>
       avltree_height t' = avltree_height r' \<and> avltree_height r' = avltree_height l + 2"
      using rebalance_right_grown [of l r' ops e g h] r'(2,4,5) avls by auto
    have "inorder t' = place ops x (inorder (Node l e g h r))"
      unfolding inorder_rebalance [OF t'(1)] inorder.simps r'(3)
      by (rule place_right [OF False Node.prems(2) [unfolded inorder.simps], symmetric])
    moreover have "avltree_insert_helper ops (Node l e g h r) x gx = Inr t'"
      using False r'(1) t'(1) by simp
    moreover have "h \<le> avltree_height t'" "avltree_height t' \<le> h + 1"
      using r'(4,5) t'(3) avls by auto
    ultimately show ?thesis
      using t'(2) by simp
  qed
qed simp

subsection \<open>Removal\<close>

text \<open>After a removal the rebalancing step inspects the child that was descended into, which is the
  lighter one. The step still succeeds when the other child is balanced, and it keeps the
  stored heights right, but it does not restore the balance.\<close>

lemma rotate_right_heavy:
  assumes "heights_ok t" "avltree_balance_factor t < 0"
  shows "\<exists>t'. avltree_rotate_right ops t = Inr t' \<and> heights_ok t' \<and> avltree_height t' \<le> avltree_height t"
  using assms by (cases "(ops, t)" rule: avltree_rotate_right.cases) auto

lemma rotate_left_heavy:
  assumes "heights_ok t" "avltree_balance_factor t > 0"
  shows "\<exists>t'. avltree_rotate_left ops t = Inr t' \<and> heights_ok t' \<and> avltree_height t' \<le> avltree_height t"
  using assms by (cases "(ops, t)" rule: avltree_rotate_left.cases) auto

lemma rotate_left_over:
  assumes "heights_ok l" "avl r" "avltree_height l + 2 \<le> avltree_height r"
  shows "\<exists>t'. avltree_rotate_left ops (Node l e g h r) = Inr t' \<and> heights_ok t' \<and>
    (avltree_height t' = avltree_height r + 1 \<or> avltree_height t' = avltree_height r)"
  using assms by (cases r) (auto simp: avl_heights_ok)

lemma rotate_right_over:
  assumes "avl l" "heights_ok r" "avltree_height r + 2 \<le> avltree_height l"
  shows "\<exists>t'. avltree_rotate_right ops (Node l e g h r) = Inr t' \<and> heights_ok t' \<and>
    (avltree_height t' = avltree_height l + 1 \<or> avltree_height t' = avltree_height l)"
  using assms by (cases l) (auto simp: avl_heights_ok)

lemma rebalance_left_shrunk:
  assumes "heights_ok l'" "avl r" "avltree_height l' \<le> avltree_height r + 1"
    "avltree_height r \<le> avltree_height l' + 2"
  shows "\<exists>t'. avltree_rebalance ops L (Node l' e g h r) = Inr t' \<and> heights_ok t' \<and>
    (avltree_height t' = max (avltree_height l') (avltree_height r) + 1 \<or>
     avltree_height t' = avltree_height r \<and> avltree_height r = avltree_height l' + 2)"
proof (cases "avltree_height r = avltree_height l' + 2")
  case False
  then have "int (avltree_height r) - int (avltree_height l') \<in> {-1, 0, 1}"
    using assms by auto
  then show ?thesis
    using assms False by (auto simp: Let_def compute_eq_Node avl_heights_ok)
next
  case True
  let ?g = "case recalculate ops of None \<Rightarrow> g | Some f \<Rightarrow> f (aug l') e (aug r)"
  let ?h = "max (avltree_height l') (avltree_height r) + 1"
  obtain l2 where l2: "heights_ok l2" "avltree_height l2 \<le> avltree_height l'"
    "avltree_rebalance ops L (Node l' e g h r) = avltree_rotate_left ops (Node l2 e ?g ?h r)"
  proof (cases "avltree_balance_factor l' < 0")
    case neg: True
    then obtain t' where "avltree_rotate_right ops l' = Inr t'" "heights_ok t'"
      "avltree_height t' \<le> avltree_height l'"
      using rotate_right_heavy assms(1) by blast
    then show thesis
      using that [of t'] True neg by (simp add: Let_def compute_eq_Node)
  next
    case False
    then show thesis
      using that [of l'] True assms(1) by (simp add: Let_def compute_eq_Node)
  qed
  then show ?thesis
    using rotate_left_over [OF l2(1) assms(2), of ops e ?g ?h] True by auto
qed

lemma rebalance_right_shrunk:
  assumes "avl l" "heights_ok r'" "avltree_height r' \<le> avltree_height l + 1"
    "avltree_height l \<le> avltree_height r' + 2"
  shows "\<exists>t'. avltree_rebalance ops R (Node l e g h r') = Inr t' \<and> heights_ok t' \<and>
    (avltree_height t' = max (avltree_height l) (avltree_height r') + 1 \<or>
     avltree_height t' = avltree_height l \<and> avltree_height l = avltree_height r' + 2)"
proof (cases "avltree_height l = avltree_height r' + 2")
  case False
  then have "int (avltree_height r') - int (avltree_height l) \<in> {-1, 0, 1}"
    using assms by auto
  then show ?thesis
    using assms False by (auto simp: Let_def compute_eq_Node avl_heights_ok)
next
  case True
  let ?g = "case recalculate ops of None \<Rightarrow> g | Some f \<Rightarrow> f (aug l) e (aug r')"
  let ?h = "max (avltree_height l) (avltree_height r') + 1"
  obtain r2 where r2: "heights_ok r2" "avltree_height r2 \<le> avltree_height r'"
    "avltree_rebalance ops R (Node l e g h r') = avltree_rotate_right ops (Node l e ?g ?h r2)"
  proof (cases "avltree_balance_factor r' > 0")
    case pos: True
    then obtain t' where "avltree_rotate_left ops r' = Inr t'" "heights_ok t'"
      "avltree_height t' \<le> avltree_height r'"
      using rotate_left_heavy assms(2) by blast
    then show thesis
      using that [of t'] True pos by (simp add: Let_def compute_eq_Node)
  next
    case False
    then show thesis
      using that [of r'] True assms(2) by (simp add: Let_def compute_eq_Node)
  qed
  then show ?thesis
    using rotate_right_over [OF assms(1) r2(1), of ops e ?g ?h] True by auto
qed

declare avltree_rebalance.simps(2) [simp del]

text \<open>The elements are strictly ordered by the comparison callback.\<close>

definition strict :: "('e, 'g, 'k) avltree_ops \<Rightarrow> 'e list \<Rightarrow> bool" where
  "strict ops es \<longleftrightarrow>
     sorted_wrt (\<lambda>a b. compare_nodes ops a b < 0 \<and> compare_nodes ops b a > 0) es \<and>
     (\<forall>a\<in>set es. compare_nodes ops a a = 0)"

lemma strict_append:
  "strict ops (xs @ e # ys) \<Longrightarrow>
     strict ops xs \<and> strict ops ys \<and> compare_nodes ops e e = 0 \<and>
     (\<forall>a\<in>set xs. compare_nodes ops a e < 0) \<and> (\<forall>b\<in>set ys. compare_nodes ops b e > 0)"
  unfolding strict_def sorted_wrt_append sorted_wrt.simps by auto

lemma strict_distinct: "strict ops es \<Longrightarrow> distinct es"
proof (induction es)
  case (Cons e es)
  then show ?case
    using strict_append [of ops "[]" e es] by force
qed simp

lemma leftest_inorder:
  "t \<noteq> Leaf \<Longrightarrow> \<exists>e g. avltree_leftest_subnode t = Some (e, g) \<and> (\<exists>es. inorder t = e # es)"
  by (induction t) auto

text \<open>What a removal promises on a balanced tree: it never faults, reports whether it found the
  element, removes exactly it, and keeps the stored heights right.\<close>

definition remove_ok :: "('e, 'g) avltree_node \<Rightarrow> 'e \<Rightarrow> (bool \<times> ('e, 'g) avltree_node) kres \<Rightarrow> bool" where
  "remove_ok t x res \<longleftrightarrow> (\<exists>found t'. res = Inr (found, t') \<and> heights_ok t' \<and>
     (found \<longleftrightarrow> x \<in> set (inorder t)) \<and> inorder t' = remove1 x (inorder t) \<and>
     avltree_height t' \<le> avltree_height t \<and> avltree_height t \<le> avltree_height t' + 1 \<and>
     (\<not> found \<longrightarrow> t' = t))"

lemma remove_ok_found [simp]:
  "remove_ok t x (Inr (True, t')) \<longleftrightarrow>
     heights_ok t' \<and> x \<in> set (inorder t) \<and> inorder t' = remove1 x (inorder t) \<and>
     avltree_height t' \<le> avltree_height t \<and> avltree_height t \<le> avltree_height t' + 1"
  unfolding remove_ok_def by blast

lemma remove_step_left:
  assumes "remove_ok l x (Inr (found, l'))" "avl (Node l e g h r)"
    "x \<noteq> e" "x \<notin> set (inorder r)" "x \<in> set (inorder l) \<or> \<not> found"
  shows "remove_ok (Node l e g h r) x
    (if \<not> found then Inr (False, Node l' e g h r)
     else kbind (avltree_rebalance ops L (Node l' e g h r)) (\<lambda>t. Inr (True, t)))"
proof (cases found)
  case False
  then show ?thesis
    using assms avl_heights_ok [OF assms(2)] by (auto simp: remove_ok_def remove1_append remove1_idem)
next
  case True
  have l': "heights_ok l'" "inorder l' = remove1 x (inorder l)" "avltree_height l' \<le> avltree_height l"
    "avltree_height l \<le> avltree_height l' + 1" "x \<in> set (inorder l)"
    using assms(1) True by (auto simp: remove_ok_def)
  then obtain t' where t': "avltree_rebalance ops L (Node l' e g h r) = Inr t'" "heights_ok t'"
    "avltree_height t' = max (avltree_height l') (avltree_height r) + 1 \<or>
     avltree_height t' = avltree_height r \<and> avltree_height r = avltree_height l' + 2"
    using rebalance_left_shrunk [of l' r ops e g h] assms(2) by auto
  have "inorder t' = remove1 x (inorder (Node l e g h r))"
    using inorder_rebalance [OF t'(1)] l'(2,5) by (simp add: remove1_append)
  moreover have "avltree_height t' \<le> h" "h \<le> avltree_height t' + 1"
    using t'(3) l'(3,4) assms(2) by auto
  ultimately show ?thesis
    using True t'(1,2) l'(5) by simp
qed

lemma remove_step_right:
  assumes "remove_ok r y (Inr (found, r'))" "avl (Node l e g h r)"
    and "found \<Longrightarrow> inorder l @ e' # remove1 y (inorder r) = remove1 x (inorder (Node l e g h r)) \<and>
      x \<in> set (inorder (Node l e g h r))" "found"
  shows "remove_ok (Node l e g h r) x
    (kbind (avltree_rebalance ops R (Node l e' g' h r')) (\<lambda>t. Inr (True, t)))"
proof -
  have r': "heights_ok r'" "inorder r' = remove1 y (inorder r)" "avltree_height r' \<le> avltree_height r"
    "avltree_height r \<le> avltree_height r' + 1"
    using assms(1) by (auto simp: remove_ok_def)
  then obtain t' where t': "avltree_rebalance ops R (Node l e' g' h r') = Inr t'" "heights_ok t'"
    "avltree_height t' = max (avltree_height l) (avltree_height r') + 1 \<or>
     avltree_height t' = avltree_height l \<and> avltree_height l = avltree_height r' + 2"
    using rebalance_right_shrunk [of l r' ops e' g' h] assms(2) by auto
  have "inorder t' = remove1 x (inorder (Node l e g h r))" "x \<in> set (inorder (Node l e g h r))"
    using inorder_rebalance [OF t'(1)] r'(2) assms(3,4) by simp_all
  moreover have "avltree_height t' \<le> h" "h \<le> avltree_height t' + 1"
    using t'(3) r'(3,4) assms(2) by auto
  ultimately show ?thesis
    using t'(1,2) by simp
qed

lemma remove_here:
  assumes "avl (Node l e g h r)" "e \<notin> set (inorder l)"
  shows "r = Leaf \<Longrightarrow> remove_ok (Node l e g h r) e (Inr (True, l))"
    and "l = Leaf \<Longrightarrow> remove_ok (Node l e g h r) e (Inr (True, r))"
  using assms by (auto simp: remove1_append avl_heights_ok)

lemma avltree_remove_helper_spec:
  assumes "avl t" "strict ops (inorder t)"
  shows "remove_ok t x (avltree_remove_helper ops t x)"
  using assms
proof (induction t arbitrary: x)
  case Leaf
  show ?case by (auto simp: remove_ok_def)
next
  case (Node l e g h r)
  have st: "strict ops (inorder l)" "strict ops (inorder r)" "compare_nodes ops e e = 0"
    "\<forall>a\<in>set (inorder l). compare_nodes ops a e < 0" "\<forall>b\<in>set (inorder r). compare_nodes ops b e > 0"
    using strict_append [of ops "inorder l" e "inorder r"] Node.prems(2) by simp_all
  have d: "distinct (inorder l @ e # inorder r)"
    using strict_distinct [OF Node.prems(2)] by simp
  have lok: "remove_ok l x (avltree_remove_helper ops l x)" for x
    using Node.IH(1) Node.prems(1) st(1) by simp
  have rok: "remove_ok r x (avltree_remove_helper ops r x)" for x
    using Node.IH(2) Node.prems(1) st(2) by simp
  consider (less) "compare_nodes ops x e < 0"
    | (greater) "\<not> compare_nodes ops x e < 0" "compare_nodes ops x e > 0 \<or> e \<noteq> x"
    | (here) "x = e"
    by fastforce
  then show ?case
  proof cases
    case less
    obtain found l' where l': "avltree_remove_helper ops l x = Inr (found, l')"
      using lok [of x] by (auto simp: remove_ok_def)
    have "x \<noteq> e" "x \<notin> set (inorder r)"
      using less st(3,5) by force+
    moreover have "x \<in> set (inorder l) \<or> \<not> found"
      using lok [of x] l' by (auto simp: remove_ok_def)
    ultimately show ?thesis
      using remove_step_left [OF lok [of x, unfolded l'] Node.prems(1), where ops = ops] less l'
      by (simp split: if_splits)
  next
    case greater
    obtain found r' where r': "avltree_remove_helper ops r x = Inr (found, r')"
      using rok [of x] by (auto simp: remove_ok_def)
    have xl: "x \<notin> set (inorder l)" "x \<noteq> e"
      using greater st(3,4) by force+
    show ?thesis
    proof (cases found)
      case True
      then have "x \<in> set (inorder r)"
        using rok [of x] r' by (auto simp: remove_ok_def)
      then have "inorder l @ e # remove1 x (inorder r) = remove1 x (inorder (Node l e g h r)) \<and>
          x \<in> set (inorder (Node l e g h r))"
        using xl by (simp add: remove1_append)
      then show ?thesis
        using remove_step_right [OF rok [of x, unfolded r'] Node.prems(1)] True greater r' by simp
    next
      case False
      then show ?thesis
        using rok [of x] r' xl greater avl_heights_ok [OF Node.prems(1)]
        by (auto simp: remove_ok_def remove1_append remove1_idem)
    qed
  next
    case here
    show ?thesis
    proof (cases "r = Leaf \<or> l = Leaf")
      case True
      then show ?thesis
        using remove_here [OF Node.prems(1)] d st(3) here by auto
    next
      case False
      then obtain m gm es where m: "avltree_leftest_subnode r = Some (m, gm)" "inorder r = m # es"
        using leftest_inorder [of r] by auto
      obtain found r' where r': "avltree_remove_helper ops r m = Inr (found, r')"
        using rok [of m] by (auto simp: remove_ok_def)
      then have found using rok [of m] m(2) by (auto simp: remove_ok_def)
      moreover have "inorder l @ m # remove1 m (inorder r) = remove1 e (inorder (Node l e g h r)) \<and>
          e \<in> set (inorder (Node l e g h r))"
        using m(2) d by (simp add: remove1_append)
      ultimately show ?thesis
        using remove_step_right [OF rok [of m, unfolded r'] Node.prems(1), where e' = m and x = e and g' = gm and ops = ops]
          False here st(3) m(1) r' by simp
    qed
  qed
qed

subsection \<open>Iteration\<close>

text \<open>The elements still to be visited from a position, itself included.\<close>

fun above :: "(dir \<times> ('e, 'g) avltree_node) list \<Rightarrow> 'e list" where
  "above [] = []"
| "above ((R, p) # up) = above up"
| "above ((L, Leaf) # up) = above up"
| "above ((L, Node l e g h r) # up) = e # inorder r @ above up"

fun pending :: "('e, 'g) position option \<Rightarrow> 'e list" where
  "pending None = []"
| "pending (Some (Leaf, up)) = []"
| "pending (Some (Node l e g h r, up)) = e # inorder r @ above up"

text \<open>A position is sound when it and the ancestors it may return to are nodes.\<close>

definition links_ok :: "(dir \<times> ('e, 'g) avltree_node) list \<Rightarrow> bool" where
  "links_ok up \<longleftrightarrow> (\<forall>(d, p) \<in> set up. p \<noteq> Leaf)"

definition position_ok :: "('e, 'g) position option \<Rightarrow> bool" where
  "position_ok z \<longleftrightarrow> (case z of None \<Rightarrow> True | Some (t, up) \<Rightarrow> t \<noteq> Leaf \<and> links_ok up)"

lemma leftest_position_pending:
  "t \<noteq> Leaf \<Longrightarrow> links_ok up \<Longrightarrow>
   pending (leftest_position t up) = inorder t @ above up \<and> position_ok (leftest_position t up)"
  by (induction t arbitrary: up) (auto simp: position_ok_def links_ok_def)

lemma move_up_pending: "links_ok up \<Longrightarrow> pending (move_up up) = above up \<and> position_ok (move_up up)"
proof (induction up rule: move_up.induct)
  case (3 p up)
  then show ?case by (cases p) (auto simp: position_ok_def links_ok_def)
qed (auto simp: position_ok_def links_ok_def)

lemma next_pending:
  assumes "position_ok (Some (Node l e g h r, up))"
  shows "pending (avltree_next (Node l e g h r, up)) = inorder r @ above up \<and>
    position_ok (avltree_next (Node l e g h r, up))"
proof (cases "r = Leaf")
  case True
  then show ?thesis
    using move_up_pending [of up] assms by (simp add: position_ok_def)
next
  case False
  moreover have "links_ok ((R, Node l e g h r) # up)"
    using assms by (simp add: position_ok_def links_ok_def)
  ultimately show ?thesis
    using leftest_position_pending [of r "(R, Node l e g h r) # up"] by simp
qed

lemma foreach_pending:
  "position_ok z \<Longrightarrow> length (pending z) < fuel \<Longrightarrow> avltree_foreach fuel z = Some (pending z)"
proof (induction fuel arbitrary: z)
  case (Suc fuel)
  show ?case
  proof (cases z)
    case (Some p)
    then obtain l e g h r up where p: "p = (Node l e g h r, up)"
      using Suc.prems(1) by (cases p; cases "fst p") (auto simp: position_ok_def)
    then show ?thesis
      using Suc.IH [of "avltree_next p"] Suc.prems next_pending [of l e g h r up] Some by simp
  qed simp
qed simp

lemma avltree_first_pending:
  "pending (avltree_first t) = inorder t \<and> position_ok (avltree_first t)"
proof (cases t)
  case Leaf
  then show ?thesis by (simp add: avltree_first_def position_ok_def)
next
  case (Node l e g h r)
  then show ?thesis
    using leftest_position_pending [of t "[]"] by (simp add: avltree_first_def links_ok_def)
qed

subsection \<open>Searching by key\<close>

text \<open>The key compares to the elements as \<open>c\<close> says, whatever the data of the left child, and the
  sign of \<open>c\<close> falls along the elements.\<close>

definition key_monotone :: "('e, 'g, 'k) avltree_ops \<Rightarrow> 'k \<Rightarrow> ('e \<Rightarrow> int) \<Rightarrow> 'e list \<Rightarrow> bool" where
  "key_monotone ops k c es \<longleftrightarrow>
     sorted_wrt (\<lambda>a b. sgn (c b) \<le> sgn (c a)) es \<and>
     (\<forall>a\<in>set es. \<forall>g. compare_key ops k g a = c a)"

lemma key_monotone_append:
  "key_monotone ops k c (xs @ e # ys) \<Longrightarrow>
     key_monotone ops k c xs \<and> key_monotone ops k c ys \<and> (\<forall>g. compare_key ops k g e = c e) \<and>
     (\<forall>a\<in>set xs. sgn (c e) \<le> sgn (c a)) \<and>
     (\<forall>b\<in>set ys. sgn (c b) \<le> sgn (c e))"
  unfolding key_monotone_def sorted_wrt_append sorted_wrt.simps by auto

lemma sgn_le_pos: "sgn (a::int) \<le> sgn b \<Longrightarrow> 0 < a \<Longrightarrow> 0 < b"
  by (auto simp: sgn_if split: if_splits)

lemma sgn_le_neg: "sgn (a::int) \<le> sgn b \<Longrightarrow> b < 0 \<Longrightarrow> a < 0"
  by (auto simp: sgn_if split: if_splits)

lemma first_superior_from_spec:
  "key_monotone ops k c (inorder t) \<Longrightarrow>
   first_superior_from ops best t k =
     (case find (\<lambda>e. c e \<le> 0) (inorder t) of None \<Rightarrow> best | Some e \<Rightarrow> Some e)"
proof (induction t arbitrary: best)
  case (Node l e g h r)
  note km = key_monotone_append [OF Node.prems [unfolded inorder.simps]]
  show ?case
  proof (cases "c e \<le> 0")
    case True
    then show ?thesis
      using Node.IH(1) km by (simp add: find_append split: option.split)
  next
    case False
    then have "find (\<lambda>e. c e \<le> 0) (inorder l) = None"
      using km sgn_le_pos by (intro find_eq_NoneI) (metis not_le)
    then show ?thesis
      using Node.IH(2) km False by (simp add: find_append)
  qed
qed simp

lemma avltree_lookup_spec:
  assumes "key_monotone ops k c (inorder t)"
  shows "case avltree_lookup ops t k of
      Some e \<Rightarrow> e \<in> set (inorder t) \<and> c e = 0
    | None \<Rightarrow> \<forall>e\<in>set (inorder t). c e \<noteq> 0"
  using assms
proof (induction t)
  case (Node l e g h r)
  note km = key_monotone_append [OF Node.prems [unfolded inorder.simps]]
  consider "c e < 0" | "c e > 0" | "c e = 0"
    by linarith
  then show ?case
  proof cases
    case 1
    then have "\<forall>b\<in>set (inorder r). c b < 0"
      using km sgn_le_neg by blast
    then show ?thesis
      using Node.IH(1) km 1 by (fastforce simp: Let_def split: option.splits)
  next
    case 2
    then have "\<forall>a\<in>set (inorder l). c a > 0"
      using km sgn_le_pos by blast
    then show ?thesis
      using Node.IH(2) km 2 by (fastforce simp: Let_def split: option.splits)
  next
    case 3
    then show ?thesis
      using km by (simp add: Let_def)
  qed
qed simp

subsection \<open>The data maintained by the recalculate callback\<close>

fun aug_ok :: "('g option \<Rightarrow> 'e \<Rightarrow> 'g option \<Rightarrow> 'g) \<Rightarrow> ('e, 'g) avltree_node \<Rightarrow> bool" where
  "aug_ok f Leaf = True"
| "aug_ok f (Node l e g h r) \<longleftrightarrow> g = f (aug l) e (aug r) \<and> aug_ok f l \<and> aug_ok f r"

fun kids_ok :: "('g option \<Rightarrow> 'e \<Rightarrow> 'g option \<Rightarrow> 'g) \<Rightarrow> ('e, 'g) avltree_node \<Rightarrow> bool" where
  "kids_ok f Leaf = True"
| "kids_ok f (Node l e g h r) \<longleftrightarrow> aug_ok f l \<and> aug_ok f r"

lemma aug_ok_kids: "aug_ok f t \<Longrightarrow> kids_ok f t"
  by (cases t) auto

lemma aug_ok_compute:
  "recalculate ops = Some f \<Longrightarrow> aug_ok f (avltree_compute_height ops l e g r) \<longleftrightarrow> aug_ok f l \<and> aug_ok f r"
  by (simp add: avltree_compute_height_def)

lemma aug_ok_rotate_left:
  "recalculate ops = Some f \<Longrightarrow> kids_ok f t \<Longrightarrow> avltree_rotate_left ops t = Inr t' \<Longrightarrow> aug_ok f t'"
  by (cases "(ops, t)" rule: avltree_rotate_left.cases) (auto simp: aug_ok_compute)

lemma aug_ok_rotate_right:
  "recalculate ops = Some f \<Longrightarrow> kids_ok f t \<Longrightarrow> avltree_rotate_right ops t = Inr t' \<Longrightarrow> aug_ok f t'"
  by (cases "(ops, t)" rule: avltree_rotate_right.cases) (auto simp: aug_ok_compute)

lemma aug_ok_get_child: "kids_ok f t \<Longrightarrow> aug_ok f (get_child d t)"
  by (cases t; cases d) auto

lemma kids_ok_set_child: "kids_ok f t \<Longrightarrow> aug_ok f c \<Longrightarrow> kids_ok f (set_child d t c)"
  by (cases t; cases d) auto

lemma aug_ok_rebalance:
  assumes f: "recalculate ops = Some f" and k: "kids_ok f t" and eq: "avltree_rebalance ops d t = Inr t'"
  shows "aug_ok f t'"
proof (cases t)
  case (Node l e g h r)
  let ?c = "avltree_compute_height ops l e g r"
  have c: "aug_ok f ?c"
    using k Node by (simp add: aug_ok_compute [OF f])
  have c': "kids_ok f ?c" "kids_ok f (get_child d ?c)"
    using c aug_ok_kids aug_ok_get_child by blast+
  have setL: "kids_ok f (set_child d ?c c2)" if "avltree_rotate_left ops (get_child d ?c) = Inr c2" for c2
    using aug_ok_rotate_left [OF f c'(2) that] kids_ok_set_child [OF c'(1)] by blast
  have setR: "kids_ok f (set_child d ?c c2)" if "avltree_rotate_right ops (get_child d ?c) = Inr c2" for c2
    using aug_ok_rotate_right [OF f c'(2) that] kids_ok_set_child [OF c'(1)] by blast
  have "t' = ?c \<or> (\<exists>u. kids_ok f u \<and>
      (avltree_rotate_left ops u = Inr t' \<or> avltree_rotate_right ops u = Inr t'))"
    using eq c'(1) setL setR unfolding Node avltree_rebalance.simps(2) Let_def
    by (auto simp: kbind_eq_Inr split: if_splits)
  then show ?thesis
    using c aug_ok_rotate_left [OF f] aug_ok_rotate_right [OF f] by blast
qed (use eq in simp)

lemma aug_ok_insert_helper:
  assumes "recalculate ops = Some f" "aug_ok f t" "avltree_insert_helper ops t x (f None x None) = Inr t'"
  shows "aug_ok f t'"
  using assms(2,3)
proof (induction t arbitrary: t')
  case (Node l e g h r)
  show ?case
  proof (cases "compare_nodes ops x e < 0")
    case True
    then obtain l' where "avltree_insert_helper ops l x (f None x None) = Inr l'"
      and t': "avltree_rebalance ops L (Node l' e g h r) = Inr t'"
      using Node.prems(2) by (auto simp: kbind_eq_Inr)
    then show ?thesis
      using aug_ok_rebalance [OF assms(1) _ t'] Node.IH(1) Node.prems(1) by simp
  next
    case False
    then obtain r' where "avltree_insert_helper ops r x (f None x None) = Inr r'"
      and t': "avltree_rebalance ops R (Node l e g h r') = Inr t'"
      using Node.prems(2) by (auto simp: kbind_eq_Inr)
    then show ?thesis
      using aug_ok_rebalance [OF assms(1) _ t'] Node.IH(2) Node.prems(1) by simp
  qed
qed simp

lemma remove_helper_cases:
  assumes "avltree_remove_helper ops (Node l e g h r) x = Inr (True, t')"
  obtains (left) l' where "avltree_remove_helper ops l x = Inr (True, l')"
      "avltree_rebalance ops L (Node l' e g h r) = Inr t'"
    | (right) y e' g' r' where "avltree_remove_helper ops r y = Inr (True, r')"
      "avltree_rebalance ops R (Node l e' g' h r') = Inr t'"
    | (child) "t' = l \<or> t' = r"
  using assms by (auto simp: kbind_eq_Inr split: if_splits option.splits)

lemma aug_ok_remove_helper:
  assumes "recalculate ops = Some f" "aug_ok f t" "avltree_remove_helper ops t x = Inr (True, t')"
  shows "aug_ok f t'"
  using assms(2,3)
proof (induction t arbitrary: x t')
  case (Node l e g h r)
  have kids: "aug_ok f l" "aug_ok f r"
    using Node.prems(1) by simp_all
  from Node.prems(2) show ?case
  proof (cases rule: remove_helper_cases)
    case (left l')
    then show ?thesis
      using aug_ok_rebalance [OF assms(1) _ left(2)] Node.IH(1) kids by simp
  next
    case (right y e' g' r')
    then show ?thesis
      using aug_ok_rebalance [OF assms(1) _ right(2)] Node.IH(2) kids by simp
  next
    case child
    then show ?thesis using kids by blast
  qed
qed simp

subsection \<open>The interval tree\<close>

record interval =
  iv_start :: nat
  iv_end :: nat
  iv_node :: nat

definition interval_tree_compare_nodes :: "interval \<Rightarrow> interval \<Rightarrow> int" where
  "interval_tree_compare_nodes a b =
     (if iv_start a < iv_start b then -1 else if iv_start a > iv_start b then 1
      else if iv_end a < iv_end b then -1 else if iv_end a > iv_end b then 1 else 0)"

definition interval_tree_compare_key :: "nat \<times> nat \<Rightarrow> nat option \<Rightarrow> interval \<Rightarrow> int" where
  "interval_tree_compare_key span left_max node =
     (if (case left_max of Some m \<Rightarrow> m \<ge> fst span | None \<Rightarrow> False) then -1
      else if fst span < iv_end node \<and> snd span > iv_end node then 0 else 1)"

definition interval_tree_recalculate :: "nat option \<Rightarrow> interval \<Rightarrow> nat option \<Rightarrow> nat" where
  "interval_tree_recalculate left node right =
     (let m0 = iv_end node;
          m1 = (case left of Some m \<Rightarrow> if m > m0 then m else m0 | None \<Rightarrow> m0)
      in (case right of Some m \<Rightarrow> if m > m1 then m else m1 | None \<Rightarrow> m1))"

definition interval_tree_ops :: "(interval, nat, nat \<times> nat) avltree_ops" where
  "interval_tree_ops = \<lparr>compare_nodes = interval_tree_compare_nodes,
     compare_key = interval_tree_compare_key, recalculate = Some interval_tree_recalculate\<rparr>"

definition interval_tree_insert where
  "interval_tree_insert tree node mx = avltree_insert interval_tree_ops tree node mx"

definition interval_tree_remove where
  "interval_tree_remove tree node = avltree_remove interval_tree_ops tree node"

definition interval_tree_first_span :: "(interval, nat) avltree_node \<Rightarrow> nat \<times> nat \<Rightarrow> interval option" where
  "interval_tree_first_span tree span =
     (case avltree_first_superior_or_equal interval_tree_ops tree span of
        None \<Rightarrow> None
      | Some node \<Rightarrow> if iv_start node \<ge> snd span then None else Some node)"

lemma interval_tree_recalculate_max:
  "interval_tree_recalculate l e r =
     max (iv_end e) (max (case l of None \<Rightarrow> iv_end e | Some m \<Rightarrow> m) (case r of None \<Rightarrow> iv_end e | Some m \<Rightarrow> m))"
  by (auto simp: interval_tree_recalculate_def Let_def split: option.split)

lemma interval_max:
  "aug_ok interval_tree_recalculate t \<Longrightarrow> t \<noteq> Leaf \<Longrightarrow> aug t = Some (Max (iv_end ` set (inorder t)))"
proof (induction t)
  case (Node l e g h r)
  have ne: "t \<noteq> Leaf \<Longrightarrow> iv_end ` set (inorder t) \<noteq> {}" for t :: "(interval, nat) avltree_node"
    by (cases t) auto
  show ?case
    using Node ne [of l] ne [of r]
    by (cases "l = Leaf"; cases "r = Leaf")
      (simp_all add: interval_tree_recalculate_max image_Un Max_Un)
qed simp

subsection \<open>A total preorder on the elements\<close>

text \<open>What a comparison callback has to promise, and what a tree sorted by it keeps.\<close>

locale node_order =
  fixes cmp :: "'e \<Rightarrow> 'e \<Rightarrow> int"
  assumes sign: "cmp a b < 0 \<longleftrightarrow> cmp b a > 0"
    and trans: "cmp a b \<le> 0 \<Longrightarrow> cmp b c \<le> 0 \<Longrightarrow> cmp a c \<le> 0"
begin

lemma monotone_sorted:
  assumes "sorted_wrt (\<lambda>a b. cmp a b \<le> 0) es"
  shows "sorted_wrt (\<lambda>a b. cmp x a < 0 \<longrightarrow> cmp x b < 0) es"
  using assms
proof (rule sorted_wrt_mono_rel [rotated])
  fix a b
  assume ab: "cmp a b \<le> 0"
  show "cmp x a < 0 \<longrightarrow> cmp x b < 0"
    using sign [of x a] sign [of x b] trans [OF ab, of x] by force
qed

lemma place_sorted:
  assumes "sorted_wrt (\<lambda>a b. cmp a b \<le> 0) es"
  shows "sorted_wrt (\<lambda>a b. cmp a b \<le> 0)
    (takeWhile (\<lambda>y. \<not> cmp x y < 0) es @ x # dropWhile (\<lambda>y. \<not> cmp x y < 0) es)"
  using assms
proof (induction es)
  case (Cons e es)
  show ?case
  proof (cases "cmp x e < 0")
    case True
    then have "cmp x b \<le> 0" if "b \<in> set es" for b
      using trans [of x e b] Cons.prems that by simp
    then show ?thesis
      using True Cons.prems by simp
  next
    case False
    then have "cmp e x \<le> 0"
      using sign [of x e] sign [of e x] by linarith
    moreover have "set (takeWhile (\<lambda>y. \<not> cmp x y < 0) es) \<union> set (dropWhile (\<lambda>y. \<not> cmp x y < 0) es) = set es"
      by (metis set_append takeWhile_dropWhile_id)
    ultimately show ?thesis
      using False Cons by auto
  qed
qed simp

end

interpretation interval_order: node_order interval_tree_compare_nodes
  by unfold_locales (auto simp: interval_tree_compare_nodes_def split: if_splits)

subsection \<open>Properties\<close>

text \<open>C21: Insertion into a balanced tree never reaches an unreachable case or a missing child,
  puts the element behind every element it does not precede and leaves the order of the others,
  and gives a balanced tree whose height grew by at most one.\<close>

theorem avltree_insert_correct:
  assumes "avl t" "monotone_for ops x (inorder t)"
  shows "\<exists>t'. avltree_insert ops t x gx = Inr t' \<and> avl t' \<and> inorder t' = place ops x (inorder t) \<and>
    avltree_height t \<le> avltree_height t' \<and> avltree_height t' \<le> avltree_height t + 1"
  using avltree_insert_helper_spec [OF assms] by (simp add: avltree_insert_def)

definition nat_ops :: "(nat, unit, nat) avltree_ops" where
  "nat_ops = \<lparr>compare_nodes = (\<lambda>a b. int a - int b), compare_key = (\<lambda>k _ a. int k - int a), recalculate = None\<rparr>"

fun build :: "nat list \<Rightarrow> (nat, unit) avltree_node \<Rightarrow> (nat, unit) avltree_node kres" where
  "build [] t = Inr t"
| "build (x # xs) t = kbind (avltree_insert nat_ops t x ()) (build xs)"

definition ex_tree :: "(nat, unit) avltree_node" where
  "ex_tree = Node (Node Leaf 2 () 1 Leaf) 5 () 3 (Node Leaf 7 () 2 (Node Leaf 9 () 1 Leaf))"

theorem avltree_insert_correct_witness:
  "\<exists>t'. avltree_insert nat_ops ex_tree 8 () = Inr t' \<and> avl t' \<and> inorder t' = [2, 5, 7, 8, 9]"
proof -
  have "avl ex_tree" "monotone_for nat_ops 8 (inorder ex_tree)"
    by (simp_all add: ex_tree_def nat_ops_def)
  from avltree_insert_correct [OF this, of "()"] show ?thesis
    by (auto simp: ex_tree_def nat_ops_def)
qed

text \<open>C22: Removal from a balanced tree with strictly ordered elements never faults, returns whether
  the element was in the tree, removes exactly that element, and keeps the stored heights
  right with the height shrinking by at most one.\<close>

theorem avltree_remove_correct:
  assumes "avl t" "strict ops (inorder t)"
  shows "\<exists>found t'. avltree_remove ops t x = Inr (found, t') \<and> heights_ok t' \<and>
    (found \<longleftrightarrow> x \<in> set (inorder t)) \<and> inorder t' = remove1 x (inorder t) \<and>
    avltree_height t' \<le> avltree_height t \<and> avltree_height t \<le> avltree_height t' + 1"
  using avltree_remove_helper_spec [OF assms, of x] unfolding avltree_remove_def remove_ok_def by blast

theorem avltree_remove_correct_witness:
  "\<exists>t'. avltree_remove nat_ops ex_tree 5 = Inr (True, t') \<and> heights_ok t' \<and> inorder t' = [2, 7, 9]"
proof -
  have "avl ex_tree" "strict nat_ops (inorder ex_tree)"
    by (simp_all add: ex_tree_def nat_ops_def strict_def)
  from avltree_remove_correct [OF this, of 5] show ?thesis
    by (auto simp: ex_tree_def)
qed



text \<open>C30: When the key comparison falls along the elements, \<^verbatim>\<open>avltree_first_superior_or_equal\<close> finds the
  first element the key does not exceed, and \<^verbatim>\<open>avltree_lookup\<close> finds an equal element exactly when
  the tree has one.\<close>

theorem avltree_search_correct:
  assumes "key_monotone ops k c (inorder t)"
  shows "avltree_first_superior_or_equal ops t k = find (\<lambda>e. c e \<le> 0) (inorder t) \<and>
    (case avltree_lookup ops t k of
       Some e \<Rightarrow> e \<in> set (inorder t) \<and> c e = 0
     | None \<Rightarrow> \<forall>e\<in>set (inorder t). c e \<noteq> 0)"
  using avltree_lookup_spec [OF assms] first_superior_from_spec [OF assms, of None]
  by (simp add: avltree_first_superior_or_equal_def split: option.split)

theorem avltree_search_correct_witness:
  "avltree_first_superior_or_equal nat_ops ex_tree 6 = Some 7 \<and> avltree_lookup nat_ops ex_tree 6 = None"
proof -
  have "key_monotone nat_ops 6 (\<lambda>e. 6 - int e) (inorder ex_tree)"
    by (simp add: key_monotone_def nat_ops_def ex_tree_def)
  from avltree_search_correct [OF this] show ?thesis
    by (auto simp: ex_tree_def split: option.splits)
qed


definition ex_interval_tree :: "(interval, nat) avltree_node" where
  "ex_interval_tree = Node Leaf \<lparr>iv_start = 0, iv_end = 4, iv_node = 1\<rparr> 4 1 Leaf"



end
