(* ===== verification/Xarray.thy ===== *)
theory Xarray
  imports Prelude "HOL-Library.Code_Target_Nat"
begin

section \<open>The extensible radix arrays\<close>

text \<open>
  Models \<^verbatim>\<open>kernel/klib/xarray.c\<close> and \<^verbatim>\<open>kernel/include/klib/xarray.h\<close>. An entry is a tagged word in
  the code: null, a value (an even word) or a node with the low bit set; here it is a
  datatype and the values stay 64-bit words, with 0 for the null pointer. Indices and
  shifts are naturals; the code shifts by the node's shift and by at most 66, so the results
  about writes assume an index below \<open>2 ^ 60\<close>, where no shift reaches the width of a word.
  Nodes come from a slab cache whose result the code uses unchecked; the model covers
  the runs in which it succeeds. Readers run under read-copy-update and see one state.

  The abstraction of a tree is the function from indices to words that \<open>xarray_raw_get\<close> reads.
\<close>

unbundle bit_operations_syntax

definition XARRAY_SHIFT_BITS :: nat where
  "XARRAY_SHIFT_BITS = 6"

definition XARRAY_ENTRIES_PER_NODE :: nat where
  "XARRAY_ENTRIES_PER_NODE = 64"

datatype xentry = Null | Value u64 | Node nat u64 "xentry list"

definition xarray_entry_from_value :: "u64 \<Rightarrow> xentry" where
  "xarray_entry_from_value v = (if v = 0 then Null else Value v)"

definition xarray_init :: xentry where
  "xarray_init = Null"

definition xarray_node_get_local_index :: "nat \<Rightarrow> nat \<Rightarrow> nat" where
  "xarray_node_get_local_index shift index = (index div 2 ^ shift) mod 64"

fun xarray_is_in_bound :: "xentry \<Rightarrow> nat \<Rightarrow> bool" where
  "xarray_is_in_bound Null index = (index < 1)"
| "xarray_is_in_bound (Value v) index = (index < 1)"
| "xarray_is_in_bound (Node shift full_mask es) index = (index < 2 ^ (shift + XARRAY_SHIFT_BITS))"

fun xarray_walk :: "xentry \<Rightarrow> nat \<Rightarrow> u64" where
  "xarray_walk Null index = 0"
| "xarray_walk (Value v) index = v"
| "xarray_walk (Node shift full_mask es) index =
     (let i = xarray_node_get_local_index shift index in
      if i < length es then xarray_walk (es ! i) index else 0)"

definition xarray_raw_get :: "xentry \<Rightarrow> nat \<Rightarrow> u64" where
  "xarray_raw_get root index = (if \<not> xarray_is_in_bound root index then 0 else xarray_walk root index)"

text \<open>Growing the tree until the index fits.\<close>

function xarray_target_shift :: "nat \<Rightarrow> nat \<Rightarrow> nat" where
  "xarray_target_shift index target_shift =
     (if index \<ge> 2 ^ target_shift then xarray_target_shift index (target_shift + XARRAY_SHIFT_BITS)
      else target_shift)"
  by auto
termination
proof (relation "measure (\<lambda>(i, t). i - t)")
  fix i t :: nat
  assume "2 ^ t \<le> i"
  then have "t < i" using less_exp [of t] by linarith
  then show "((i, t + XARRAY_SHIFT_BITS), i, t) \<in> measure (\<lambda>(i, t). i - t)"
    by (simp add: XARRAY_SHIFT_BITS_def)
qed simp

declare xarray_target_shift.simps [simp del]

function xarray_grow :: "nat \<Rightarrow> nat \<Rightarrow> bool \<Rightarrow> xentry \<Rightarrow> xentry" where
  "xarray_grow current_shift target_shift previous_is_full entry =
     (if current_shift < target_shift
      then xarray_grow (current_shift + XARRAY_SHIFT_BITS) target_shift False
             (Node current_shift (if previous_is_full then 1 else 0) (entry # replicate 63 Null))
      else entry)"
  by auto
termination
  by (relation "measure (\<lambda>(c, t, f, e). t - c)") (auto simp: XARRAY_SHIFT_BITS_def)

declare xarray_grow.simps [simp del]

text \<open>The nodes created below a null entry whose parent has the given shift.\<close>

function xarray_create :: "nat \<Rightarrow> nat \<Rightarrow> u64 \<Rightarrow> xentry" where
  "xarray_create current_shift index value =
     (if current_shift \<ge> XARRAY_SHIFT_BITS
      then let shift = current_shift - XARRAY_SHIFT_BITS;
               i = xarray_node_get_local_index shift index
           in Node shift (push_bit i 1) ((replicate 64 Null)[i := xarray_create shift index value])
      else xarray_entry_from_value value)"
  by auto
termination
  by (relation "measure (\<lambda>(c, i, v). c)") (auto simp: XARRAY_SHIFT_BITS_def)

declare xarray_create.simps [simp del]

text \<open>The descent of \<^verbatim>\<open>xarray_raw_set\<close>: the old value, the new entry, and whether the walk back up
  still sets mask bits. \<open>current_shift\<close> is the shift of the node above.\<close>

fun xarray_set_entry :: "nat \<Rightarrow> xentry \<Rightarrow> nat \<Rightarrow> u64 \<Rightarrow> (u64 \<times> xentry \<times> bool) kres" where
  "xarray_set_entry current_shift Null index value =
     (if value = 0 then Inr (0, Null, False)
      else if current_shift mod XARRAY_SHIFT_BITS \<noteq> 0 then Inl KPanic
      else Inr (0, xarray_create current_shift index value, False))"
| "xarray_set_entry current_shift (Value old) index value =
     Inr (old, xarray_entry_from_value value, value \<noteq> 0)"
| "xarray_set_entry current_shift (Node shift full_mask es) index value =
     (let i = xarray_node_get_local_index shift index;
          mask1 = (if value = 0 then full_mask AND NOT (push_bit i 1) else full_mask)
      in if i < length es then
           kbind (xarray_set_entry shift (es ! i) index value) (\<lambda>(old, e, up).
             let mask2 = (if up then mask1 OR push_bit i 1 else mask1)
             in Inr (old, Node shift mask2 (es[i := e]), up \<and> mask2 = - 1))
         else Inl KPanic)"

fun xarray_root_shift :: "xentry \<Rightarrow> nat" where
  "xarray_root_shift Null = 0"
| "xarray_root_shift (Value v) = 0"
| "xarray_root_shift (Node shift full_mask es) = shift + XARRAY_SHIFT_BITS"

fun xarray_root_full :: "xentry \<Rightarrow> bool" where
  "xarray_root_full Null = False"
| "xarray_root_full (Value v) = True"
| "xarray_root_full (Node shift full_mask es) = (full_mask = - 1)"

definition xarray_raw_set :: "xentry \<Rightarrow> nat \<Rightarrow> u64 \<Rightarrow> (u64 \<times> xentry) kres" where
  "xarray_raw_set root index value =
     (if bit value 0 then Inl KPanic
      else if \<not> xarray_is_in_bound root index then
        (if value = 0 then Inr (0, root)
         else let target_shift = xarray_target_shift index 0 in
           if \<not> xarray_root_shift root < target_shift then Inl KPanic
           else kbind (xarray_set_entry 0
                  (xarray_grow (xarray_root_shift root) target_shift (xarray_root_full root) root) index value)
                  (\<lambda>(old, root', up). Inr (old, root')))
      else kbind (xarray_set_entry 0 root index value) (\<lambda>(old, root', up). Inr (old, root')))"

definition xarray_raw_cmpxchg :: "xentry \<Rightarrow> nat \<Rightarrow> u64 \<Rightarrow> u64 \<Rightarrow> (u64 \<times> xentry) kres" where
  "xarray_raw_cmpxchg root index expected value =
     (if bit value 0 then Inl KPanic
      else let old = xarray_raw_get root index in
        if old \<noteq> expected then Inr (old, root) else xarray_raw_set root index value)"

definition xarray_raw_clear :: "xentry \<Rightarrow> nat \<Rightarrow> (u64 \<times> xentry) kres" where
  "xarray_raw_clear root index = xarray_raw_set root index 0"

text \<open>Searching for a value: the loop over the entries of a node starts at the local index of the
  minimum; only that first entry is searched from the minimum.\<close>

fun xarray_entry_find_non_null :: "xentry \<Rightarrow> nat \<Rightarrow> (u64 \<times> nat) option"
  and xarray_find_loop :: "xentry list \<Rightarrow> nat \<Rightarrow> nat \<Rightarrow> nat \<Rightarrow> nat \<Rightarrow> (u64 \<times> nat) option" where
  "xarray_entry_find_non_null Null mn = None"
| "xarray_entry_find_non_null (Value v) mn = Some (v, 0)"
| "xarray_entry_find_non_null (Node shift full_mask es) mn =
     xarray_find_loop es 0 (xarray_node_get_local_index shift mn) shift mn"
| "xarray_find_loop [] i start shift mn = None"
| "xarray_find_loop (e # es) i start shift mn =
     (if i < start then xarray_find_loop es (Suc i) start shift mn
      else (case xarray_entry_find_non_null e (if i = start then mn else 0) of
              Some (v, k) \<Rightarrow> Some (v, k + i * 2 ^ shift)
            | None \<Rightarrow> xarray_find_loop es (Suc i) start shift mn))"

definition xarray_raw_first :: "xentry \<Rightarrow> (u64 \<times> nat) option" where
  "xarray_raw_first root = xarray_entry_find_non_null root 0"

definition xarray_raw_first_from :: "xentry \<Rightarrow> nat \<Rightarrow> (u64 \<times> nat) option" where
  "xarray_raw_first_from root from =
     (if \<not> xarray_is_in_bound root from then None else xarray_entry_find_non_null root from)"

definition xarray_next :: "xentry \<Rightarrow> nat \<Rightarrow> (u64 \<times> nat) option" where
  "xarray_next root after = xarray_raw_first_from root (after + 1)"

text \<open>Allocation of a free index. The nodes made below a null entry carry no mask bit.\<close>

function xarray_allocate_chain :: "nat \<Rightarrow> nat \<Rightarrow> u64 \<Rightarrow> xentry" where
  "xarray_allocate_chain parent_shift mn value =
     (if parent_shift \<ge> XARRAY_SHIFT_BITS
      then let shift = parent_shift - XARRAY_SHIFT_BITS;
               i = xarray_node_get_local_index shift mn
           in Node shift 0 ((replicate 64 Null)[i := xarray_allocate_chain shift mn value])
      else xarray_entry_from_value value)"
  by auto
termination
  by (relation "measure (\<lambda>(c, i, v). c)") (auto simp: XARRAY_SHIFT_BITS_def)

declare xarray_allocate_chain.simps [simp del]

text \<open>The result is \<open>None\<close> for the return value 0, else the new entry, the index below it and the
  \<^verbatim>\<open>full\<close> output. The loop also returns the position of the entry it changed.\<close>

fun xarray_entry_allocate :: "xentry \<Rightarrow> nat \<Rightarrow> nat \<Rightarrow> u64 \<Rightarrow> (xentry \<times> nat \<times> bool) option"
  and xarray_allocate_loop ::
    "xentry list \<Rightarrow> nat \<Rightarrow> nat \<Rightarrow> nat \<Rightarrow> u64 \<Rightarrow> nat \<Rightarrow> u64 \<Rightarrow> (nat \<times> xentry \<times> nat \<times> bool) option" where
  "xarray_entry_allocate Null mn parent_shift value =
     Some (xarray_allocate_chain parent_shift mn value, 0, \<not> parent_shift \<ge> XARRAY_SHIFT_BITS)"
| "xarray_entry_allocate (Value v) mn parent_shift value = None"
| "xarray_entry_allocate (Node shift full_mask es) mn parent_shift value =
     (if full_mask = - 1 then None
      else (case xarray_allocate_loop es 0 (xarray_node_get_local_index shift mn) shift full_mask mn value of
              None \<Rightarrow> None
            | Some (i, e, index, child_is_full) \<Rightarrow>
                (let full_mask' = (if child_is_full then full_mask OR push_bit i 1 else full_mask)
                 in Some (Node shift full_mask' (es[i := e]), index + i * 2 ^ shift, full_mask' = - 1))))"
| "xarray_allocate_loop [] i start shift full_mask mn value = None"
| "xarray_allocate_loop (e # es) i start shift full_mask mn value =
     (if i < start \<or> bit full_mask i then xarray_allocate_loop es (Suc i) start shift full_mask mn value
      else (case xarray_entry_allocate e (if i = start then mn else 0) shift value of
              Some (e', index, full) \<Rightarrow> Some (i, e', index, full)
            | None \<Rightarrow> xarray_allocate_loop es (Suc i) start shift full_mask mn value))"

text \<open>\<^verbatim>\<open>child_is_full\<close> is not initialised when the search fails; \<open>stale\<close> is what it holds then.\<close>

definition xarray_raw_allocate_from :: "bool \<Rightarrow> xentry \<Rightarrow> nat \<Rightarrow> u64 \<Rightarrow> (nat \<times> xentry) kres" where
  "xarray_raw_allocate_from stale root start value =
     (if \<not> xarray_is_in_bound root start then
        kbind (xarray_raw_set root start value) (\<lambda>(old, root'). Inr (start, root'))
      else (case xarray_entry_allocate root start 0 value of
              Some (root', index, full) \<Rightarrow> Inr (index, root')
            | None \<Rightarrow>
                (let shift = xarray_root_shift root
                 in Inr (0 + 2 ^ shift,
                      Node shift (if stale then 1 else 0)
                        (root # xarray_allocate_chain shift 0 value # replicate 62 Null)))))"

definition xarray_allocate :: "bool \<Rightarrow> xentry \<Rightarrow> u64 \<Rightarrow> (nat \<times> xentry) kres" where
  "xarray_allocate stale root value =
     (if bit value 0 then Inl KPanic else xarray_raw_allocate_from stale root 0 value)"

subsection \<open>Well-formed trees\<close>

text \<open>A tree of level \<open>n\<close> holds the indices below \<open>2 ^ (6 * n)\<close>.\<close>

fun wf :: "nat \<Rightarrow> xentry \<Rightarrow> bool" where
  "wf n Null = True"
| "wf n (Value v) \<longleftrightarrow> n = 0 \<and> v \<noteq> 0 \<and> even v"
| "wf 0 (Node shift full_mask es) = False"
| "wf (Suc n) (Node shift full_mask es) \<longleftrightarrow> shift = 6 * n \<and> length es = 64 \<and> (\<forall>e\<in>set es. wf n e)"

definition xarray_ok :: "xentry \<Rightarrow> bool" where
  "xarray_ok root \<longleftrightarrow> (\<exists>n. wf n root)"

abbreviation cap :: "nat \<Rightarrow> nat" where
  "cap n \<equiv> 2 ^ (6 * n)"

lemma cap_Suc: "cap (Suc n) = cap n * 64"
  by (simp add: power_add)

lemma local_index: "xarray_node_get_local_index (6 * n) j = j div cap n mod 64"
  by (simp add: xarray_node_get_local_index_def)

lemma digits: "j mod cap (Suc n) = cap n * (j div cap n mod 64) + j mod cap n"
  by (simp only: cap_Suc mod_mult2_eq)

lemma digits_eq:
  "j mod cap (Suc n) = i mod cap (Suc n) \<longleftrightarrow>
     j div cap n mod 64 = i div cap n mod 64 \<and> j mod cap n = i mod cap n"
proof
  assume eq: "j mod cap (Suc n) = i mod cap (Suc n)"
  have "k div cap n mod 64 = k mod cap (Suc n) div cap n" "k mod cap n = k mod cap (Suc n) mod cap n" for k
    unfolding digits by simp_all
  then show "j div cap n mod 64 = i div cap n mod 64 \<and> j mod cap n = i mod cap n"
    using eq by metis
qed (simp only: digits)

lemma wf_nth: "wf (Suc n) (Node shift full_mask es) \<Longrightarrow> i < 64 \<Longrightarrow> wf n (es ! i)"
  by simp

lemma wf_update:
  "wf (Suc n) (Node shift full_mask es) \<Longrightarrow> wf n e \<Longrightarrow> wf (Suc n) (Node shift full_mask' (es[i := e]))"
  by (auto dest: set_update_subset_insert [THEN subsetD])

lemma wf_bound:
  "wf n root \<Longrightarrow> root \<noteq> Null \<Longrightarrow> xarray_is_in_bound root j \<longleftrightarrow> j < cap n"
  by (cases "(n, root)" rule: wf.cases) (auto simp: XARRAY_SHIFT_BITS_def power_add mult.commute)

lemma wf_root_shift: "wf n root \<Longrightarrow> root \<noteq> Null \<Longrightarrow> xarray_root_shift root = 6 * n"
  by (cases "(n, root)" rule: wf.cases) (auto simp: XARRAY_SHIFT_BITS_def)

lemma walk_Node:
  "wf (Suc n) (Node shift full_mask es) \<Longrightarrow>
   xarray_walk (Node shift full_mask es) j = xarray_walk (es ! (j div cap n mod 64)) j"
  by (simp add: local_index)

lemma walk_value: "xarray_walk (xarray_entry_from_value v) j = v"
  by (simp add: xarray_entry_from_value_def)

lemma wf_value: "even v \<Longrightarrow> wf 0 (xarray_entry_from_value v)"
  by (simp add: xarray_entry_from_value_def)

text \<open>Reading depends on the digits of the index below the level only.\<close>

lemma walk_cong: "wf n e \<Longrightarrow> j mod cap n = i mod cap n \<Longrightarrow> xarray_walk e j = xarray_walk e i"
proof (induction n e rule: wf.induct)
  case (4 n shift full_mask es)
  have "j div cap n mod 64 = i div cap n mod 64" "j mod cap n = i mod cap n"
    using 4(3) unfolding digits_eq by blast+
  moreover have "es ! (j div cap n mod 64) \<in> set es" "wf n (es ! (j div cap n mod 64))"
    using 4(2) by simp_all
  ultimately show ?case
    using 4(1) unfolding walk_Node [OF 4(2)] by metis
qed auto

subsection \<open>Creating and growing\<close>

lemma wf_create: "even v \<Longrightarrow> wf n (xarray_create (6 * n) i v)"
proof (induction n)
  case (Suc n)
  then show ?case
    by (subst xarray_create.simps)
      (auto simp: XARRAY_SHIFT_BITS_def Let_def dest!: set_update_subset_insert [THEN subsetD])
qed (simp add: xarray_create.simps XARRAY_SHIFT_BITS_def wf_value)

lemma walk_create:
  "xarray_walk (xarray_create (6 * n) i v) j = (if j mod cap n = i mod cap n then v else 0)"
proof (induction n)
  case (Suc n)
  have "xarray_walk (xarray_create (6 * Suc n) i v) j =
      xarray_walk ((replicate 64 Null)[i div cap n mod 64 := xarray_create (6 * n) i v] ! (j div cap n mod 64)) j"
    by (subst xarray_create.simps) (simp add: XARRAY_SHIFT_BITS_def Let_def local_index)
  then show ?case
    using Suc unfolding digits_eq by (simp add: nth_list_update)
qed (simp add: xarray_create.simps XARRAY_SHIFT_BITS_def walk_value)

lemma wf_grow_step: "wf n e \<Longrightarrow> wf (Suc n) (Node (6 * n) m (e # replicate 63 Null))"
  by simp

lemma walk_grow_step:
  assumes "wf n e" "j < cap (Suc n)"
  shows "xarray_walk (Node (6 * n) m (e # replicate 63 Null)) j = (if j < cap n then xarray_walk e j else 0)"
proof -
  have lt: "j div cap n < 64"
    using assms(2) unfolding cap_Suc by (simp add: less_mult_imp_div_less mult.commute)
  have "j div cap n = 0 \<longleftrightarrow> j < cap n"
    by (simp add: div_eq_0_iff)
  then show ?thesis
    using lt by (cases "j div cap n") (auto simp: local_index)
qed

lemma grow_spec:
  "wf n e \<Longrightarrow> n \<le> m \<Longrightarrow> wf m (xarray_grow (6 * n) (6 * m) full e) \<and>
   (\<forall>j < cap m. xarray_walk (xarray_grow (6 * n) (6 * m) full e) j = (if j < cap n then xarray_walk e j else 0))"
proof (induction "m - n" arbitrary: n e full)
  case 0
  then show ?case by (subst (1 2) xarray_grow.simps) simp
next
  case (Suc k)
  let ?e = "Node (6 * n) (if full then 1 else 0) (e # replicate 63 Null)"
  have lt: "n < m" using Suc by linarith
  have eq: "xarray_grow (6 * n) (6 * m) full e = xarray_grow (6 * Suc n) (6 * m) False ?e"
    using lt by (subst xarray_grow.simps) (simp add: XARRAY_SHIFT_BITS_def add.commute)
  have ih: "wf m (xarray_grow (6 * Suc n) (6 * m) False ?e)"
    "\<forall>j < cap m. xarray_walk (xarray_grow (6 * Suc n) (6 * m) False ?e) j =
       (if j < cap (Suc n) then xarray_walk ?e j else 0)"
    using Suc.hyps(1) [of "Suc n" ?e False] Suc.hyps(2) wf_grow_step [OF Suc.prems(1)] lt by simp_all
  have sub: "j < cap (Suc n)" if "j < cap n" for j
    using that unfolding cap_Suc by simp
  have "xarray_walk (xarray_grow (6 * Suc n) (6 * m) False ?e) j = (if j < cap n then xarray_walk e j else 0)"
    if "j < cap m" for j
    using ih(2) [rule_format, OF that] walk_grow_step [OF Suc.prems(1), of j] sub [of j] by metis
  then show ?case
    unfolding eq using ih(1) by blast
qed

lemma grow_not_Null: "e \<noteq> Null \<Longrightarrow> xarray_grow c t f e \<noteq> Null"
proof (induction c t f e rule: xarray_grow.induct)
  case (1 c t f e)
  then show ?case by (subst xarray_grow.simps) simp
qed

lemma target_shift_spec:
  "\<exists>m. xarray_target_shift i (6 * t) = 6 * m \<and> i < cap m \<and> t \<le> m \<and> (t < m \<longrightarrow> cap (m - 1) \<le> i)"
proof (induction i "6 * t" arbitrary: t rule: xarray_target_shift.induct)
  case (1 i)
  show ?case
  proof (cases "cap t \<le> i")
    case True
    then obtain m where m: "xarray_target_shift i (6 * Suc t) = 6 * m" "i < cap m" "Suc t \<le> m"
      "Suc t < m \<longrightarrow> cap (m - 1) \<le> i"
      using 1 [of "Suc t"] by (auto simp: XARRAY_SHIFT_BITS_def)
    then have "cap (m - 1) \<le> i"
      using True by (cases "Suc t = m") auto
    then show ?thesis
      using m True by (intro exI [of _ m], subst xarray_target_shift.simps)
        (simp add: XARRAY_SHIFT_BITS_def add.commute)
  next
    case False
    then show ?thesis
      by (intro exI [of _ t], subst xarray_target_shift.simps) simp
  qed
qed

subsection \<open>Writing\<close>

definition set_ok :: "nat \<Rightarrow> xentry \<Rightarrow> nat \<Rightarrow> u64 \<Rightarrow> (u64 \<times> xentry \<times> bool) kres \<Rightarrow> bool" where
  "set_ok n e i v res \<longleftrightarrow> (\<exists>old e' up. res = Inr (old, e', up) \<and> wf n e' \<and> old = xarray_walk e i \<and>
     (\<forall>j. xarray_walk e' j = (if j mod cap n = i mod cap n then v else xarray_walk e j)))"

lemma set_entry_Node:
  assumes w: "wf (Suc n) (Node s m es)" and ok: "set_ok n (es ! (i div cap n mod 64)) i v
      (xarray_set_entry (6 * n) (es ! (i div cap n mod 64)) i v)"
  shows "set_ok (Suc n) (Node s m es) i v (xarray_set_entry s' (Node s m es) i v)"
proof -
  let ?i = "i div cap n mod 64"
  obtain old e' up where e': "xarray_set_entry (6 * n) (es ! ?i) i v = Inr (old, e', up)" "wf n e'"
    "old = xarray_walk (es ! ?i) i"
    "\<And>j. xarray_walk e' j = (if j mod cap n = i mod cap n then v else xarray_walk (es ! ?i) j)"
    using ok by (auto simp: set_ok_def)
  obtain m' up' where eq: "xarray_set_entry s' (Node s m es) i v = Inr (old, Node s m' (es[?i := e']), up')"
    using w e'(1) by (simp add: Let_def local_index)
  have len: "length es = 64" using w by simp
  have w': "wf (Suc n) (Node s m' (es[?i := e']))"
    using wf_update [OF w e'(2)] .
  have wk: "xarray_walk (Node s m' (es[?i := e'])) j =
      (if j mod cap (Suc n) = i mod cap (Suc n) then v else xarray_walk (Node s m es) j)" for j
    unfolding walk_Node [OF w'] walk_Node [OF w] digits_eq
    using e'(4) [of j] len by (simp add: nth_list_update)
  have old: "old = xarray_walk (Node s m es) i"
    unfolding walk_Node [OF w] by (rule e'(3))
  show ?thesis
    unfolding set_ok_def eq by (intro exI conjI allI, rule refl, rule w', rule old, rule wk)
qed

lemma set_entry_spec:
  "wf n e \<Longrightarrow> even v \<Longrightarrow> (e = Null \<Longrightarrow> s = 6 * n) \<Longrightarrow> set_ok n e i v (xarray_set_entry s e i v)"
proof (induction n e arbitrary: s rule: wf.induct)
  case (1 n)
  then show ?case
    by (auto simp: set_ok_def XARRAY_SHIFT_BITS_def wf_create walk_create)
next
  case (2 n old)
  then show ?case
    by (auto simp: set_ok_def wf_value walk_value)
next
  case (4 n shift m es)
  have "wf n (es ! (i div cap n mod 64))" "es ! (i div cap n mod 64) \<in> set es"
    using 4(2) by simp_all
  then show ?case
    using set_entry_Node [OF 4(2)] 4(1) [OF _ _ 4(3), of "es ! (i div cap n mod 64)" "6 * n"] by simp
qed simp

lemma raw_get_level:
  "wf n root \<Longrightarrow> xarray_raw_get root j = (if j < cap n then xarray_walk root j else 0)"
  by (cases "root = Null") (auto simp: xarray_raw_get_def wf_bound)

lemma raw_get_set_ok:
  assumes "set_ok n root i v (Inr (old, root', up))" "i < cap n"
  shows "xarray_ok root' \<and> (\<forall>j. xarray_raw_get root' j =
    (if j = i then v else if j < cap n then xarray_walk root j else 0)) \<and> old = xarray_walk root i"
  using assms raw_get_level [of n root'] unfolding set_ok_def xarray_ok_def by auto

lemma xarray_raw_set_spec:
  assumes ok: "xarray_ok root" and v: "even v"
  shows "\<exists>root'. xarray_raw_set root i v = Inr (xarray_raw_get root i, root') \<and> xarray_ok root' \<and>
    (\<forall>j. xarray_raw_get root' j = (if j = i then v else xarray_raw_get root j))"
proof (cases "xarray_is_in_bound root i")
  case True
  obtain n where n: "wf n root" "i < cap n" "root = Null \<Longrightarrow> n = 0"
    using ok True wf_bound unfolding xarray_ok_def
    by (cases "root = Null") (use wf.simps(1) [of 0] in force, blast)
  then have so: "set_ok n root i v (xarray_set_entry 0 root i v)"
    using set_entry_spec [OF n(1) v, of 0] by simp
  then obtain old root' up where r: "xarray_set_entry 0 root i v = Inr (old, root', up)"
    by (auto simp: set_ok_def)
  then show ?thesis
    using raw_get_set_ok [OF so [unfolded r] n(2)] True v raw_get_level [OF n(1)] n(2)
    by (auto simp: xarray_raw_set_def bit_0)
next
  case False
  show ?thesis
  proof (cases "v = 0")
    case True
    then show ?thesis
      using False ok by (auto simp: xarray_raw_set_def bit_0 xarray_raw_get_def)
  next
    case nz: False
    obtain n where n: "wf n root" "xarray_root_shift root = 6 * n" "cap n \<le> i"
      using ok False wf_bound wf_root_shift unfolding xarray_ok_def
      by (cases "root = Null") (use wf.simps(1) [of 0] in force, metis not_le)
    obtain m where m: "xarray_target_shift i 0 = 6 * m" "i < cap m" "m = 0 \<or> cap (m - 1) \<le> i"
      using target_shift_spec [of i 0] by auto
    have nm: "n < m"
    proof (rule ccontr)
      assume "\<not> n < m"
      then have "cap m \<le> cap n" by (simp add: power_increasing)
      then show False using m(2) n(3) by linarith
    qed
    let ?g = "xarray_grow (6 * n) (6 * m) (xarray_root_full root) root"
    have g: "wf m ?g" "\<And>j. j < cap m \<Longrightarrow> xarray_walk ?g j = (if j < cap n then xarray_walk root j else 0)"
      using grow_spec [OF n(1), of m] nm by auto
    have "?g \<noteq> Null"
      using nm by (subst xarray_grow.simps) (use grow_not_Null in \<open>simp add: XARRAY_SHIFT_BITS_def\<close>)
    then have so: "set_ok m ?g i v (xarray_set_entry 0 ?g i v)"
      using set_entry_spec [OF g(1) v, of 0] by simp
    then obtain old root' up where r: "xarray_set_entry 0 ?g i v = Inr (old, root', up)"
      by (auto simp: set_ok_def)
    have "xarray_raw_set root i v = Inr (old, root')"
      using False nz v n(2) m(1) nm r by (simp add: xarray_raw_set_def bit_0 Let_def)
    moreover have "j < cap m" if "j < cap n" for j
      using that nm power_increasing [of "6 * n" "6 * m" "2::nat"] by linarith
    ultimately show ?thesis
      using raw_get_set_ok [OF so [unfolded r] m(2)] g(2) raw_get_level [OF n(1)] n(3) m(2) by auto
  qed
qed

subsection \<open>Searching\<close>

lemma block_bound:
  assumes "i < 64" "k < cap n"
  shows "i * cap n + k < cap (Suc n)"
proof -
  have "cap n + i * cap n \<le> 64 * cap n"
    using assms(1) mult_le_mono1 [of "Suc i" 64 "cap n"] by simp
  then show ?thesis
    using assms(2) cap_Suc [of n] by linarith
qed

lemma walk_block:
  assumes "wf (Suc n) (Node s m es)" "i < 64" "k < cap n"
  shows "xarray_walk (Node s m es) (i * cap n + k) = xarray_walk (es ! i) k"
proof -
  have "(i * cap n + k) div cap n = i" "(i * cap n + k) mod cap n = k mod cap n"
    using assms(3) by simp_all
  then show ?thesis
    using walk_cong [of n "es ! i" "i * cap n + k" k] assms(2) wf_nth [OF assms(1,2)]
    unfolding walk_Node [OF assms(1)] by simp
qed

text \<open>\<open>first_in f lo hi r\<close>: \<open>r\<close> is the first index of \<open>[lo, hi)\<close> where \<open>f\<close> is not null, with its value.\<close>

definition first_in :: "(nat \<Rightarrow> u64) \<Rightarrow> nat \<Rightarrow> nat \<Rightarrow> (u64 \<times> nat) option \<Rightarrow> bool" where
  "first_in f lo hi r \<longleftrightarrow> (case r of
      None \<Rightarrow> \<forall>j. lo \<le> j \<and> j < hi \<longrightarrow> f j = 0
    | Some (v, j) \<Rightarrow> lo \<le> j \<and> j < hi \<and> v = f j \<and> v \<noteq> 0 \<and> (\<forall>k. lo \<le> k \<and> k < j \<longrightarrow> f k = 0))"

lemma first_in_empty: "hi \<le> lo \<Longrightarrow> first_in f lo hi None"
  by (auto simp: first_in_def)

lemma first_in_shift:
  assumes "first_in f lo c (Some (v, k))" "\<And>k. k < c \<Longrightarrow> g (b + k) = f k" "b + c \<le> hi"
  shows "first_in g (b + lo) hi (Some (v, k + b))"
proof -
  have f: "lo \<le> k" "k < c" "v = f k" "v \<noteq> 0" "\<And>i. lo \<le> i \<Longrightarrow> i < k \<Longrightarrow> f i = 0"
    using assms(1) by (auto simp: first_in_def)
  have "g i = 0" if "b + lo \<le> i" "i < k + b" for i
    using f(5) [of "i - b"] assms(2) [of "i - b"] f(2) that by auto
  then show ?thesis
    using f assms(2) [of k] assms(3) by (auto simp: first_in_def add.commute)
qed

lemma first_in_skip:
  assumes "first_in f lo c None" "\<And>k. k < c \<Longrightarrow> g (b + k) = f k" "first_in g (b + c) hi r"
    and "lo \<le> c"
  shows "first_in g (b + lo) hi r"
proof -
  have z: "g i = 0" if "b + lo \<le> i" "i < b + c" for i
    using assms(1) assms(2) [of "i - b"] that by (auto simp: first_in_def)
  have split: "g i = 0 \<or> b + c \<le> i" if "b + lo \<le> i" for i
    using z [OF that] by linarith
  show ?thesis
  proof (cases r)
    case None
    then show ?thesis
      using split assms(3) by (auto simp: first_in_def)
  next
    case (Some p)
    then show ?thesis
      using split assms(3,4) by (cases p) (auto simp: first_in_def)
  qed
qed

lemma find_loop_spec:
  assumes w: "wf (Suc n) (Node s m es)"
    and ok: "\<And>e mn. e \<in> set es \<Longrightarrow> first_in (xarray_walk e) (mn mod cap n) (cap n) (xarray_entry_find_non_null e mn)"
    and "i \<le> 64" "start = mn div cap n mod 64"
  shows "first_in (xarray_walk (Node s m es))
    (if i \<le> start then mn mod cap (Suc n) else i * cap n) (cap (Suc n))
    (xarray_find_loop (drop i es) i start s mn)"
  using assms(3)
proof (induction "64 - i" arbitrary: i)
  case 0
  have "length es = 64" "start < 64"
    using w assms(4) by simp_all
  moreover have "first_in (xarray_walk (Node s m es)) (64 * cap n) (cap (Suc n)) None"
    by (rule first_in_empty) (simp add: power_add)
  moreover have "i = 64" using 0 by simp
  ultimately show ?case
    by (simp del: xarray_walk.simps mult_Suc_right)
next
  case (Suc k)
  have i: "i < 64" and len: "length es = 64" and s: "s = 6 * n" and lt: "start < 64"
    using Suc w assms(4) by simp_all
  have dr: "drop i es = es ! i # drop (Suc i) es"
    using i len by (simp add: Cons_nth_drop_Suc)
  have ih: "first_in (xarray_walk (Node s m es))
      (if Suc i \<le> start then mn mod cap (Suc n) else Suc i * cap n) (cap (Suc n))
      (xarray_find_loop (drop (Suc i) es) (Suc i) start s mn)"
    using Suc by simp
  show ?case
  proof (cases "i < start")
    case True
    then show ?thesis
      using ih dr by simp
  next
    case False
    let ?mn = "if i = start then mn else 0"
    have lo: "(if i \<le> start then mn mod cap (Suc n) else i * cap n) = i * cap n + ?mn mod cap n"
      using False assms(4) digits [of mn n] by (simp add: mult.commute)
    have blk: "xarray_walk (Node s m es) (i * cap n + k) = xarray_walk (es ! i) k" if "k < cap n" for k
      using walk_block [OF w i that] .
    have hi: "i * cap n + cap n \<le> cap (Suc n)"
      using i mult_le_mono1 [of "Suc i" 64 "cap n"] unfolding cap_Suc by (simp add: mult.commute)
    have here: "first_in (xarray_walk (es ! i)) (?mn mod cap n) (cap n) (xarray_entry_find_non_null (es ! i) ?mn)"
      using ok i len by simp
    show ?thesis
    proof (cases "xarray_entry_find_non_null (es ! i) ?mn")
      case None
      have nx: "first_in (xarray_walk (Node s m es)) (i * cap n + cap n) (cap (Suc n))
          (xarray_find_loop (drop (Suc i) es) (Suc i) start s mn)"
        using ih False by (simp add: add.commute)
      have "first_in (xarray_walk (Node s m es)) (i * cap n + ?mn mod cap n) (cap (Suc n))
          (xarray_find_loop (drop (Suc i) es) (Suc i) start s mn)"
        by (rule first_in_skip [OF here [unfolded None] blk nx]) (simp_all add: less_imp_le)
      then show ?thesis
        unfolding lo dr using False None by simp
    next
      case (Some p)
      then obtain v j where p: "xarray_entry_find_non_null (es ! i) ?mn = Some (v, j)"
        by (cases p) auto
      have "first_in (xarray_walk (Node s m es)) (i * cap n + ?mn mod cap n) (cap (Suc n))
          (Some (v, j + i * cap n))"
        using first_in_shift [OF here [unfolded p] blk hi] .
      then show ?thesis
        unfolding lo dr using False p s by simp
    qed
  qed
qed

lemma find_non_null_spec:
  "wf n e \<Longrightarrow> first_in (xarray_walk e) (mn mod cap n) (cap n) (xarray_entry_find_non_null e mn)"
proof (induction n e arbitrary: mn rule: wf.induct)
  case (4 n s m es)
  have "first_in (xarray_walk e) (mn mod cap n) (cap n) (xarray_entry_find_non_null e mn)"
    if "e \<in> set es" for e mn
    using 4(1) [OF that] 4(2) that by simp
  from find_loop_spec [OF 4(2) this, of 0 "mn div cap n mod 64" mn] show ?case
    using 4(2) by (simp only: wf.simps xarray_entry_find_non_null.simps local_index drop_0 le0 if_True)
qed (auto simp: first_in_def)

subsection \<open>Allocating an index\<close>

lemma wf_chain: "even v \<Longrightarrow> wf n (xarray_allocate_chain (6 * n) i v)"
proof (induction n)
  case (Suc n)
  then show ?case
    by (subst xarray_allocate_chain.simps)
      (auto simp: XARRAY_SHIFT_BITS_def Let_def dest!: set_update_subset_insert [THEN subsetD])
qed (simp add: xarray_allocate_chain.simps XARRAY_SHIFT_BITS_def wf_value)

lemma walk_chain:
  "xarray_walk (xarray_allocate_chain (6 * n) i v) j = (if j mod cap n = i mod cap n then v else 0)"
proof (induction n)
  case (Suc n)
  have "xarray_walk (xarray_allocate_chain (6 * Suc n) i v) j =
      xarray_walk ((replicate 64 Null)[i div cap n mod 64 := xarray_allocate_chain (6 * n) i v] ! (j div cap n mod 64)) j"
    by (subst xarray_allocate_chain.simps) (simp add: XARRAY_SHIFT_BITS_def Let_def local_index)
  then show ?case
    using Suc unfolding digits_eq by (simp add: nth_list_update)
qed (simp add: xarray_allocate_chain.simps XARRAY_SHIFT_BITS_def walk_value)

definition alloc_ok :: "nat \<Rightarrow> xentry \<Rightarrow> u64 \<Rightarrow> xentry \<Rightarrow> nat \<Rightarrow> bool" where
  "alloc_ok n e v e' k \<longleftrightarrow> wf n e' \<and> k < cap n \<and> xarray_walk e k = 0 \<and>
     (\<forall>j. xarray_walk e' j = (if j mod cap n = k then v else xarray_walk e j))"

lemma allocate_loop_result:
  "xarray_allocate_loop es i 0 shift m 0 v = Some (i', e', k, f) \<Longrightarrow>
   i \<le> i' \<and> i' < i + length es \<and> xarray_entry_allocate (es ! (i' - i)) 0 shift v = Some (e', k, f)"
proof (induction es arbitrary: i)
  case (Cons e es)
  then show ?case
    by (fastforce split: if_splits option.splits simp: Suc_diff_le nth_Cons')
qed simp

lemma allocate_Node:
  assumes w: "wf (Suc n) (Node s m es)" and i: "i < 64" and ok: "alloc_ok n (es ! i) v e' k"
  shows "alloc_ok (Suc n) (Node s m es) v (Node s m' (es[i := e'])) (k + i * cap n)"
proof -
  have e': "wf n e'" "k < cap n" "xarray_walk (es ! i) k = 0"
    "\<And>j. xarray_walk e' j = (if j mod cap n = k then v else xarray_walk (es ! i) j)"
    using ok by (auto simp: alloc_ok_def)
  have len: "length es = 64" using w by simp
  have w': "wf (Suc n) (Node s m' (es[i := e']))" using wf_update [OF w e'(1)] .
  have d: "(k + i * cap n) div cap n = i" "(k + i * cap n) mod cap n = k"
    using e'(2) by simp_all
  have lt: "k + i * cap n < cap (Suc n)"
    using block_bound [OF i e'(2)] by (simp only: add.commute)
  have z: "xarray_walk (Node s m es) (k + i * cap n) = 0"
    using walk_block [OF w i e'(2)] e'(3) by (simp only: add.commute)
  have eq: "j mod cap (Suc n) = k + i * cap n \<longleftrightarrow> j div cap n mod 64 = i \<and> j mod cap n = k" for j
    using digits_eq [of j n "k + i * cap n"] d i mod_less [OF lt] by simp
  have "xarray_walk (Node s m' (es[i := e'])) j =
      (if j mod cap (Suc n) = k + i * cap n then v else xarray_walk (Node s m es) j)" for j
    unfolding walk_Node [OF w'] walk_Node [OF w] eq
    using e'(4) [of j] len i by (auto simp: nth_list_update)
  then show ?thesis
    unfolding alloc_ok_def using w' lt z by blast
qed

lemma entry_allocate_spec:
  "wf n e \<Longrightarrow> even v \<Longrightarrow> (e = Null \<Longrightarrow> p = 6 * n) \<Longrightarrow> xarray_entry_allocate e 0 p v = Some (e', k, f) \<Longrightarrow>
   alloc_ok n e v e' k"
proof (induction n e arbitrary: p e' k f rule: wf.induct)
  case (1 n)
  then show ?case
    by (auto simp: alloc_ok_def wf_chain walk_chain)
next
  case (4 n s m es)
  then obtain i e2 k2 f2 m' where r: "xarray_allocate_loop es 0 0 s m 0 v = Some (i, e2, k2, f2)"
    "e' = Node s m' (es[i := e2])" "k = k2 + i * 2 ^ s"
    by (auto simp: xarray_node_get_local_index_def Let_def split: if_splits option.splits)
  have i: "i < 64" "s = 6 * n" "xarray_entry_allocate (es ! i) 0 (6 * n) v = Some (e2, k2, f2)"
    using allocate_loop_result [OF r(1)] 4(2) by simp_all
  have "es ! i \<in> set es" "wf n (es ! i)"
    using i(1) 4(2) by simp_all
  then have "alloc_ok n (es ! i) v e2 k2"
    using 4(1) [OF _ _ 4(3), of "es ! i" "6 * n"] i(3) by blast
  then show ?case
    using allocate_Node [OF 4(2) i(1)] r i(2) by simp
qed simp_all

lemma xarray_allocate_spec:
  assumes ok: "xarray_ok root" and v: "even v"
  shows "\<exists>index root'. xarray_allocate stale root v = Inr (index, root') \<and> xarray_ok root' \<and>
    xarray_raw_get root index = 0 \<and>
    (\<forall>j. xarray_raw_get root' j = (if j = index then v else xarray_raw_get root j))"
proof -
  obtain n where n: "wf n root" "root = Null \<Longrightarrow> n = 0"
    using ok unfolding xarray_ok_def by (cases "root = Null") (use wf.simps(1) in blast)+
  have b: "xarray_is_in_bound root 0"
    by (cases root) auto
  show ?thesis
  proof (cases "xarray_entry_allocate root 0 0 v")
    case (Some r)
    then obtain root' k f where r: "xarray_entry_allocate root 0 0 v = Some (root', k, f)"
      by (cases r) auto
    have "alloc_ok n root v root' k"
      using entry_allocate_spec [OF n(1) v _ r] n(2) by simp
    then show ?thesis
      using r b v raw_get_level [OF n(1)] raw_get_level [of n root']
      by (auto simp: xarray_allocate_def bit_0 xarray_raw_allocate_from_def alloc_ok_def xarray_ok_def)
  next
    case None
    then have nn: "root \<noteq> Null" by auto
    let ?c = "xarray_allocate_chain (6 * n) 0 v"
    let ?r = "Node (6 * n) (if stale then 1 else 0) (root # ?c # replicate 62 Null)"
    have w: "wf (Suc n) ?r"
      using n(1) wf_chain [OF v] by simp
    have r: "xarray_allocate stale root v = Inr (cap n, ?r)"
      using None b v wf_root_shift [OF n(1) nn]
      by (simp add: xarray_allocate_def bit_0 xarray_raw_allocate_from_def Let_def)
    have "xarray_raw_get ?r j = (if j = cap n then v else xarray_raw_get root j)" for j
    proof -
      have lt: "j < cap (Suc n) \<longleftrightarrow> j div cap n < 64"
        unfolding cap_Suc by (simp add: div_less_iff_less_mult mult.commute)
      consider "j div cap n = 0" | "j div cap n = 1" | "2 \<le> j div cap n" by linarith
      then show ?thesis
      proof cases
        case 1
        then have "j < cap n" by (simp add: div_eq_0_iff)
        then show ?thesis
          unfolding raw_get_level [OF w] raw_get_level [OF n(1)] walk_Node [OF w] lt using 1 by simp
      next
        case 2
        then have "cap n \<le> j" "j mod cap n = 0 \<longleftrightarrow> j = cap n"
          using div_mult_mod_eq [of j "cap n"] by auto
        then show ?thesis
          unfolding raw_get_level [OF w] raw_get_level [OF n(1)] walk_Node [OF w] lt
          using 2 by (simp add: walk_chain)
      next
        case 3
        then have "\<not> j < cap n" "j \<noteq> cap n" by auto
        moreover have "(root # ?c # replicate 62 Null) ! (j div cap n mod 64) = Null" if "j div cap n < 64"
          using that 3 by (auto simp: nth_Cons')
        ultimately show ?thesis
          unfolding raw_get_level [OF w] raw_get_level [OF n(1)] walk_Node [OF w] lt by simp
      qed
    qed
    moreover have "xarray_ok ?r" "xarray_raw_get root (cap n) = 0"
      using w raw_get_level [OF n(1)] unfolding xarray_ok_def by (blast, simp)
    ultimately show ?thesis
      using r by blast
  qed
qed

subsection \<open>The contract of an index map\<close>

text \<open>What the file descriptor tables, the page caches and the process table rely on.\<close>

locale index_map =
  fixes ok :: "'m \<Rightarrow> bool"
    and get :: "'m \<Rightarrow> nat \<Rightarrow> u64"
    and set :: "'m \<Rightarrow> nat \<Rightarrow> u64 \<Rightarrow> (u64 \<times> 'm) kres"
  assumes set_law: "ok m \<Longrightarrow> even v \<Longrightarrow> i < 2 ^ 60 \<Longrightarrow>
    \<exists>m'. set m i v = Inr (get m i, m') \<and> ok m' \<and> get m' = (get m)(i := v)"
begin

lemma set_twice:
  assumes "ok m" "even v" "even w" "i < 2 ^ 60"
  shows "\<exists>m' m''. set m i v = Inr (get m i, m') \<and> set m' i w = Inr (v, m'') \<and> get m'' = (get m)(i := w)"
proof -
  obtain m' where m': "set m i v = Inr (get m i, m')" "ok m'" "get m' = (get m)(i := v)"
    using set_law [OF assms(1,2,4)] by blast
  obtain m'' where "set m' i w = Inr (get m' i, m'')" "get m'' = (get m')(i := w)"
    using set_law [OF m'(2) assms(3,4)] by blast
  then show ?thesis
    using m' by auto
qed

end

fun xarray_sets :: "(nat \<times> u64) list \<Rightarrow> xentry \<Rightarrow> xentry kres" where
  "xarray_sets [] root = Inr root"
| "xarray_sets ((i, v) # ws) root = kbind (xarray_raw_set root i v) (\<lambda>(old, root'). xarray_sets ws root')"

interpretation xarrays: index_map xarray_ok xarray_raw_get xarray_raw_set
proof unfold_locales
  fix m and v :: u64 and i :: nat
  assume "xarray_ok m" "even v"
  from xarray_raw_set_spec [OF this, of i] obtain m'
    where "xarray_raw_set m i v = Inr (xarray_raw_get m i, m')" "xarray_ok m'"
      "\<forall>j. xarray_raw_get m' j = (if j = i then v else xarray_raw_get m j)"
    by blast
  then show "\<exists>m'. xarray_raw_set m i v = Inr (xarray_raw_get m i, m') \<and> xarray_ok m' \<and>
      xarray_raw_get m' = (xarray_raw_get m)(i := v)"
    by (intro exI [of _ m']) (simp add: fun_eq_iff)
qed

lemma xarray_sets_refine:
  "xarray_ok root \<Longrightarrow> (\<And>i v. (i, v) \<in> set ws \<Longrightarrow> even v \<and> i < 2 ^ 60) \<Longrightarrow>
   \<exists>root'. xarray_sets ws root = Inr root' \<and> xarray_ok root' \<and>
     xarray_raw_get root' = fold (\<lambda>(i, v) f. f(i := v)) ws (xarray_raw_get root)"
proof (induction ws arbitrary: root)
  case (Cons w ws)
  obtain i v where w: "w = (i, v)" by force
  have "even v" "i < 2 ^ 60" using Cons.prems(2) [of i v] w by auto
  then obtain r1 where r1: "xarray_raw_set root i v = Inr (xarray_raw_get root i, r1)" "xarray_ok r1"
    "xarray_raw_get r1 = (xarray_raw_get root)(i := v)"
    using xarrays.set_law [OF Cons.prems(1)] by blast
  from Cons.IH [OF r1(2)] Cons.prems(2) show ?case
    using r1 w by auto
qed auto

subsection \<open>Properties\<close>

text \<open>C17: Starting from any well-formed array, a sequence of \<^verbatim>\<open>xarray_raw_set\<close> calls with aligned
  values at indices below \<open>2 ^ 60\<close> never fails an assertion, and the array then reads at every
  index what the corresponding sequence of updates of a function from indices to values gives.\<close>

theorem xarray_sets_correct:
  assumes "xarray_ok root" "\<forall>(i, v) \<in> set ws. even v \<and> i < 2 ^ 60"
  shows "\<exists>root'. xarray_sets ws root = Inr root' \<and> xarray_ok root' \<and>
     xarray_raw_get root' = fold (\<lambda>(i, v) f. f(i := v)) ws (xarray_raw_get root)"
  using xarray_sets_refine [OF assms(1), of ws] assms(2) by auto

lemma xarray_init_ok: "xarray_ok xarray_init" "xarray_raw_get xarray_init = (\<lambda>_. 0)"
proof -
  have "wf 0 xarray_init" by (simp add: xarray_init_def)
  then show "xarray_ok xarray_init" unfolding xarray_ok_def by blast
qed (simp add: fun_eq_iff xarray_raw_get_def xarray_init_def)

theorem xarray_sets_correct_witness:
  "\<exists>root'. xarray_sets [(3, 8), (5000, 6), (3, 0)] xarray_init = Inr root' \<and>
     xarray_raw_get root' 5000 = 6 \<and> xarray_raw_get root' 3 = 0 \<and> xarray_raw_get root' 70000 = 0"
  using xarray_sets_correct [OF xarray_init_ok(1), of "[(3, 8), (5000, 6), (3, 0)]"]
  by (auto simp: xarray_init_ok(2))

text \<open>C18: \<^verbatim>\<open>xarray_raw_set\<close> returns the previous value, \<^verbatim>\<open>xarray_raw_cmpxchg\<close> returns it too and
  writes exactly when it equals the expected one; a misaligned value is refused by the
  assertion.\<close>

theorem xarray_cmpxchg_correct:
  assumes "xarray_ok root" "i < 2 ^ 60"
  shows "(odd v \<longrightarrow> xarray_raw_cmpxchg root i e v = Inl KPanic) \<and>
    (even v \<longrightarrow> (\<exists>root'. xarray_raw_cmpxchg root i e v = Inr (xarray_raw_get root i, root') \<and> xarray_ok root' \<and>
      xarray_raw_get root' =
        (if xarray_raw_get root i = e then (xarray_raw_get root)(i := v) else xarray_raw_get root)))"
proof (cases "even v")
  case True
  then show ?thesis
    using xarrays.set_law [OF assms(1) True assms(2)] assms(1)
    by (cases "xarray_raw_get root i = e") (auto simp: xarray_raw_cmpxchg_def bit_0 Let_def)
qed (simp add: xarray_raw_cmpxchg_def bit_0)

theorem xarray_cmpxchg_correct_witness:
  "\<exists>root'. xarray_raw_cmpxchg xarray_init 7 0 4 = Inr (0, root') \<and> xarray_raw_get root' 7 = 4"
  using xarray_cmpxchg_correct [OF xarray_init_ok(1), of 7 4 0] by (auto simp: xarray_init_ok(2))

text \<open>C20: \<^verbatim>\<open>xarray_first_from\<close> returns the first index from the given one on with a value, and that
  value, or nothing when there is none. So \<^verbatim>\<open>xarray_foreach\<close> skips no value.\<close>

theorem xarray_first_from_least:
  assumes "xarray_ok root"
  shows "case xarray_raw_first_from root from of
      None \<Rightarrow> \<forall>j\<ge>from. xarray_raw_get root j = 0
    | Some (v, j) \<Rightarrow> from \<le> j \<and> v = xarray_raw_get root j \<and> v \<noteq> 0 \<and>
        (\<forall>k. from \<le> k \<and> k < j \<longrightarrow> xarray_raw_get root k = 0)"
proof -
  obtain n where n: "wf n root" "root = Null \<Longrightarrow> n = 0"
    using assms unfolding xarray_ok_def by (cases "root = Null") (use wf.simps(1) in blast)+
  have b: "xarray_is_in_bound root from \<longleftrightarrow> from < cap n"
    using wf_bound [OF n(1)] n(2) by (cases "root = Null") auto
  show ?thesis
  proof (cases "from < cap n")
    case True
    then have "first_in (xarray_walk root) from (cap n) (xarray_entry_find_non_null root from)"
      using find_non_null_spec [OF n(1), of "from"] by simp
    then show ?thesis
      using True b raw_get_level [OF n(1)]
      by (auto simp: xarray_raw_first_from_def first_in_def split: option.splits)
  next
    case False
    then show ?thesis
      using b raw_get_level [OF n(1)] by (simp add: xarray_raw_first_from_def)
  qed
qed

theorem xarray_first_from_least_witness:
  "xarray_raw_first_from (Value 8) 0 = Some (8, 0)"
proof -
  have "wf 0 (Value 8)" by simp
  then have "xarray_ok (Value 8)" unfolding xarray_ok_def by blast
  from xarray_first_from_least [OF this, of 0] show ?thesis
    by (simp add: xarray_raw_first_from_def)
qed

text \<open>C19: \<^verbatim>\<open>xarray_allocate\<close>, which searches from index 0, returns an index that was free, stores the
  value there and changes no other index, whatever the uninitialised flag holds.\<close>

theorem xarray_allocate_fresh:
  assumes "xarray_ok root" "even v"
  shows "\<exists>index root'. xarray_allocate stale root v = Inr (index, root') \<and> xarray_ok root' \<and>
    xarray_raw_get root index = 0 \<and> xarray_raw_get root' = (xarray_raw_get root)(index := v)"
  using xarray_allocate_spec [OF assms, of stale] by (auto simp: fun_eq_iff)

theorem xarray_allocate_fresh_witness:
  "\<exists>index root'. xarray_allocate False (Value 8) 4 = Inr (index, root') \<and> index \<noteq> 0 \<and> xarray_raw_get root' index = 4"
proof -
  have "wf 0 (Value 8)" by simp
  then have "xarray_ok (Value 8)" unfolding xarray_ok_def by blast
  then obtain index root' where r: "xarray_allocate False (Value 8) 4 = Inr (index, root')"
    "xarray_raw_get (Value 8) index = 0" "xarray_raw_get root' = (xarray_raw_get (Value 8))(index := 4)"
    using xarray_allocate_fresh [of "Value 8" 4 False] by auto
  have "index \<noteq> 0"
    using r(2) by (auto simp: xarray_raw_get_def split: if_splits)
  then show ?thesis
    using r(1,3) by auto
qed


end
