(* ===== verification/Unicode.thy ===== *)
theory Unicode
  imports Prelude
begin

section \<open>The UTF-8 and UTF-16 codecs\<close>

text \<open>
  Models \<^verbatim>\<open>kernel/klib/unicode.c\<close>. A buffer and its count are a list; a decoder returns the code point
  and the number of units it used, an encoder the units it writes. The \<^verbatim>\<open>while\<close> loops over a
  buffer run with fuel equal to the number of units, since each round uses at least one; running
  out of fuel is \<open>None\<close>. A null output pointer only drops the output and is not a case here.

  The locale \<open>char_codec\<close> is the contract of a codec: on its valid code points decoding inverts
  encoding. UTF-8 meets it on all scalar values, UTF-16 on the basic plane only.
\<close>

unbundle bit_operations_syntax

definition utf8_decode_char :: "byte list \<Rightarrow> errno + (int \<times> nat)" where
  "utf8_decode_char data =
     (let count = length data; d = (\<lambda>i. uint (data ! i)) in
      if count = 0 then Inr (0, 0)
      else if d 0 \<le> 0x7f then Inr (d 0, 1)
      else if d 0 \<le> 0xc1 then Inl EILSEQ
      else if d 0 \<le> 0xdf then
        (if count < 2 then Inl EILSEQ
         else if (d 1 AND 0xc0) \<noteq> 0x80 then Inl EILSEQ
         else let decoded = push_bit 6 (d 0 AND 0x1f) OR (d 1 AND 0x3f) in
           if decoded \<le> 0x7f then Inl EILSEQ else Inr (decoded, 2))
      else if d 0 \<le> 0xef then
        (if count < 3 then Inl EILSEQ
         else if (d 1 AND 0xc0) \<noteq> 0x80 then Inl EILSEQ
         else if (d 2 AND 0xc0) \<noteq> 0x80 then Inl EILSEQ
         else let decoded = (push_bit 12 (d 0 AND 0x0f) OR push_bit 6 (d 1 AND 0x3f)) OR (d 2 AND 0x3f) in
           if decoded \<le> 0x7ff then Inl EILSEQ
           else if decoded \<ge> 0xd800 \<and> decoded \<le> 0xdfff then Inl EILSEQ
           else Inr (decoded, 3))
      else if d 0 \<le> 0xf7 then
        (if count < 4 then Inl EILSEQ
         else if (d 1 AND 0xc0) \<noteq> 0x80 then Inl EILSEQ
         else if (d 2 AND 0xc0) \<noteq> 0x80 then Inl EILSEQ
         else if (d 3 AND 0xc0) \<noteq> 0x80 then Inl EILSEQ
         else let decoded = ((push_bit 18 (d 0 AND 0x07) OR push_bit 12 (d 1 AND 0x3f)) OR push_bit 6 (d 2 AND 0x3f))
                OR (d 3 AND 0x3f) in
           if decoded \<le> 0xffff then Inl EILSEQ
           else if decoded > 0x10ffff then Inl EILSEQ
           else Inr (decoded, 4))
      else Inl EILSEQ)"

definition utf8_encode_char :: "int \<Rightarrow> errno + byte list" where
  "utf8_encode_char codepoint =
     (if codepoint < 0 then Inl EINVAL
      else if codepoint \<le> 0x7f then Inr [word_of_int codepoint]
      else if codepoint \<le> 0x7ff then
        Inr [word_of_int (0xc0 OR (drop_bit 6 codepoint AND 0x1f)), word_of_int (0x80 OR (codepoint AND 0x3f))]
      else if codepoint \<le> 0xffff then
        (if codepoint \<ge> 0xd800 \<and> codepoint \<le> 0xdfff then Inl EINVAL
         else Inr [word_of_int (0xe0 OR (drop_bit 12 codepoint AND 0x0f)),
                   word_of_int (0x80 OR (drop_bit 6 codepoint AND 0x3f)),
                   word_of_int (0x80 OR (codepoint AND 0x3f))])
      else if codepoint \<le> 0x10ffff then
        Inr [word_of_int (0xf0 OR (drop_bit 18 codepoint AND 0x07)),
             word_of_int (0x80 OR (drop_bit 12 codepoint AND 0x3f)),
             word_of_int (0x80 OR (drop_bit 6 codepoint AND 0x3f)),
             word_of_int (0x80 OR (codepoint AND 0x3f))]
      else Inl EINVAL)"

definition utf16_decode_char :: "u16 list \<Rightarrow> errno + (int \<times> nat)" where
  "utf16_decode_char data =
     (let count = length data; d = (\<lambda>i. uint (data ! i)) in
      if count = 0 then Inr (0, 0)
      else if d 0 \<le> 0xd7ff then Inr (d 0, 1)
      else if d 0 \<le> 0xdbff then
        (if count < 2 then Inl EILSEQ
         else if (d 1 AND 0xfc00) \<noteq> 0xdc00 then Inl EILSEQ
         else Inr ((push_bit 10 (d 0 AND 0x3ff) OR (d 1 AND 0x3ff)) + 0x10000, 2))
      else if d 0 \<le> 0xdfff then Inl EILSEQ
      else Inr (d 0, 1))"

definition utf16_encode_char :: "int \<Rightarrow> errno + u16 list" where
  "utf16_encode_char codepoint =
     (if codepoint < 0 then Inl EINVAL
      else if codepoint \<le> 0xd7ff then Inr [word_of_int codepoint]
      else if codepoint \<le> 0xdfff then Inl EINVAL
      else if codepoint \<le> 0xffff then Inr [word_of_int codepoint]
      else if codepoint \<le> 0x10ffff then
        (let c = codepoint - 0x10000 in
         Inr [word_of_int (0xdc00 + (c AND 0x3ff)), word_of_int (0xd800 + (drop_bit 10 c AND 0x3ff))])
      else Inl EINVAL)"

text \<open>The loops of the four buffer functions, for a codec given by its functions on characters.\<close>

fun decode_loop :: "('u list \<Rightarrow> errno + (int \<times> nat)) \<Rightarrow> nat \<Rightarrow> 'u list \<Rightarrow> (errno + int list) option" where
  "decode_loop dec fuel [] = Some (Inr [])"
| "decode_loop dec 0 (u # us) = None"
| "decode_loop dec (Suc fuel) (u # us) =
     (case dec (u # us) of
        Inl e \<Rightarrow> Some (Inl e)
      | Inr (c, n) \<Rightarrow>
          (case decode_loop dec fuel (drop n (u # us)) of
             None \<Rightarrow> None
           | Some (Inl e) \<Rightarrow> Some (Inl e)
           | Some (Inr cs) \<Rightarrow> Some (Inr (c # cs))))"

fun encode_loop :: "(int \<Rightarrow> errno + 'u list) \<Rightarrow> int list \<Rightarrow> errno + 'u list" where
  "encode_loop enc [] = Inr []"
| "encode_loop enc (c # cs) =
     (case enc c of
        Inl e \<Rightarrow> Inl e
      | Inr us \<Rightarrow> (case encode_loop enc cs of Inl e \<Rightarrow> Inl e | Inr vs \<Rightarrow> Inr (us @ vs)))"

text \<open>Transcoding stops after a null character.\<close>

fun transcode_loop ::
    "('u list \<Rightarrow> errno + (int \<times> nat)) \<Rightarrow> (int \<Rightarrow> errno + 'v list) \<Rightarrow> nat \<Rightarrow> 'u list \<Rightarrow> (errno + 'v list) option" where
  "transcode_loop dec enc fuel [] = Some (Inr [])"
| "transcode_loop dec enc 0 (u # us) = None"
| "transcode_loop dec enc (Suc fuel) (u # us) =
     (case dec (u # us) of
        Inl e \<Rightarrow> Some (Inl e)
      | Inr (c, n) \<Rightarrow>
          (case enc c of
             Inl e \<Rightarrow> Some (Inl e)
           | Inr vs \<Rightarrow>
               if c = 0 then Some (Inr vs)
               else (case transcode_loop dec enc fuel (drop n (u # us)) of
                       None \<Rightarrow> None
                     | Some (Inl e) \<Rightarrow> Some (Inl e)
                     | Some (Inr ws) \<Rightarrow> Some (Inr (vs @ ws)))))"

definition utf8_decode_buf :: "byte list \<Rightarrow> (errno + int list) option" where
  "utf8_decode_buf data = decode_loop utf8_decode_char (length data) data"

definition utf8_encode_buf :: "int list \<Rightarrow> errno + byte list" where
  "utf8_encode_buf codepoints = encode_loop utf8_encode_char codepoints"

definition utf16_decode_buf :: "u16 list \<Rightarrow> (errno + int list) option" where
  "utf16_decode_buf data = decode_loop utf16_decode_char (length data) data"

definition utf16_encode_buf :: "int list \<Rightarrow> errno + u16 list" where
  "utf16_encode_buf codepoints = encode_loop utf16_encode_char codepoints"

definition utf16_to_utf8 :: "u16 list \<Rightarrow> (errno + byte list) option" where
  "utf16_to_utf8 utf16 = transcode_loop utf16_decode_char utf8_encode_char (length utf16) utf16"

definition utf8_to_utf16 :: "byte list \<Rightarrow> (errno + u16 list) option" where
  "utf8_to_utf16 utf8 = transcode_loop utf8_decode_char utf16_encode_char (length utf8) utf8"

subsection \<open>Bit fields as arithmetic\<close>

lemma or_low: "0 \<le> y \<Longrightarrow> y < 2 ^ k \<Longrightarrow> push_bit k a OR y = a * 2 ^ k + (y::int)"
proof -
  assume y: "0 \<le> y" "y < 2 ^ k"
  have "concat_bit k y a = y + a * 2 ^ k"
    using y by (simp add: concat_bit_eq push_bit_eq_mult take_bit_int_eq_self)
  moreover have "concat_bit k y a = y OR push_bit k a"
    using y by (simp add: concat_bit_def take_bit_int_eq_self)
  ultimately show ?thesis
    by (simp add: or.commute add.commute)
qed

lemma and_low: "(x::int) AND (2 ^ k - 1) = x mod 2 ^ k"
  by (simp add: take_bit_eq_mask [symmetric] mask_eq_exp_minus_1 [symmetric] take_bit_eq_mod)

lemma and_high: "(b::int) AND push_bit k m = push_bit k (drop_bit k b AND m)"
  by (rule bit_eqI) (auto simp: bit_simps)

lemma masks:
  "(x::int) AND 0x07 = x mod 8" "x AND 0x0f = x mod 16" "x AND 0x1f = x mod 32"
  "x AND 0x3f = x mod 64" "x AND 0x3ff = x mod 1024"
  "x AND 0xc0 = (x div 64 mod 4) * 64" "x AND 0xfc00 = (x div 1024 mod 64) * 1024"
proof -
  show "x AND 0x07 = x mod 8" "x AND 0x0f = x mod 16" "x AND 0x1f = x mod 32"
    "x AND 0x3f = x mod 64" "x AND 0x3ff = x mod 1024"
    using and_low [of x 3] and_low [of x 4] and_low [of x 5] and_low [of x 6] and_low [of x 10] by simp_all
  show "x AND 0xc0 = (x div 64 mod 4) * 64"
    using and_high [of x 6 3] and_low [of "x div 64" 2] by (simp add: push_bit_eq_mult drop_bit_eq_div)
  show "x AND 0xfc00 = (x div 1024 mod 64) * 1024"
    using and_high [of x 10 63] and_low [of "x div 1024" 6] by (simp add: push_bit_eq_mult drop_bit_eq_div)
qed

lemma digit_div: "0 \<le> r \<Longrightarrow> r < d \<Longrightarrow> (k * d + r) div d = (k::int)"
  and digit_mod: "0 \<le> r \<Longrightarrow> r < d \<Longrightarrow> (k * d + r) mod d = (r::int)"
  by simp_all

lemma uint_byte: "0 \<le> k \<Longrightarrow> k < 256 \<Longrightarrow> uint (word_of_int k :: byte) = k"
  by (simp add: uint_word_of_int_eq take_bit_int_eq_self)

lemma uint_u16: "0 \<le> k \<Longrightarrow> k < 65536 \<Longrightarrow> uint (word_of_int k :: u16) = k"
  by (simp add: uint_word_of_int_eq take_bit_int_eq_self)

text \<open>Leading and continuation units.\<close>

lemma lead_units:
  "0 \<le> y \<Longrightarrow> y < 64 \<Longrightarrow> 0x80 OR y = 0x80 + (y::int)"
  "0 \<le> y \<Longrightarrow> y < 32 \<Longrightarrow> 0xc0 OR y = 0xc0 + (y::int)"
  "0 \<le> y \<Longrightarrow> y < 16 \<Longrightarrow> 0xe0 OR y = 0xe0 + (y::int)"
  "0 \<le> y \<Longrightarrow> y < 8 \<Longrightarrow> 0xf0 OR y = 0xf0 + (y::int)"
  using or_low [of y 6 2] or_low [of y 5 6] or_low [of y 4 14] or_low [of y 3 30]
  by (simp_all add: push_bit_eq_mult)

lemma fields2: "0 \<le> r \<Longrightarrow> r < 64 \<Longrightarrow> push_bit 6 q OR r = q * 64 + (r::int)"
  using or_low [of r 6 q] by simp

lemma fields3:
  "0 \<le> q \<Longrightarrow> q < 64 \<Longrightarrow> 0 \<le> r \<Longrightarrow> r < 64 \<Longrightarrow>
   (push_bit 12 p OR push_bit 6 q) OR r = p * 4096 + q * 64 + (r::int)"
proof -
  assume a: "0 \<le> q" "q < 64" "0 \<le> r" "r < 64"
  have "push_bit 12 p OR push_bit 6 q = push_bit 6 (push_bit 6 p OR q)"
    by (simp add: push_bit_or)
  then show ?thesis
    using fields2 [OF a(1,2), of p] fields2 [OF a(3,4), of "p * 64 + q"] by simp
qed

lemma fields4:
  "0 \<le> p \<Longrightarrow> p < 64 \<Longrightarrow> 0 \<le> q \<Longrightarrow> q < 64 \<Longrightarrow> 0 \<le> r \<Longrightarrow> r < 64 \<Longrightarrow>
   ((push_bit 18 m OR push_bit 12 p) OR push_bit 6 q) OR r = m * 262144 + p * 4096 + q * 64 + (r::int)"
proof -
  assume a: "0 \<le> p" "p < 64" "0 \<le> q" "q < 64" "0 \<le> r" "r < 64"
  have "(push_bit 18 m OR push_bit 12 p) OR push_bit 6 q = push_bit 6 ((push_bit 12 m OR push_bit 6 p) OR q)"
    by (simp add: push_bit_or)
  then show ?thesis
    using fields3 [OF a(1-4), of m] fields2 [OF a(5,6), of "m * 4096 + p * 64 + q"] by simp
qed

abbreviation cont :: "int \<Rightarrow> byte" where
  "cont r \<equiv> word_of_int (0x80 + r)"

lemma uint_cont: "0 \<le> r \<Longrightarrow> r < 64 \<Longrightarrow> uint (cont r) = 128 + r"
  using uint_byte [of "128 + r"] by simp

lemma cont_mask: "0 \<le> r \<Longrightarrow> r < 64 \<Longrightarrow> (uint (cont r) AND 0xc0) = 0x80 \<and> (uint (cont r) AND 0x3f) = r"
proof -
  assume r: "0 \<le> r" "r < 64"
  have "(128 + r) div 64 = 2" "(128 + r) mod 64 = r"
    using digit_div [OF r, of 2] digit_mod [OF r, of 2] by simp_all
  then show ?thesis
    unfolding uint_cont [OF r] masks by simp
qed

lemma cont_inv:
  assumes "(uint b AND 0xc0) = 0x80"
  shows "\<exists>r. 0 \<le> r \<and> r < 64 \<and> b = cont r"
proof -
  have b: "0 \<le> uint b" "uint b < 256"
    using uint_lt2p [of b] by simp_all
  then have "uint b div 64 < 4" "0 \<le> uint b div 64"
    by (simp_all add: div_less_iff_less_mult pos_imp_zdiv_nonneg_iff)
  then have "uint b div 64 = 2"
    using assms unfolding masks by simp
  then have "uint b = 128 + uint b mod 64"
    using div_mult_mod_eq [of "uint b" 64] by simp
  then have "b = cont (uint b mod 64)"
    by (metis word_of_int_uint)
  then show ?thesis
    by (intro exI [of _ "uint b mod 64"]) simp
qed

subsection \<open>UTF-8, width by width\<close>

lemma utf8_decode1: "0 \<le> c \<Longrightarrow> c \<le> 0x7f \<Longrightarrow> utf8_decode_char (word_of_int c # rest) = Inr (c, 1)"
  using uint_byte [of c] by (simp add: utf8_decode_char_def)

lemma utf8_decode2:
  assumes "2 \<le> q" "q < 32" "0 \<le> r" "r < 64"
  shows "utf8_decode_char (word_of_int (0xc0 + q) # cont r # rest) = Inr (q * 64 + r, 2)"
proof -
  have "uint (word_of_int (0xc0 + q) :: byte) = 192 + q" "(192 + q) mod 32 = q"
    using uint_byte [of "192 + q"] digit_mod [of q 32 6] assms by simp_all
  then show ?thesis
    using assms cont_mask [OF assms(3,4)] fields2 [OF assms(3,4), of q]
    by (simp add: utf8_decode_char_def Let_def masks(3))
qed

lemma utf8_decode3:
  assumes "0 \<le> p" "p < 16" "0 \<le> q" "q < 64" "0 \<le> r" "r < 64"
  shows "utf8_decode_char (word_of_int (0xe0 + p) # cont q # cont r # rest) =
    (let c = p * 4096 + q * 64 + r in
     if c \<le> 0x7ff \<or> 0xd800 \<le> c \<and> c \<le> 0xdfff then Inl EILSEQ else Inr (c, 3))"
proof -
  have "uint (word_of_int (0xe0 + p) :: byte) = 224 + p" "(224 + p) mod 16 = p"
    using uint_byte [of "224 + p"] digit_mod [of p 16 14] assms by simp_all
  then show ?thesis
    using assms cont_mask [OF assms(3,4)] cont_mask [OF assms(5,6)] fields3 [OF assms(3-6), of p]
    by (simp add: utf8_decode_char_def Let_def masks(2))
qed

lemma utf8_decode4:
  assumes "0 \<le> m" "m < 8" "0 \<le> p" "p < 64" "0 \<le> q" "q < 64" "0 \<le> r" "r < 64"
  shows "utf8_decode_char (word_of_int (0xf0 + m) # cont p # cont q # cont r # rest) =
    (let c = m * 262144 + p * 4096 + q * 64 + r in
     if c \<le> 0xffff \<or> c > 0x10ffff then Inl EILSEQ else Inr (c, 4))"
proof -
  have "uint (word_of_int (0xf0 + m) :: byte) = 240 + m" "(240 + m) mod 8 = m"
    using uint_byte [of "240 + m"] digit_mod [of m 8 30] assms by simp_all
  then show ?thesis
    using assms cont_mask [OF assms(3,4)] cont_mask [OF assms(5,6)] cont_mask [OF assms(7,8)]
      fields4 [OF assms(3-8), of m]
    by (simp add: utf8_decode_char_def Let_def masks(1) numeral_3_eq_3)
qed

lemma utf8_encode2:
  assumes "2 \<le> q" "q < 32" "0 \<le> r" "r < 64"
  shows "utf8_encode_char (q * 64 + r) = Inr [word_of_int (0xc0 + q), cont r]"
proof -
  have "(q * 64 + r) div 64 = q" "(q * 64 + r) mod 64 = r" "q mod 32 = q"
    using assms digit_div [of r 64 q] digit_mod [of r 64 q] by simp_all
  then show ?thesis
    using assms lead_units(1) [of r] lead_units(2) [of q]
    by (simp add: utf8_encode_char_def masks drop_bit_eq_div)
qed

text \<open>The encoder in terms of the digits of the code point.\<close>

lemma drop_bits:
  "drop_bit 6 (c::int) = c div 64" "drop_bit 12 c = c div 4096" "drop_bit 18 c = c div 262144"
  by (simp_all add: drop_bit_eq_div)

lemma cont_unit: "0x80 OR (x mod 64) = 0x80 + x mod (64::int)"
  by (rule lead_units) simp_all

lemma utf8_encode_digits3:
  assumes "0x7ff < c" "c \<le> 0xffff" "\<not> (0xd800 \<le> c \<and> c \<le> 0xdfff)" "c div 4096 = p" "0 \<le> p" "p < 16"
  shows "utf8_encode_char c = Inr [word_of_int (0xe0 + p), cont (c div 64 mod 64), cont (c mod 64)]"
proof -
  have b: "\<not> c < 0" "\<not> c \<le> 0x7f" "\<not> c \<le> 0x7ff"
    using assms(1) by linarith+
  show ?thesis
    by (simp only: utf8_encode_char_def b assms(2,3,4) if_False if_True masks drop_bits cont_unit
        mod_pos_pos_trivial [OF assms(5,6)] lead_units(3) [OF assms(5,6)])
qed

lemma utf8_encode_digits4:
  assumes "0xffff < c" "c \<le> 0x10ffff" "c div 262144 = m" "0 \<le> m" "m < 8"
  shows "utf8_encode_char c =
    Inr [word_of_int (0xf0 + m), cont (c div 4096 mod 64), cont (c div 64 mod 64), cont (c mod 64)]"
proof -
  have b: "\<not> c < 0" "\<not> c \<le> 0x7f" "\<not> c \<le> 0x7ff" "\<not> c \<le> 0xffff"
    using assms(1) by linarith+
  show ?thesis
    by (simp only: utf8_encode_char_def b assms(2,3) if_False if_True masks drop_bits cont_unit
        mod_pos_pos_trivial [OF assms(4,5)] lead_units(4) [OF assms(4,5)])
qed

lemma utf8_encode3:
  assumes "0 \<le> p" "p < 16" "0 \<le> q" "q < 64" "0 \<le> r" "r < 64" "0x7ff < p * 4096 + q * 64 + r"
    "\<not> (0xd800 \<le> p * 4096 + q * 64 + r \<and> p * 4096 + q * 64 + r \<le> 0xdfff)"
  shows "utf8_encode_char (p * 4096 + q * 64 + r) = Inr [word_of_int (0xe0 + p), cont q, cont r]"
proof -
  let ?c = "p * 4096 + q * 64 + r"
  have c: "?c = (p * 64 + q) * 64 + r" "?c = p * 4096 + (q * 64 + r)"
    by (simp_all add: algebra_simps)
  have d1: "?c div 4096 = p"
    unfolding c(2) by (rule digit_div; use assms(1-6) in linarith)
  have d2: "?c div 64 = p * 64 + q"
    unfolding c(1) by (rule digit_div [OF assms(5,6)])
  have m1: "?c mod 64 = r"
    unfolding c(1) by (rule digit_mod [OF assms(5,6)])
  have "?c \<le> 0xffff" using assms(1-6) by linarith
  from utf8_encode_digits3 [OF assms(7) this assms(8) d1 assms(1,2)] show ?thesis
    unfolding d2 m1 digit_mod [OF assms(3,4)] .
qed

lemma utf8_encode4:
  assumes "0 \<le> m" "m < 8" "0 \<le> p" "p < 64" "0 \<le> q" "q < 64" "0 \<le> r" "r < 64"
    "0xffff < m * 262144 + p * 4096 + q * 64 + r" "m * 262144 + p * 4096 + q * 64 + r \<le> 0x10ffff"
  shows "utf8_encode_char (m * 262144 + p * 4096 + q * 64 + r) =
    Inr [word_of_int (0xf0 + m), cont p, cont q, cont r]"
proof -
  let ?c = "m * 262144 + p * 4096 + q * 64 + r"
  have c: "?c = (m * 4096 + p * 64 + q) * 64 + r" "?c = (m * 64 + p) * 4096 + (q * 64 + r)"
    "?c = m * 262144 + (p * 4096 + q * 64 + r)" "m * 4096 + p * 64 + q = (m * 64 + p) * 64 + q"
    by (simp_all add: algebra_simps)
  have d1: "?c div 262144 = m"
    unfolding c(3) by (rule digit_div; use assms(1-8) in linarith)
  have d2: "?c div 4096 mod 64 = p"
    unfolding c(2) by (subst digit_div; use assms(1-8) digit_mod [OF assms(3,4)] in \<open>linarith | simp\<close>)
  have d3: "?c div 64 mod 64 = q"
    unfolding c(1) digit_div [OF assms(7,8)] unfolding c(4) by (rule digit_mod [OF assms(5,6)])
  have m1: "?c mod 64 = r"
    unfolding c(1) by (rule digit_mod [OF assms(7,8)])
  from utf8_encode_digits4 [OF assms(9,10) d1 assms(1,2)] show ?thesis
    unfolding d2 d3 m1 .
qed

subsection \<open>Both directions\<close>

definition scalar :: "int \<Rightarrow> bool" where
  "scalar c \<longleftrightarrow> 0 \<le> c \<and> c \<le> 0x10ffff \<and> \<not> (0xd800 \<le> c \<and> c \<le> 0xdfff)"

lemma utf8_encode_error: "\<not> scalar c \<Longrightarrow> utf8_encode_char c = Inl EINVAL"
  by (auto simp: scalar_def utf8_encode_char_def)

lemma lead_digit_bounds:
  assumes "c = m * 262144 + p * 4096 + q * 64 + (r::int)" "0 \<le> p" "p < 64" "0 \<le> q" "q < 64" "0 \<le> r" "r < 64"
    "0 \<le> c" "c \<le> 0x10ffff"
  shows "0 \<le> m" "m < 8"
  using assms by linarith+

lemma utf8_roundtrip_spec:
  assumes "scalar c"
  shows "\<exists>us. utf8_encode_char c = Inr us \<and> us \<noteq> [] \<and> utf8_decode_char (us @ rest) = Inr (c, length us)"
proof -
  have r: "0 \<le> c mod 64" "c mod 64 < 64" for c :: int by simp_all
  have d: "c = c div 64 * 64 + c mod 64" for c :: int by simp
  have d3: "c = c div 64 div 64 * 4096 + c div 64 mod 64 * 64 + c mod 64" for c :: int
    using d [of c] d [of "c div 64"] by linarith
  have d4: "c = c div 64 div 64 div 64 * 262144 + c div 64 div 64 mod 64 * 4096 + c div 64 mod 64 * 64 + c mod 64"
    for c :: int
    using d3 [of c] d [of "c div 64 div 64"] by linarith
  consider (1) "0 \<le> c" "c \<le> 0x7f" | (2) "0x7f < c" "c \<le> 0x7ff" | (3) "0x7ff < c" "c \<le> 0xffff"
    | (4) "0xffff < c"
    using assms unfolding scalar_def by (meson not_le)
  then show ?thesis
  proof cases
    case 1
    then show ?thesis
      using utf8_decode1 [of c rest] by (simp add: utf8_encode_char_def)
  next
    case 2
    then have q: "2 \<le> c div 64" "c div 64 < 32"
      using d [of c] r [of c] by linarith+
    show ?thesis
      using utf8_encode2 [OF q r [of c]] utf8_decode2 [OF q r [of c], of rest]
      unfolding d [of c, symmetric] by simp
  next
    case 3
    then have q: "0 \<le> c div 64 div 64" "c div 64 div 64 < 16"
      using d3 [of c] r [of c] r [of "c div 64"] by linarith+
    show ?thesis
      using utf8_encode3 [OF q r [of "c div 64"] r [of c]] utf8_decode3 [OF q r [of "c div 64"] r [of c], of rest]
        3 assms unfolding d3 [of c, symmetric] by (auto simp: scalar_def Let_def)
  next
    case 4
    have "0 \<le> c" "c \<le> 0x10ffff" using assms by (simp_all add: scalar_def)
    note q = lead_digit_bounds [OF d4 [of c] r [of "c div 64 div 64"] r [of "c div 64"] r [of c] this]
    note digits = q r [of "c div 64 div 64"] r [of "c div 64"] r [of c]
    have c: "0xffff < c" "c \<le> 0x10ffff" "\<not> (c \<le> 0xffff \<or> c > 0x10ffff)"
      using 4 assms unfolding scalar_def by linarith+
    note enc = utf8_encode4 [OF digits, unfolded d4 [of c, symmetric], OF c(1,2)]
    note dec = utf8_decode4 [OF digits, of rest, unfolded d4 [of c, symmetric] Let_def if_not_P [OF c(3)]]
    show ?thesis
      unfolding enc using dec by simp
  qed
qed

lemma utf8_decode_cases:
  assumes "utf8_decode_char data = Inr (c, n)" "data \<noteq> []"
  shows "\<exists>rest. utf8_encode_char c = Inr (take n data) \<and> 0 < n \<and> data = take n data @ rest"
proof -
  obtain b bs where data: "data = b # bs" using assms(2) by (cases data) auto
  have b: "0 \<le> uint b" "uint b < 256" "b = word_of_int (uint b)"
    using uint_lt2p [of b] by simp_all
  have "n \<le> length data \<Longrightarrow> \<exists>rest. data = take n data @ rest" by (metis append_take_drop_id)
  moreover have "utf8_encode_char c = Inr (take n data) \<and> 0 < n \<and> n \<le> length data"
  proof -
    consider (1) "uint b \<le> 0x7f" | (2) "0xc2 \<le> uint b" "uint b \<le> 0xdf" | (3) "0xe0 \<le> uint b" "uint b \<le> 0xef"
      | (4) "0xf0 \<le> uint b" "uint b \<le> 0xf7"
      using assms(1) data by (force simp: utf8_decode_char_def Let_def split: if_splits)
    then show ?thesis
    proof cases
      case 1
      then show ?thesis
        using assms(1) data b by (auto simp: utf8_decode_char_def utf8_encode_char_def)
    next
      case 2
      then obtain b1 rest where bs: "bs = b1 # rest" "(uint b1 AND 0xc0) = 0x80"
        using assms(1) data by (cases bs) (auto simp: utf8_decode_char_def Let_def split: if_splits)
      obtain r where r: "0 \<le> r" "r < 64" "b1 = cont r" using cont_inv [OF bs(2)] by blast
      have q: "2 \<le> uint b - 192" "uint b - 192 < 32" "b = word_of_int (0xc0 + (uint b - 192))"
        using 2 b(3) by simp_all
      have "c = (uint b - 192) * 64 + r \<and> n = 2"
        using utf8_decode2 [OF q(1,2) r(1,2), of rest] assms(1) unfolding data bs r(3) q(3) [symmetric] by simp
      then show ?thesis
        using utf8_encode2 [OF q(1,2) r(1,2)] unfolding data bs r(3) q(3) [symmetric] by simp
    next
      case 3
      then obtain b1 b2 rest where bs: "bs = b1 # b2 # rest" "(uint b1 AND 0xc0) = 0x80" "(uint b2 AND 0xc0) = 0x80"
        using assms(1) data
        by (cases bs; cases "tl bs") (auto simp: utf8_decode_char_def Let_def split: if_splits)
      obtain q r where q: "0 \<le> q" "q < 64" "b1 = cont q" and r: "0 \<le> r" "r < 64" "b2 = cont r"
        using cont_inv [OF bs(2)] cont_inv [OF bs(3)] by blast
      have p: "0 \<le> uint b - 224" "uint b - 224 < 16" "b = word_of_int (0xe0 + (uint b - 224))"
        using 3 b(3) by simp_all
      have "c = (uint b - 224) * 4096 + q * 64 + r \<and> n = 3 \<and> \<not> (c \<le> 0x7ff \<or> 0xd800 \<le> c \<and> c \<le> 0xdfff)"
        using utf8_decode3 [OF p(1,2) q(1,2) r(1,2), of rest] assms(1)
        unfolding data bs q(3) r(3) p(3) [symmetric] Let_def by (auto split: if_splits)
      then show ?thesis
        using utf8_encode3 [OF p(1,2) q(1,2) r(1,2)] unfolding data bs q(3) r(3) p(3) [symmetric] by auto
    next
      case 4
      then obtain b1 b2 b3 rest where bs: "bs = b1 # b2 # b3 # rest"
        "(uint b1 AND 0xc0) = 0x80" "(uint b2 AND 0xc0) = 0x80" "(uint b3 AND 0xc0) = 0x80"
        using assms(1) data
        by (cases bs; cases "tl bs"; cases "tl (tl bs)")
          (auto simp: utf8_decode_char_def Let_def numeral_3_eq_3 split: if_splits)
      obtain p q r where p: "0 \<le> p" "p < 64" "b1 = cont p" and q: "0 \<le> q" "q < 64" "b2 = cont q"
        and r: "0 \<le> r" "r < 64" "b3 = cont r"
        using cont_inv [OF bs(2)] cont_inv [OF bs(3)] cont_inv [OF bs(4)] by blast
      have m: "0 \<le> uint b - 240" "uint b - 240 < 8" "b = word_of_int (0xf0 + (uint b - 240))"
        using 4 b(3) by simp_all
      have "c = (uint b - 240) * 262144 + p * 4096 + q * 64 + r \<and> n = 4 \<and> \<not> (c \<le> 0xffff \<or> c > 0x10ffff)"
        using utf8_decode4 [OF m(1,2) p(1,2) q(1,2) r(1,2), of rest] assms(1)
        unfolding data bs p(3) q(3) r(3) m(3) [symmetric] Let_def by (auto split: if_splits)
      then show ?thesis
        using utf8_encode4 [OF m(1,2) p(1,2) q(1,2) r(1,2)]
        unfolding data bs p(3) q(3) r(3) m(3) [symmetric] by auto
    qed
  qed
  ultimately show ?thesis by blast
qed

subsection \<open>UTF-16\<close>

definition basic_plane :: "int \<Rightarrow> bool" where
  "basic_plane c \<longleftrightarrow> scalar c \<and> c \<le> 0xffff"

lemma utf16_roundtrip_spec:
  assumes "basic_plane c"
  shows "\<exists>us. utf16_encode_char c = Inr us \<and> us \<noteq> [] \<and> utf16_decode_char (us @ rest) = Inr (c, length us)"
proof -
  have c: "0 \<le> c" "c < 65536" "c \<le> 0xd7ff \<or> 0xdfff < c"
    using assms by (auto simp: basic_plane_def scalar_def)
  have e: "utf16_encode_char c = Inr [word_of_int c]"
    using c by (auto simp: utf16_encode_char_def)
  have "utf16_decode_char (word_of_int c # rest) = Inr (c, 1)"
    using c uint_u16 [of c] by (auto simp: utf16_decode_char_def Let_def)
  then show ?thesis
    using e by simp
qed

subsection \<open>The contract of a codec\<close>

locale char_codec =
  fixes enc :: "int \<Rightarrow> errno + 'u list"
    and dec :: "'u list \<Rightarrow> errno + (int \<times> nat)"
    and valid :: "int \<Rightarrow> bool"
  assumes roundtrip: "valid c \<Longrightarrow> \<exists>us. enc c = Inr us \<and> us \<noteq> [] \<and> dec (us @ rest) = Inr (c, length us)"
    and progress: "dec us = Inr (c, n) \<Longrightarrow> us \<noteq> [] \<Longrightarrow> 0 < n"
begin

lemma loop_step:
  assumes "dec us = Inr (c, n)" "us \<noteq> []" "length us \<le> fuel"
  shows "\<exists>f. fuel = Suc f \<and> length (drop n us) \<le> f"
  using assms progress [OF assms(1,2)] by (cases fuel; cases us) auto

lemma decode_total: "length us \<le> fuel \<Longrightarrow> decode_loop dec fuel us \<noteq> None"
proof (induction fuel arbitrary: us)
  case (Suc fuel)
  show ?case
  proof (cases us)
    case (Cons v vs)
    have "decode_loop dec fuel (drop n (v # vs)) \<noteq> None" if "dec (v # vs) = Inr (c, n)" for c n
      using loop_step [OF that, of "Suc fuel"] Suc.prems Cons by (intro Suc.IH) simp
    then show ?thesis
      using Cons by (fastforce split: sum.split option.split)
  qed simp
qed simp

lemma buffer_roundtrip:
  "(\<And>c. c \<in> set cs \<Longrightarrow> valid c) \<Longrightarrow>
   \<exists>us. encode_loop enc cs = Inr us \<and> (\<forall>fuel\<ge>length us. decode_loop dec fuel us = Some (Inr cs))"
proof (induction cs)
  case (Cons c cs)
  obtain vs where vs: "encode_loop enc cs = Inr vs" "\<And>fuel. length vs \<le> fuel \<Longrightarrow> decode_loop dec fuel vs = Some (Inr cs)"
    using Cons by auto
  obtain us where us: "enc c = Inr us" "us \<noteq> []" "dec (us @ vs) = Inr (c, length us)"
    using roundtrip [of c vs] Cons.prems by auto
  have "decode_loop dec fuel (us @ vs) = Some (Inr (c # cs))" if len: "length (us @ vs) \<le> fuel" for fuel
  proof -
    obtain v ws where v: "us @ vs = v # ws" using us(2) by (cases us) auto
    obtain f where "fuel = Suc f" "length vs \<le> f"
      using len us(2) by (cases fuel; cases us) auto
    moreover have "drop (length us) (v # ws) = vs"
      unfolding v [symmetric] by simp
    ultimately show ?thesis
      using us(3) vs(2) [of f] v by simp
  qed
  then show ?case
    using us vs by simp
qed simp

lemma transcode:
  "(\<And>c. c \<in> set cs \<Longrightarrow> valid c \<and> c \<noteq> 0) \<Longrightarrow> encode_loop enc cs = Inr us \<Longrightarrow> encode_loop enc2 cs = Inr vs \<Longrightarrow>
   length us \<le> fuel \<Longrightarrow> transcode_loop dec enc2 fuel us = Some (Inr vs)"
proof (induction cs arbitrary: us vs fuel)
  case (Cons c cs)
  obtain u1 us1 v1 vs1 where s: "enc c = Inr u1" "encode_loop enc cs = Inr us1" "us = u1 @ us1"
    "enc2 c = Inr v1" "encode_loop enc2 cs = Inr vs1" "vs = v1 @ vs1"
    using Cons.prems(2,3) by (auto split: sum.splits)
  have u1: "u1 \<noteq> []" "dec (u1 @ us1) = Inr (c, length u1)"
    using roundtrip [of c us1] Cons.prems(1) s(1) by auto
  obtain w ws where w: "u1 @ us1 = w # ws" using u1(1) by (cases u1) auto
  obtain f where f: "fuel = Suc f" "length us1 \<le> f"
    using Cons.prems(4) s(3) u1(1) by (cases fuel; cases u1) auto
  have "transcode_loop dec enc2 f us1 = Some (Inr vs1)"
    using Cons.IH [OF _ s(2,5) f(2)] Cons.prems(1) by simp
  moreover have "drop (length u1) (w # ws) = us1"
    unfolding w [symmetric] by simp
  ultimately show ?case
    using Cons.prems(1) [of c] s u1 w f by simp
qed simp

end

interpretation utf8: char_codec utf8_encode_char utf8_decode_char scalar
  by unfold_locales (fact utf8_roundtrip_spec, use utf8_decode_cases in blast)

lemma utf16_progress: "utf16_decode_char us = Inr (c, n) \<Longrightarrow> us \<noteq> [] \<Longrightarrow> 0 < n"
  by (auto simp: utf16_decode_char_def Let_def split: if_splits)

interpretation utf16: char_codec utf16_encode_char utf16_decode_char basic_plane
  by unfold_locales (fact utf16_roundtrip_spec, fact utf16_progress)

subsection \<open>Properties\<close>

text \<open>C34: UTF-8 encodes exactly the Unicode scalar values, decoding inverts encoding whatever
  follows in the buffer, and the decoder accepts only the encoder's own output: overlong forms,
  surrogates and values beyond the last plane are refused.\<close>

theorem utf8_char_roundtrip:
  "(scalar c \<longrightarrow> (\<exists>us. utf8_encode_char c = Inr us \<and> utf8_decode_char (us @ rest) = Inr (c, length us))) \<and>
   (\<not> scalar c \<longrightarrow> utf8_encode_char c = Inl EINVAL) \<and>
   (utf8_decode_char data = Inr (c, n) \<and> data \<noteq> [] \<longrightarrow> utf8_encode_char c = Inr (take n data))"
  using utf8_roundtrip_spec [of c rest] utf8_encode_error [of c] utf8_decode_cases [of data c n] by blast

theorem utf8_char_roundtrip_witness:
  "\<exists>us. utf8_encode_char 0x20ac = Inr us \<and> utf8_decode_char (us @ [0]) = Inr (0x20ac, length us)"
proof -
  have "scalar 0x20ac" by (simp add: scalar_def)
  then show ?thesis
    using utf8_char_roundtrip [of "0x20ac" "[0]"] by blast
qed

text \<open>C35: The loop of \<^verbatim>\<open>utf8_decode_buf\<close> ends on every buffer, and decoding what \<^verbatim>\<open>utf8_encode_buf\<close> makes
  of a list of scalar values gives the list back.\<close>

theorem utf8_buf_roundtrip:
  "utf8_decode_buf data \<noteq> None \<and>
   ((\<forall>c\<in>set cs. scalar c) \<longrightarrow>
      (\<exists>us. utf8_encode_buf cs = Inr us \<and> utf8_decode_buf us = Some (Inr cs)))"
  using utf8.decode_total [of data "length data"] utf8.buffer_roundtrip [of cs]
  by (auto simp: utf8_decode_buf_def utf8_encode_buf_def)

theorem utf8_buf_roundtrip_witness:
  "\<exists>us. utf8_encode_buf [0x41, 0xe9, 0x1f600] = Inr us \<and> utf8_decode_buf us = Some (Inr [0x41, 0xe9, 0x1f600])"
proof -
  have "\<forall>c\<in>set [0x41, 0xe9, 0x1f600]. scalar c" by (simp add: scalar_def)
  then show ?thesis
    using utf8_buf_roundtrip [of "[]" "[0x41, 0xe9, 0x1f600]"] by blast
qed

text \<open>C36: On text of the basic plane without null characters, transcoding the UTF-16 encoding gives
  the UTF-8 encoding and back.\<close>

theorem transcode_basic_plane:
  assumes "\<forall>c\<in>set cs. basic_plane c \<and> c \<noteq> 0"
  shows "\<exists>us vs. utf16_encode_buf cs = Inr us \<and> utf8_encode_buf cs = Inr vs \<and>
    utf16_to_utf8 us = Some (Inr vs) \<and> utf8_to_utf16 vs = Some (Inr us)"
proof -
  have v: "c \<in> set cs \<Longrightarrow> basic_plane c \<and> c \<noteq> 0" "c \<in> set cs \<Longrightarrow> scalar c \<and> c \<noteq> 0" for c
    using assms by (auto simp: basic_plane_def)
  obtain us where us: "encode_loop utf16_encode_char cs = Inr us"
    using utf16.buffer_roundtrip [of cs] v(1) by blast
  obtain vs where vs: "encode_loop utf8_encode_char cs = Inr vs"
    using utf8.buffer_roundtrip [of cs] v(2) by blast
  show ?thesis
    using utf16.transcode [OF v(1) us vs order_refl] utf8.transcode [OF v(2) vs us order_refl] us vs
    by (simp add: utf16_encode_buf_def utf8_encode_buf_def utf16_to_utf8_def utf8_to_utf16_def)
qed

theorem transcode_basic_plane_witness:
  "\<exists>us vs. utf16_encode_buf [0x41, 0x20ac] = Inr us \<and> utf8_encode_buf [0x41, 0x20ac] = Inr vs \<and>
    utf16_to_utf8 us = Some (Inr vs)"
proof -
  have "\<forall>c\<in>set [0x41, 0x20ac]. basic_plane c \<and> c \<noteq> 0"
    by (simp add: basic_plane_def scalar_def)
  then show ?thesis
    using transcode_basic_plane by blast
qed

text \<open>C37: Beyond the basic plane \<^verbatim>\<open>utf16_encode_char\<close> stores the two surrogates in the wrong order:
  its own decoder refuses every such encoding.\<close>

theorem utf16_surrogates_swapped:
  assumes "0xffff < c" "c \<le> 0x10ffff"
  shows "\<exists>us. utf16_encode_char c = Inr us \<and> utf16_decode_char us = Inl EILSEQ"
proof -
  define r where "r = (c - 0x10000) mod 1024"
  have r: "0 \<le> r" "r < 1024" by (simp_all add: r_def)
  then have "uint (word_of_int (0xdc00 + r) :: u16) = 0xdc00 + r"
    by (intro uint_u16) simp_all
  then show ?thesis
    using assms r by (simp add: utf16_encode_char_def utf16_decode_char_def Let_def masks(5) r_def [symmetric])
qed

theorem utf16_surrogates_swapped_witness:
  "\<exists>us. utf16_encode_char 0x1f600 = Inr us \<and> utf16_decode_char us = Inl EILSEQ"
  by (rule utf16_surrogates_swapped) simp_all

end
