(* ===== verification/Ktime.thy ===== *)
theory Ktime
  imports Prelude
begin

section \<open>Dates and time stamps\<close>

text \<open>
  Models \<^verbatim>\<open>kernel/klib/time.c\<close> and \<^verbatim>\<open>kernel/include/klib/time.h\<close>. The C type \<^verbatim>\<open>long\<close> is \<open>int\<close>: with years of
  a calendar no intermediate value comes near \<open>2 ^ 63\<close>. The remainders are taken of values that
  are not negative, where C and HOL agree. The \<^verbatim>\<open>for\<close> loop over the years ends because each round
  takes days away; the loop over the months has no exit after December, so it runs with fuel.
\<close>

definition is_leap :: "int \<Rightarrow> bool" where
  "is_leap year =
     (if year mod 4 \<noteq> 0 then False
      else if year mod 400 \<noteq> 0 \<and> \<not> year mod 100 \<noteq> 0 then False
      else True)"

definition nbofdayin :: "int \<Rightarrow> int \<Rightarrow> int" where
  "nbofdayin year month =
     (if month \<in> {1, 3, 5, 7, 8, 10, 12} then 31
      else if month \<in> {4, 6, 9, 11} then 30
      else if month = 2 then (if is_leap year then 29 else 28)
      else -1)"

text \<open>The \<^verbatim>\<open>switch\<close> that falls through adds the days of the months before the given one.\<close>

definition days_before_month :: "int \<Rightarrow> int \<Rightarrow> int" where
  "days_before_month year month =
     (if month < 1 \<or> month > 12 then 0
      else (if month \<ge> 12 then 30 else 0) + (if month \<ge> 11 then 31 else 0) + (if month \<ge> 10 then 30 else 0) +
        (if month \<ge> 9 then 31 else 0) + (if month \<ge> 8 then 31 else 0) + (if month \<ge> 7 then 30 else 0) +
        (if month \<ge> 6 then 31 else 0) + (if month \<ge> 5 then 30 else 0) + (if month \<ge> 4 then 31 else 0) +
        (if month \<ge> 3 then (if is_leap year then 29 else 28) else 0) + (if month \<ge> 2 then 31 else 0))"

function date2time_years :: "int \<Rightarrow> int \<Rightarrow> int" where
  "date2time_years year days =
     (if year > 1970 then date2time_years (year - 1) (days + (if is_leap (year - 1) then 366 else 365))
      else days)"
  by auto
termination
  by (relation "measure (\<lambda>(y, d). nat (y - 1970))") auto

declare date2time_years.simps [simp del]

definition date2time :: "int \<Rightarrow> int \<Rightarrow> int \<Rightarrow> int \<Rightarrow> int \<Rightarrow> int \<Rightarrow> int" where
  "date2time year month day hour minute second =
     (let days = date2time_years year (day - 1 + days_before_month year month)
      in second + minute * 60 + hour * 3600 + days * 86400)"

function time2date_year :: "int \<Rightarrow> int \<Rightarrow> int \<times> int" where
  "time2date_year day year =
     (if is_leap year then (if day < 366 then (day, year) else time2date_year (day - 366) (year + 1))
      else (if day < 365 then (day, year) else time2date_year (day - 365) (year + 1)))"
  by auto
termination
  by (relation "measure (\<lambda>(d, y). nat d)") auto

declare time2date_year.simps [simp del]

fun time2date_month :: "nat \<Rightarrow> int \<Rightarrow> int \<Rightarrow> int \<Rightarrow> (int \<times> int) option" where
  "time2date_month 0 year day month = None"
| "time2date_month (Suc fuel) year day month =
     (if day < nbofdayin year month then Some (day, month)
      else time2date_month fuel year (day - nbofdayin year month) (month + 1))"

text \<open>Year, month, day, hour, minute and second; twelve rounds of the month loop are enough.\<close>

definition time2date :: "int \<Rightarrow> (int \<times> int \<times> int \<times> int \<times> int \<times> int) option" where
  "time2date time =
     (let second = time mod 60; minute = (time div 60) mod 60; hour = (time div 3600) mod 24;
          (day, year) = time2date_year (time div 86400) 1970
      in (case time2date_month 12 year day 1 of
            None \<Rightarrow> None
          | Some (d, month) \<Rightarrow> Some (year, month, d, hour, minute, second)))"

record timespec =
  tv_sec :: int
  tv_nsec :: int

definition timespec_cmp :: "timespec \<Rightarrow> timespec \<Rightarrow> int" where
  "timespec_cmp a b =
     (if tv_sec a > tv_sec b then 1 else if tv_sec a < tv_sec b then -1
      else if tv_nsec a > tv_nsec b then 1 else if tv_nsec a < tv_nsec b then -1 else 0)"

definition NSEC_PER_SEC :: int where
  "NSEC_PER_SEC = 1000000000"

definition timespec_add :: "timespec \<Rightarrow> timespec \<Rightarrow> timespec" where
  "timespec_add a b =
     (let dest = \<lparr>tv_sec = tv_sec a + tv_sec b, tv_nsec = tv_nsec a + tv_nsec b\<rparr>
      in if tv_nsec dest > NSEC_PER_SEC
         then \<lparr>tv_sec = tv_sec dest + 1, tv_nsec = tv_nsec dest mod NSEC_PER_SEC\<rparr> else dest)"

definition timespec_sub :: "timespec \<Rightarrow> timespec \<Rightarrow> timespec" where
  "timespec_sub a b =
     (let dest = \<lparr>tv_sec = tv_sec a - tv_sec b, tv_nsec = tv_nsec a - tv_nsec b\<rparr>
      in if tv_nsec dest < 0
         then \<lparr>tv_sec = tv_sec dest - 1, tv_nsec = tv_nsec dest + NSEC_PER_SEC\<rparr> else dest)"

subsection \<open>Days since the epoch\<close>

definition year_length :: "int \<Rightarrow> int" where
  "year_length year = (if is_leap year then 366 else 365)"

definition days_to_year :: "nat \<Rightarrow> int" where
  "days_to_year k = (\<Sum>i<k. year_length (1970 + int i))"

lemma days_to_year_Suc: "days_to_year (Suc k) = days_to_year k + year_length (1970 + int k)"
  by (simp add: days_to_year_def)

lemma date2time_years_sum: "date2time_years (1970 + int k) days = days + days_to_year k"
proof (induction k arbitrary: days)
  case 0
  then show ?case by (simp add: date2time_years.simps days_to_year_def)
next
  case (Suc k)
  have "date2time_years (1970 + int (Suc k)) days = date2time_years (1970 + int k) (days + year_length (1970 + int k))"
    by (subst date2time_years.simps) (simp add: year_length_def algebra_simps)
  then show ?case
    using Suc by (simp add: days_to_year_Suc)
qed

lemma time2date_year_step:
  "time2date_year day year =
     (if day < year_length year then (day, year) else time2date_year (day - year_length year) (year + 1))"
  by (subst time2date_year.simps) (simp add: year_length_def)

lemma time2date_year_spec:
  "0 \<le> day \<Longrightarrow> \<exists>n d. time2date_year day (1970 + int k) = (d, 1970 + int (k + n)) \<and>
     0 \<le> d \<and> d < year_length (1970 + int (k + n)) \<and> days_to_year k + day = days_to_year (k + n) + d"
proof (induction "nat day" arbitrary: day k rule: less_induct)
  case less
  show ?case
  proof (cases "day < year_length (1970 + int k)")
    case True
    then show ?thesis
      using less.prems by (intro exI [of _ 0] exI [of _ day], subst time2date_year_step) simp
  next
    case False
    let ?d = "day - year_length (1970 + int k)"
    have "0 \<le> ?d" "nat ?d < nat day"
      using False by (auto simp: year_length_def split: if_splits)
    then obtain n d where r: "time2date_year ?d (1970 + int (Suc k)) = (d, 1970 + int (Suc k + n))"
      "0 \<le> d" "d < year_length (1970 + int (Suc k + n))" "days_to_year (Suc k) + ?d = days_to_year (Suc k + n) + d"
      using less.hyps [of ?d "Suc k"] by blast
    have "time2date_year day (1970 + int k) = (d, 1970 + int (k + Suc n))"
      using False r(1) by (subst time2date_year_step) (simp add: algebra_simps)
    then show ?thesis
      using r(2-4) days_to_year_Suc [of k] by (intro exI [of _ "Suc n"] exI [of _ d]) simp
  qed
qed

lemma nbofdayin_simps [simp]:
  "nbofdayin y 1 = 31" "nbofdayin y 2 = (if is_leap y then 29 else 28)" "nbofdayin y 3 = 31"
  "nbofdayin y 4 = 30" "nbofdayin y 5 = 31" "nbofdayin y 6 = 30" "nbofdayin y 7 = 31" "nbofdayin y 8 = 31"
  "nbofdayin y 9 = 30" "nbofdayin y 10 = 31" "nbofdayin y 11 = 30" "nbofdayin y 12 = 31"
  by (simp_all add: nbofdayin_def)

lemma days_before_month_Suc:
  "1 \<le> m \<Longrightarrow> m < 12 \<Longrightarrow> days_before_month y (m + 1) = days_before_month y m + nbofdayin y m"
proof -
  assume "1 \<le> m" "m < 12"
  then have "m \<in> {1, 2, 3, 4, 5, 6, 7, 8, 9, 10, 11}"
    unfolding insert_iff empty_iff by presburger
  then show ?thesis
    by (elim insertE emptyE) (simp_all add: days_before_month_def)
qed

lemma days_before_month_end: "days_before_month y 12 + nbofdayin y 12 = year_length y"
  by (simp add: days_before_month_def year_length_def)

lemma time2date_month_spec:
  "1 \<le> m \<Longrightarrow> m \<le> 12 \<Longrightarrow> 13 - nat m \<le> fuel \<Longrightarrow> 0 \<le> day \<Longrightarrow> days_before_month y m + day < year_length y \<Longrightarrow>
   \<exists>d m'. time2date_month fuel y day m = Some (d, m') \<and> 1 \<le> m' \<and> m' \<le> 12 \<and> 0 \<le> d \<and> d < nbofdayin y m' \<and>
     days_before_month y m' + d = days_before_month y m + day"
proof (induction fuel arbitrary: m day)
  case (Suc fuel)
  show ?case
  proof (cases "day < nbofdayin y m")
    case True
    then show ?thesis using Suc.prems by simp
  next
    case False
    then have "m \<noteq> 12"
      using Suc.prems(5) days_before_month_end [of y] by auto
    then have m: "m < 12" using Suc.prems(2) by simp
    have "\<exists>d m'. time2date_month fuel y (day - nbofdayin y m) (m + 1) = Some (d, m') \<and> 1 \<le> m' \<and> m' \<le> 12 \<and>
        0 \<le> d \<and> d < nbofdayin y m' \<and>
        days_before_month y m' + d = days_before_month y (m + 1) + (day - nbofdayin y m)"
      using Suc.prems False m days_before_month_Suc [OF Suc.prems(1) m] by (intro Suc.IH) auto
    then show ?thesis
      using False days_before_month_Suc [OF Suc.prems(1) m] by auto
  qed
qed auto

lemma clock_sum:
  "(t::int) = q1 * 60 + s \<Longrightarrow> q1 = q2 * 60 + m \<Longrightarrow> q2 = q3 * 24 + h \<Longrightarrow> t = s + m * 60 + h * 3600 + q3 * 86400"
  by simp

lemma clock_split: "(time::int) = time mod 60 + time div 60 mod 60 * 60 + time div 3600 mod 24 * 3600 + time div 86400 * 86400"
proof -
  have "time div 3600 = time div 60 div 60" "time div 86400 = time div 3600 div 24"
    by (simp_all add: zdiv_zmult2_eq [symmetric])
  then show ?thesis
    using clock_sum [OF div_mult_mod_eq [symmetric] div_mult_mod_eq [symmetric] div_mult_mod_eq [symmetric], of time] by simp
qed

subsection \<open>Properties\<close>

text \<open>C38: For every time from the epoch on, both loops of \<^verbatim>\<open>time2date\<close> end, the fields are in range, and
  \<^verbatim>\<open>date2time\<close> of them gives the time back when the day is increased by one: \<^verbatim>\<open>time2date\<close> counts the
  days of a month from 0 and \<^verbatim>\<open>date2time\<close> from 1.\<close>

theorem time2date_inverse:
  assumes "0 \<le> time"
  shows "\<exists>y m d h mi s. time2date time = Some (y, m, d, h, mi, s) \<and>
    1970 \<le> y \<and> 1 \<le> m \<and> m \<le> 12 \<and> 0 \<le> d \<and> d < nbofdayin y m \<and>
    0 \<le> h \<and> h < 24 \<and> 0 \<le> mi \<and> mi < 60 \<and> 0 \<le> s \<and> s < 60 \<and>
    date2time y m (d + 1) h mi s = time"
proof -
  have "0 \<le> time div 86400" using assms by (simp add: pos_imp_zdiv_nonneg_iff)
  then obtain n d where y: "time2date_year (time div 86400) 1970 = (d, 1970 + int n)" "0 \<le> d"
    "d < year_length (1970 + int n)" "time div 86400 = days_to_year n + d"
    using time2date_year_spec [of "time div 86400" 0] by (auto simp: days_to_year_def)
  then obtain d' m where m: "time2date_month 12 (1970 + int n) d 1 = Some (d', m)" "1 \<le> m" "m \<le> 12" "0 \<le> d'"
    "d' < nbofdayin (1970 + int n) m" "days_before_month (1970 + int n) m + d' = d"
    using time2date_month_spec [of 1 12 d "1970 + int n"] by (auto simp: days_before_month_def)
  have "time2date time = Some (1970 + int n, m, d', time div 3600 mod 24, time div 60 mod 60, time mod 60)"
    using y(1) m(1) by (simp add: time2date_def Let_def)
  moreover have "date2time_years (1970 + int n) (d' + 1 - 1 + days_before_month (1970 + int n) m) = time div 86400"
    using y(4) m(6) by (simp add: date2time_years_sum)
  then have "date2time (1970 + int n) m (d' + 1) (time div 3600 mod 24) (time div 60 mod 60) (time mod 60) = time"
    unfolding date2time_def Let_def by (simp only: clock_split [of time, symmetric])
  moreover have "0 \<le> time div 3600 mod 24" "time div 3600 mod 24 < 24" "0 \<le> time div 60 mod 60"
    "time div 60 mod 60 < 60" "0 \<le> time mod 60" "time mod 60 < 60" "1970 \<le> 1970 + int n"
    by simp_all
  ultimately show ?thesis
    using m(2-5) by blast
qed

theorem time2date_inverse_witness:
  "\<exists>y m d h mi s. time2date 951782400 = Some (y, m, d, h, mi, s) \<and> date2time y m (d + 1) h mi s = 951782400"
proof -
  have "(0::int) \<le> 951782400" by simp
  from time2date_inverse [OF this] show ?thesis by blast
qed

abbreviation nanos :: "timespec \<Rightarrow> int" where
  "nanos t \<equiv> tv_sec t * 1000000000 + tv_nsec t"

abbreviation normal :: "timespec \<Rightarrow> bool" where
  "normal t \<equiv> 0 \<le> tv_nsec t \<and> tv_nsec t < 1000000000"

text \<open>C39: On normalised time stamps the three operations compute on nanoseconds: the comparison is the
  sign of the difference, the difference is normalised, and the sum is right but normalised
  only when the nanoseconds do not add up to exactly one second, which the test for more than
  a second misses.\<close>

theorem timespec_arithmetic:
  assumes "normal a" "normal b"
  shows "timespec_cmp a b = sgn (nanos a - nanos b) \<and>
    nanos (timespec_sub a b) = nanos a - nanos b \<and> normal (timespec_sub a b) \<and>
    nanos (timespec_add a b) = nanos a + nanos b \<and>
    (normal (timespec_add a b) \<longleftrightarrow> tv_nsec a + tv_nsec b \<noteq> 1000000000)"
proof -
  have add: "(tv_nsec a + tv_nsec b) mod 1000000000 = tv_nsec a + tv_nsec b - 1000000000"
    if "1000000000 < tv_nsec a + tv_nsec b"
    unfolding minus_mod_self2 [of "tv_nsec a + tv_nsec b" 1000000000, symmetric]
    using that assms by (intro mod_pos_pos_trivial) simp_all
  have "timespec_cmp a b = sgn (nanos a - nanos b)"
    using assms by (auto simp: timespec_cmp_def sgn_if)
  moreover have "nanos (timespec_sub a b) = nanos a - nanos b" "normal (timespec_sub a b)"
    using assms by (simp_all add: timespec_sub_def NSEC_PER_SEC_def Let_def algebra_simps)
  moreover have "nanos (timespec_add a b) = nanos a + nanos b"
    "normal (timespec_add a b) \<longleftrightarrow> tv_nsec a + tv_nsec b \<noteq> 1000000000"
    using assms add by (auto simp: timespec_add_def NSEC_PER_SEC_def Let_def algebra_simps)
  ultimately show ?thesis by blast
qed

theorem timespec_arithmetic_witness:
  "\<not> normal (timespec_add \<lparr>tv_sec = 1, tv_nsec = 400000000\<rparr> \<lparr>tv_sec = 2, tv_nsec = 600000000\<rparr>)"
  using timespec_arithmetic [of "\<lparr>tv_sec = 1, tv_nsec = 400000000\<rparr>" "\<lparr>tv_sec = 2, tv_nsec = 600000000\<rparr>"] by simp

end
