(* ===== verification/Endian.thy ===== *)
theory Endian
  imports Prelude
begin

section \<open>Little and big endian fields\<close>

text \<open>
  Models the functions that the macro \<^verbatim>\<open>ENDIAN_DEFINE\<close> of \<^verbatim>\<open>kernel/include/klib/endian.h\<close> generates for 16, 32
  and 64 bits. The type of the word is a type variable, as it is a macro argument in the
  code; \<open>n\<close> is \<^verbatim>\<open>sizeof\<close> the field. The signed variants convert the same bits. The drivers and the
  file systems read every on-disk and on-wire number through these.
\<close>

definition to_le :: "nat \<Rightarrow> 'a::len word \<Rightarrow> byte list" where
  "to_le n data = map (\<lambda>i. ucast (drop_bit (i * 8) data)) [0..<n]"

definition from_le :: "byte list \<Rightarrow> 'a::len word" where
  "from_le bs = fold (\<lambda>i data. or data (push_bit (i * 8) (ucast (bs ! i)))) [0..<length bs] 0"

definition to_be :: "nat \<Rightarrow> 'a::len word \<Rightarrow> byte list" where
  "to_be n data = map (\<lambda>i. ucast (drop_bit ((n - 1 - i) * 8) data)) [0..<n]"

definition from_be :: "byte list \<Rightarrow> 'a::len word" where
  "from_be bs = fold (\<lambda>i data. or data (push_bit ((length bs - 1 - i) * 8) (ucast (bs ! i)))) [0..<length bs] 0"

subsection \<open>The bits of a field\<close>

lemma bit_fold_or:
  "bit (fold (\<lambda>i data. or data (f i)) is (a::'a::len word)) k \<longleftrightarrow> bit a k \<or> (\<exists>i\<in>set is. bit (f i) k)"
  by (induction "is" arbitrary: a) (auto simp: bit_or_iff)

lemma bit_field:
  "bit (push_bit (i * 8) (ucast (b::byte)) :: 'a::len word) k \<longleftrightarrow>
     k < LENGTH('a) \<and> k div 8 = i \<and> bit b (k mod 8)"
proof (cases "k div 8 = i")
  case True
  then have "k = i * 8 + k mod 8"
    using div_mult_mod_eq [of k 8] by simp
  then have "i * 8 \<le> k" "k - i * 8 = k mod 8" by linarith+
  then show ?thesis
    using True bit_imp_le_length [of b "k mod 8"] by (auto simp: bit_push_bit_iff bit_ucast_iff)
next
  case False
  have "\<not> bit b (k - i * 8)" if le: "i * 8 \<le> k"
  proof
    assume "bit b (k - i * 8)"
    then have "k - i * 8 < 8" using bit_imp_le_length [of b] by force
    moreover obtain j where "k = i * 8 + j" using le le_Suc_ex by blast
    ultimately show False using False by simp
  qed
  then show ?thesis
    using False by (auto simp: bit_push_bit_iff bit_ucast_iff)
qed

lemma bit_from_le:
  "bit (from_le bs :: 'a::len word) k \<longleftrightarrow> k < LENGTH('a) \<and> k div 8 < length bs \<and> bit (bs ! (k div 8)) (k mod 8)"
  unfolding from_le_def bit_fold_or bit_field by auto

lemma from_be_le: "from_be bs = (from_le (rev bs) :: 'a::len word)"
proof (rule bit_word_eqI)
  fix k assume k: "k < LENGTH('a)"
  have "(\<exists>i<length bs. k div 8 = length bs - 1 - i \<and> bit (bs ! i) (k mod 8)) \<longleftrightarrow>
      k div 8 < length bs \<and> bit (bs ! (length bs - 1 - k div 8)) (k mod 8)"
    by (rule iffI; elim exE conjE) (auto intro!: exI [of _ "length bs - 1 - k div 8"])
  then show "bit (from_be bs :: 'a word) k = bit (from_le (rev bs) :: 'a word) k"
    unfolding from_be_def bit_fold_or bit_field bit_from_le using k by (auto simp: rev_nth)
qed

lemma to_be_le: "to_be n x = rev (to_le n x)"
  by (rule nth_equalityI) (auto simp: to_be_def to_le_def rev_nth)

lemma from_to_le: "LENGTH('a) = 8 * n \<Longrightarrow> from_le (to_le n x) = (x::'a::len word)"
proof (rule bit_word_eqI)
  fix k assume n: "LENGTH('a) = 8 * n" and k: "k < LENGTH('a)"
  have "k div 8 * 8 + k mod 8 = k" by simp
  then show "bit (from_le (to_le n x) :: 'a word) k = bit x k"
    using n k by (auto simp: bit_from_le to_le_def bit_ucast_iff bit_drop_bit_eq less_mult_imp_div_less mult.commute)
qed

lemma to_from_le:
  assumes "LENGTH('a) = 8 * n" "length bs = n"
  shows "to_le n (from_le bs :: 'a::len word) = bs"
proof (rule nth_equalityI)
  fix i assume "i < length (to_le n (from_le bs :: 'a word))"
  then have i: "i < n" by (simp add: to_le_def)
  show "to_le n (from_le bs :: 'a word) ! i = bs ! i"
  proof (rule bit_word_eqI)
    fix k assume "k < LENGTH(8)"
    then have k: "k < 8" by simp
    have "i * 8 + k < 8 * n" "(i * 8 + k) div 8 = i" "(i * 8 + k) mod 8 = k"
      using i k by simp_all
    then show "bit (to_le n (from_le bs :: 'a word) ! i) k = bit (bs ! i) k"
      using i k assms by (simp add: to_le_def bit_ucast_iff bit_drop_bit_eq bit_from_le add.commute mult.commute)
  qed
qed (simp add: to_le_def assms)

subsection \<open>Properties\<close>

text \<open>C40: For words of 16, 32 and 64 bits, reading a little or big endian field inverts writing it, and
  writing inverts reading for every field of the right size; the big endian field is the little
  endian one with its bytes reversed.\<close>

theorem endian_roundtrip:
  assumes "LENGTH('a) = 8 * n" "length bs = n"
  shows "from_le (to_le n x) = (x::'a::len word) \<and> to_le n (from_le bs :: 'a word) = bs \<and>
    from_be (to_be n x) = x \<and> to_be n (from_be bs :: 'a word) = bs \<and> to_be n x = rev (to_le n x)"
  using from_to_le [OF assms(1), of x] to_from_le [OF assms] to_from_le [OF assms(1), of "rev bs"] assms(2)
  by (simp add: from_be_le to_be_le)

theorem endian_roundtrip_witness:
  "from_le (to_le 2 (0x1234::u16)) = (0x1234::u16) \<and> from_be (to_be 2 (0x1234::u16)) = (0x1234::u16) \<and>
   to_le 2 (from_le [1, 2] :: u16) = [1, 2]"
proof -
  have "LENGTH(16) = 8 * 2" "length [1, 2 :: byte] = 2" by simp_all
  from endian_roundtrip [OF this, of "0x1234"] show ?thesis by blast
qed

end
