(* ===== verification/Pmm.thy ===== *)
theory Pmm
  imports Klist
begin

section \<open>The physical memory manager\<close>

text \<open>
  Models \<^verbatim>\<open>kernel/mem/pmm1.c\<close>, \<^verbatim>\<open>kernel/mem/pmm.c\<close> and \<^verbatim>\<open>kernel/include/mem/pmm.h\<close>: the boot allocator, the
  buddy allocator and the reference counts of pages.

  A page is its frame number: the code's physical addresses are page aligned, and
  \<^verbatim>\<open>start ^ (ORDER2COUNT(order) * PAGE_SIZE)\<close> on addresses is \<open>xor\<close> with \<open>2 ^ order\<close> on frame numbers.
  \<^verbatim>\<open>PAGE_INVALID\<close> is \<open>None\<close>. A free list is the list of the frames linked in it, which is what theory
  \<open>Klist\<close> proves of the intrusive lists as long as a node is removed from the list that holds
  it; removing it from another list, which would overwrite that list's ends, is the fault
  \<open>KListCorrupt\<close>. The counters are 64-bit words and wrap as in the code. The three zone locks make
  the bodies single steps.
\<close>

subsection \<open>The boot allocator\<close>

text \<open>The entries of \<^verbatim>\<open>head\<close>: first frame and number of frames.\<close>

type_synonym pmm1 = "(nat \<times> nat) list"

fun pmm1_allocate_page :: "pmm1 \<Rightarrow> nat option \<times> pmm1" where
  "pmm1_allocate_page [] = (None, [])"
| "pmm1_allocate_page ((start, count) # rest) =
     (if count > 1 then (Some (start + (count - 1)), (start, count - 1) # rest)
      else (Some start, rest))"

definition pmm1_add_free_pages :: "pmm1 \<Rightarrow> nat \<Rightarrow> nat \<Rightarrow> pmm1" where
  "pmm1_add_free_pages head start count = (if count = 0 then head else (start, count) # head)"

fun pmm1_get_free_pages :: "pmm1 \<Rightarrow> (nat \<times> nat) option \<times> pmm1" where
  "pmm1_get_free_pages [] = (None, [])"
| "pmm1_get_free_pages (entry # rest) = (Some entry, rest)"

subsection \<open>The buddy allocator\<close>

definition ORDERS_COUNT :: nat where
  "ORDERS_COUNT = 7"

abbreviation ORDER2COUNT :: "nat \<Rightarrow> nat" where
  "ORDER2COUNT order \<equiv> 2 ^ order"

record page =
  ref_count :: u32
  page_flags :: u32
  page_private :: "nat option"
  page_order :: nat

definition PAGE_FLAG_USABLE :: u32 where "PAGE_FLAG_USABLE = 0x04"

definition PAGE_FLAG_RESERVED :: u32 where "PAGE_FLAG_RESERVED = 0x08"

definition PAGE_FLAG_LOCKED :: u32 where "PAGE_FLAG_LOCKED = 0x200"

definition ALLOC_FLAG_OOM :: u32 where "ALLOC_FLAG_OOM = 0x2"

definition ALLOC_FLAG_EMERGENCY :: u32 where "ALLOC_FLAG_EMERGENCY = 0x4"

text \<open>The file's static variables and the free lists of the zones. \<open>alloc_flags\<close> are the flags of the
  running task, or those of the boot before there is one.\<close>

record pmm_state =
  pmm1_head :: pmm1
  pmm_is_stage2 :: bool
  page_info :: "nat \<Rightarrow> page option"
  entries :: "nat \<Rightarrow> nat \<Rightarrow> nat list"
  alloc_flags :: u32
  zero_page :: "nat option"
  highest_page :: nat
  used_pages :: u64
  usable_pages :: u64
  private_pages :: u64
  shared_pages :: u64
  total_pages :: u64

text \<open>The frame numbers where the zones end: the constants of the code divided by the page size.\<close>

definition ZONE_DMA24_END :: nat where "ZONE_DMA24_END = 2 ^ 16 div PAGE_SIZE"

definition ZONE_DMA32_END :: nat where "ZONE_DMA32_END = 2 ^ 32 div PAGE_SIZE"

definition pmm_get_zone :: "nat \<Rightarrow> nat" where
  "pmm_get_zone p = (if p < ZONE_DMA24_END then 0 else if p < ZONE_DMA32_END then 1 else 2)"

definition pmm_is_free :: "page \<Rightarrow> bool" where
  "pmm_is_free i \<longleftrightarrow> ref_count i = 0 \<and> and (page_flags i) PAGE_FLAG_RESERVED = 0"

definition set_order :: "pmm_state \<Rightarrow> nat \<Rightarrow> nat \<Rightarrow> pmm_state" where
  "set_order s p order = s\<lparr>page_info := (page_info s)(p := map_option (page_order_update (\<lambda>_. order)) (page_info s p))\<rparr>"

definition set_entries :: "pmm_state \<Rightarrow> nat \<Rightarrow> nat \<Rightarrow> nat list \<Rightarrow> pmm_state" where
  "set_entries s zone order ps = s\<lparr>entries := (entries s)(zone := (entries s zone)(order := ps))\<rparr>"

function pmm_raw_helper_allocate_pages :: "pmm_state \<Rightarrow> nat \<Rightarrow> nat \<Rightarrow> (nat option \<times> pmm_state) kres" where
  "pmm_raw_helper_allocate_pages s zone order =
     (if order \<ge> ORDERS_COUNT then Inr (None, s)
      else if entries s zone order \<noteq> [] then
        (let pages = last (entries s zone order)
         in Inr (Some pages, set_entries s zone order (remove1 pages (entries s zone order))))
      else kbind (pmm_raw_helper_allocate_pages s zone (order + 1)) (\<lambda>(r, s1).
             case r of
               None \<Rightarrow> Inr (None, s1)
             | Some pages \<Rightarrow>
                 (let unused = pages + ORDER2COUNT order in
                  if page_info s1 unused = None then Inl KPanic
                  else (let s2 = set_order s1 unused order
                        in Inr (Some pages, set_entries s2 zone order (entries s2 zone order @ [unused]))))))"
  by auto
termination
  by (relation "measure (\<lambda>(s, z, k). ORDERS_COUNT - k)") auto

declare pmm_raw_helper_allocate_pages.simps [simp del]

definition reset_page :: "page \<Rightarrow> page" where
  "reset_page i = i\<lparr>page_flags := and (page_flags i) (or PAGE_FLAG_USABLE PAGE_FLAG_RESERVED),
     ref_count := 1, page_private := None\<rparr>"

text \<open>The \<^verbatim>\<open>for\<close> loop over the pages of a block, with the assertion that each has a descriptor.\<close>

fun pmm_reset_pages :: "(nat \<Rightarrow> page option) \<Rightarrow> nat \<Rightarrow> nat \<Rightarrow> (nat \<Rightarrow> page option) kres" where
  "pmm_reset_pages info p 0 = Inr info"
| "pmm_reset_pages info p (Suc n) =
     (case info p of
        None \<Rightarrow> Inl KPanic
      | Some i \<Rightarrow> pmm_reset_pages (info(p \<mapsto> reset_page i)) (Suc p) n)"

definition pmm_helper_allocate_pages :: "pmm_state \<Rightarrow> nat \<Rightarrow> nat \<Rightarrow> (nat option \<times> pmm_state) kres" where
  "pmm_helper_allocate_pages s zone order =
     kbind (pmm_raw_helper_allocate_pages s zone order) (\<lambda>(r, s1).
       case r of
         None \<Rightarrow> Inr (None, s1)
       | Some pages \<Rightarrow>
           kbind (pmm_reset_pages (page_info s1) pages (ORDER2COUNT order)) (\<lambda>info.
             Inr (Some pages, s1\<lparr>page_info := info, used_pages := used_pages s1 + of_nat (ORDER2COUNT order),
                    private_pages := private_pages s1 + of_nat (ORDER2COUNT order)\<rparr>)))"

definition pmm_get_free_pages :: "pmm_state \<Rightarrow> u64" where
  "pmm_get_free_pages s = total_pages s - used_pages s"

definition pmm_get_emergency_pages :: u64 where
  "pmm_get_emergency_pages = of_nat (3 * 1000000 div PAGE_SIZE)"

fun pmm_zone_loop :: "nat \<Rightarrow> pmm_state \<Rightarrow> nat \<Rightarrow> (nat option \<times> pmm_state) kres" where
  "pmm_zone_loop 0 s order = pmm_helper_allocate_pages s 0 order"
| "pmm_zone_loop (Suc zone) s order =
     kbind (pmm_helper_allocate_pages s (Suc zone) order) (\<lambda>(r, s1).
       if r \<noteq> None then Inr (r, s1) else pmm_zone_loop zone s1 order)"

text \<open>Waking the evicter when few pages are left does not change this state.\<close>

definition pmm_zone_allocate_pages_flags ::
    "pmm_state \<Rightarrow> nat \<Rightarrow> nat \<Rightarrow> u32 \<Rightarrow> (nat option \<times> pmm_state) kres" where
  "pmm_zone_allocate_pages_flags s zone0 order flags0 =
     (let flags = or flags0 (alloc_flags s);
          zone = (if zone0 = 42 then 2 else zone0);
          oom = (\<lambda>s. if and flags ALLOC_FLAG_OOM \<noteq> 0 then Inl KPanic else Inr (None, s)) in
      if \<not> pmm_is_stage2 s then
        (if order \<noteq> 0 then Inl KPanic
         else case pmm1_allocate_page (pmm1_head s) of
                (None, h) \<Rightarrow> oom s
              | (Some page, h) \<Rightarrow> Inr (Some page, s\<lparr>pmm1_head := h\<rparr>))
      else if and flags ALLOC_FLAG_EMERGENCY = 0 \<and>
              pmm_get_free_pages s < pmm_get_emergency_pages + of_nat (ORDER2COUNT order)
      then oom s
      else kbind (pmm_zone_loop zone s order) (\<lambda>(r, s1).
             if r = None then oom s1 else Inr (r, s1)))"

definition pmm_allocate_page :: "pmm_state \<Rightarrow> (nat option \<times> pmm_state) kres" where
  "pmm_allocate_page s = pmm_zone_allocate_pages_flags s 42 0 0"

definition pmm_set_flags :: "pmm_state \<Rightarrow> u32 \<Rightarrow> u32 \<times> pmm_state" where
  "pmm_set_flags s flags = (alloc_flags s, s\<lparr>alloc_flags := flags\<rparr>)"

text \<open>Freeing: merge with the buddy as long as it is a free block of the same order.\<close>

definition list_take_out :: "nat list \<Rightarrow> nat \<Rightarrow> nat list kres" where
  "list_take_out ps p = (if p \<in> set ps then Inr (remove1 p ps) else Inl KListCorrupt)"

function pmm_merge_loop :: "pmm_state \<Rightarrow> nat \<Rightarrow> nat \<Rightarrow> nat \<Rightarrow> (nat \<times> nat \<times> pmm_state) kres" where
  "pmm_merge_loop s zone start order =
     (if order + 1 < ORDERS_COUNT then
        (let merging_page = xor start (ORDER2COUNT order) in
         case page_info s merging_page of
           None \<Rightarrow> Inr (start, order, s)
         | Some i \<Rightarrow>
             if \<not> pmm_is_free i \<or> page_order i \<noteq> order then Inr (start, order, s)
             else kbind (list_take_out (entries s zone order) merging_page) (\<lambda>ps.
                    pmm_merge_loop (set_entries s zone order ps) zone
                      (if merging_page < start then merging_page else start) (order + 1)))
      else Inr (start, order, s))"
  by auto
termination
  by (relation "measure (\<lambda>(s, z, p, k). ORDERS_COUNT - k)") auto

declare pmm_merge_loop.simps [simp del]

definition pmm_zone_set_free_pages :: "pmm_state \<Rightarrow> nat \<Rightarrow> nat \<Rightarrow> nat \<Rightarrow> pmm_state kres" where
  "pmm_zone_set_free_pages s zone start0 order0 =
     (let s1 = s\<lparr>used_pages := used_pages s - of_nat (ORDER2COUNT order0),
                 private_pages := private_pages s - of_nat (ORDER2COUNT order0)\<rparr> in
      kbind (pmm_merge_loop s1 zone start0 order0) (\<lambda>(start, order, s2).
        let s3 = set_entries s2 zone order (entries s2 zone order @ [start]) in
        if page_info s3 start = None then Inl KNullDeref else Inr (set_order s3 start order)))"

definition mark_free :: "(nat \<Rightarrow> page option) \<Rightarrow> nat \<Rightarrow> nat \<Rightarrow> nat \<Rightarrow> page option" where
  "mark_free info start n = (\<lambda>p. if start \<le> p \<and> p < start + n then map_option (ref_count_update (\<lambda>_. 0)) (info p) else info p)"

definition pmm_set_free_pages :: "pmm_state \<Rightarrow> nat \<Rightarrow> nat \<Rightarrow> pmm_state kres" where
  "pmm_set_free_pages s start order =
     (if start mod ORDER2COUNT order \<noteq> 0 then Inl KPanic
      else pmm_zone_set_free_pages (s\<lparr>page_info := mark_free (page_info s) start (ORDER2COUNT order)\<rparr>)
             (pmm_get_zone start) start order)"

text \<open>The largest order that fits the count and the alignment of the start.\<close>

definition pmm_range_order :: "nat \<Rightarrow> nat \<Rightarrow> nat" where
  "pmm_range_order start count =
     (case find (\<lambda>order. \<not> count < ORDER2COUNT order \<and> start mod ORDER2COUNT order = 0) (rev [0..<ORDERS_COUNT]) of
        Some order \<Rightarrow> order | None \<Rightarrow> 0)"

function pmm_set_free_pages_range :: "pmm_state \<Rightarrow> nat \<Rightarrow> nat \<Rightarrow> pmm_state kres" where
  "pmm_set_free_pages_range s start count =
     (if count = 0 then Inr s
      else let order = pmm_range_order start count in
        kbind (pmm_set_free_pages s start order) (\<lambda>s1.
          pmm_set_free_pages_range s1 (start + ORDER2COUNT order) (count - ORDER2COUNT order)))"
  by auto
termination
  by (relation "measure (\<lambda>(s, p, n). n)") auto

declare pmm_set_free_pages_range.simps [simp del]

subsection \<open>Reference counts\<close>

definition set_ref :: "pmm_state \<Rightarrow> nat \<Rightarrow> u32 \<Rightarrow> pmm_state" where
  "set_ref s p n = s\<lparr>page_info := (page_info s)(p := map_option (ref_count_update (\<lambda>_. n)) (page_info s p))\<rparr>"

text \<open>The compare-and-exchange loop of \<^verbatim>\<open>pmm_retain\<close> ends with the exchange it managed to make, which is
  one atomic step of the counter.\<close>

definition pmm_retain :: "pmm_state \<Rightarrow> nat \<Rightarrow> (bool \<times> pmm_state) kres" where
  "pmm_retain s p =
     (case page_info s p of
        None \<Rightarrow> Inl KPanic
      | Some i \<Rightarrow>
          if ref_count i = 0 then Inr (False, s)
          else (let s1 = set_ref s p (ref_count i + 1)
                in Inr (True, if ref_count i = 1
                              then s1\<lparr>private_pages := private_pages s1 - 1, shared_pages := shared_pages s1 + 1\<rparr>
                              else s1)))"

definition pmm_release_page :: "pmm_state \<Rightarrow> nat \<Rightarrow> pmm_state kres" where
  "pmm_release_page s p =
     (case page_info s p of
        None \<Rightarrow> pmm_set_free_pages s p 0
      | Some i \<Rightarrow>
          (let s1 = set_ref s p (ref_count i - 1) in
           if ref_count i \<noteq> 1
           then Inr (if ref_count i = 2
                     then s1\<lparr>shared_pages := shared_pages s1 - 1, private_pages := private_pages s1 + 1\<rparr> else s1)
           else pmm_set_free_pages s1 p 0))"

definition pmm_get_zero_page :: "pmm_state \<Rightarrow> (nat option \<times> pmm_state) kres" where
  "pmm_get_zero_page s =
     (case zero_page s of
        None \<Rightarrow> Inl KPanic
      | Some p \<Rightarrow> kbind (pmm_retain s p) (\<lambda>(_, s1). Inr (zero_page s1, s1)))"

definition pmm_is_page_usable :: "pmm_state \<Rightarrow> nat \<Rightarrow> bool" where
  "pmm_is_page_usable s p =
     (if p > highest_page s then False
      else case page_info s p of None \<Rightarrow> False | Some i \<Rightarrow> and (page_flags i) PAGE_FLAG_USABLE \<noteq> 0)"

text \<open>The page locks: the lock bit of the flags, set and cleared by atomic operations.\<close>

definition set_flags :: "pmm_state \<Rightarrow> nat \<Rightarrow> u32 \<Rightarrow> pmm_state" where
  "set_flags s p f = s\<lparr>page_info := (page_info s)(p := map_option (page_flags_update (\<lambda>_. f)) (page_info s p))\<rparr>"

definition pmm_try_acquire_page_lock :: "pmm_state \<Rightarrow> nat \<Rightarrow> (bool \<times> pmm_state) kres" where
  "pmm_try_acquire_page_lock s p =
     (if \<not> pmm_is_stage2 s then Inr (False, s)
      else case page_info s p of
             None \<Rightarrow> Inl KNullDeref
           | Some i \<Rightarrow> Inr (and (page_flags i) PAGE_FLAG_LOCKED = 0,
                            set_flags s p (or (page_flags i) PAGE_FLAG_LOCKED)))"

definition pmm_release_page_lock :: "pmm_state \<Rightarrow> nat \<Rightarrow> pmm_state kres" where
  "pmm_release_page_lock s p =
     (if \<not> pmm_is_stage2 s then Inr s
      else case page_info s p of
             None \<Rightarrow> Inl KNullDeref
           | Some i \<Rightarrow> if and (page_flags i) PAGE_FLAG_LOCKED = 0 then Inl KPanic
                       else Inr (set_flags s p (and (page_flags i) (not PAGE_FLAG_LOCKED))))"

subsection \<open>The two stages of the initialisation\<close>

datatype memmap_type = MEMMAP_USABLE | MEMMAP_BOOTLOADER | MEMMAP_KERNEL | MEMMAP_OTHER

record memmap_entry =
  me_start :: nat
  me_size :: nat
  me_type :: memmap_type

text \<open>The frames of an entry of the boot loader's map, from the aligned start to the aligned end.\<close>

definition entry_frames :: "memmap_entry \<Rightarrow> nat \<times> nat" where
  "entry_frames e = (PAGE_ALIGN_UP (me_start e) div PAGE_SIZE, PAGE_ALIGN_DOWN (me_start e + me_size e) div PAGE_SIZE)"

definition init_pmm_entry :: "memmap_entry \<Rightarrow> pmm_state \<Rightarrow> pmm_state" where
  "init_pmm_entry e s =
     (if me_type e = MEMMAP_OTHER then s
      else case entry_frames e of (start, finish) \<Rightarrow>
        if start \<ge> finish then s
        else let s1 = s\<lparr>highest_page := max (highest_page s) (finish - 1),
                        total_pages := total_pages s + of_nat (finish - start),
                        used_pages := used_pages s + of_nat (finish - start)\<rparr>
             in if me_type e \<noteq> MEMMAP_USABLE then s1
                else s1\<lparr>pmm1_head := pmm1_add_free_pages (pmm1_head s1) start (finish - start)\<rparr>)"

definition init_pmm :: "memmap_entry list \<Rightarrow> pmm_state \<Rightarrow> pmm_state" where
  "init_pmm memmap s = (let s1 = fold init_pmm_entry memmap s in s1\<lparr>private_pages := total_pages s1\<rparr>)"

definition PAGES_PER_SECTION :: nat where
  "PAGES_PER_SECTION = 2 ^ 14"

text \<open>A new section of descriptors: every page reserved and in use. The \<open>order\<close> and \<open>private\<close> words
  of fresh memory are arguments.\<close>

definition pmm_allocate_page_section :: "page \<Rightarrow> page" where
  "pmm_allocate_page_section fresh = fresh\<lparr>page_flags := PAGE_FLAG_RESERVED, ref_count := 1\<rparr>"

definition pmm_add_sections :: "page \<Rightarrow> memmap_entry \<Rightarrow> (nat \<Rightarrow> page option) \<Rightarrow> nat \<Rightarrow> page option" where
  "pmm_add_sections fresh e info =
     (if me_type e = MEMMAP_OTHER then info
      else case entry_frames e of (start, finish) \<Rightarrow>
        if start \<ge> finish then info
        else (\<lambda>p. if start div PAGES_PER_SECTION \<le> p div PAGES_PER_SECTION \<and>
                     p div PAGES_PER_SECTION * PAGES_PER_SECTION < finish \<and> info p = None
                  then Some (pmm_allocate_page_section fresh) else info p))"

definition mark_usable :: "(nat \<Rightarrow> page option) \<Rightarrow> nat \<Rightarrow> nat \<Rightarrow> nat \<Rightarrow> page option" where
  "mark_usable info start n =
     (\<lambda>p. if start \<le> p \<and> p < start + n then map_option (page_flags_update (\<lambda>_. PAGE_FLAG_USABLE)) (info p) else info p)"

fun pmm_hand_over :: "pmm1 \<Rightarrow> pmm_state \<Rightarrow> pmm_state kres" where
  "pmm_hand_over [] s = Inr (s\<lparr>pmm1_head := []\<rparr>)"
| "pmm_hand_over ((start, count) # rest) s =
     (if \<exists>p \<in> {start..<start + count}. page_info s p = None then Inl KNullDeref
      else kbind (pmm_set_free_pages_range
             (s\<lparr>usable_pages := usable_pages s + of_nat count, page_info := mark_usable (page_info s) start count\<rparr>)
             start count) (pmm_hand_over rest))"

text \<open>Mapping the section array and the sections takes pages from the boot allocator, their number
  \<open>taken\<close> depending on the architecture's page tables. The write to the zero page when none could be
  allocated goes to a wild address.\<close>

fun pmm1_take :: "nat \<Rightarrow> pmm1 \<Rightarrow> pmm1" where
  "pmm1_take 0 head = head"
| "pmm1_take (Suc n) head = pmm1_take n (snd (pmm1_allocate_page head))"

definition init_second_stage_pmm :: "page \<Rightarrow> nat \<Rightarrow> memmap_entry list \<Rightarrow> pmm_state \<Rightarrow> pmm_state kres" where
  "init_second_stage_pmm fresh taken memmap s =
     kbind (pmm_hand_over (pmm1_take taken (pmm1_head s))
              (s\<lparr>page_info := fold (pmm_add_sections fresh) memmap (page_info s)\<rparr>)) (\<lambda>s1.
       kbind (pmm_allocate_page (s1\<lparr>pmm_is_stage2 := True\<rparr>)) (\<lambda>(r, s2).
         case r of
           None \<Rightarrow> Inl KNullDeref
         | Some page \<Rightarrow> Inr (s2\<lparr>zero_page := Some page\<rparr>)))"

subsection \<open>Blocks\<close>

definition span :: "nat \<Rightarrow> nat \<Rightarrow> nat set" where
  "span p k = {p..<p + 2 ^ k}"

lemma span_0 [simp]: "span p 0 = {p}"
  by (auto simp: span_def)

lemma head_in_span [simp]: "p \<in> span p k"
  by (simp add: span_def)

lemma dvd_gap: "d dvd a \<Longrightarrow> d dvd b \<Longrightarrow> a < b \<Longrightarrow> a + d \<le> (b::nat)"
  by (metis dvd_diff_nat dvd_imp_le le_diff_conv2 less_imp_le_nat add.commute zero_less_diff)

lemma span_head:
  assumes "2 ^ k dvd q" "2 ^ k' dvd p" "p \<in> span q k" "k \<le> k'"
  shows "p = q"
proof (rule ccontr)
  assume "p \<noteq> q"
  moreover have "2 ^ k dvd p" using assms(2,4) by (meson dvd_trans le_imp_power_dvd)
  ultimately show False using dvd_gap [OF assms(1)] assms(3) by (fastforce simp: span_def)
qed

lemma span_nested:
  assumes "2 ^ k dvd q" "2 ^ k' dvd p" "k' \<le> k" "x \<in> span p k'" "x \<in> span q k"
  shows "span p k' \<subseteq> span q k"
proof -
  have d: "2 ^ k' dvd q" "(2::nat) ^ k' dvd q + 2 ^ k"
    using assms(1,3) by (meson dvd_add dvd_trans le_imp_power_dvd)+
  have "q \<le> p"
  proof (rule ccontr)
    assume "\<not> q \<le> p"
    then show False using dvd_gap [OF assms(2) d(1)] assms(4,5) by (auto simp: span_def)
  qed
  moreover have "p + 2 ^ k' \<le> q + 2 ^ k"
    using dvd_gap [OF assms(2) d(2)] assms(4,5) by (auto simp: span_def)
  ultimately show ?thesis by (auto simp: span_def)
qed

lemma span_Suc: "span p (Suc k) = span p k \<union> span (p + 2 ^ k) k" "span p k \<inter> span (p + 2 ^ k) k = {}"
  by (auto simp: span_def)

text \<open>The buddy of an aligned block is the block before or after it, whichever makes an aligned pair.\<close>

lemma xor_buddy:
  fixes p :: nat
  assumes "2 ^ k dvd p"
  shows "xor p (2 ^ k) = (if 2 ^ Suc k dvd p then p + 2 ^ k else p - 2 ^ k)"
proof -
  obtain c where c: "p = 2 ^ k * c" using assms by (rule dvdE)
  have "xor p (2 ^ k) = push_bit k (xor c 1)"
    using push_bit_xor [of k c 1] by (simp add: c push_bit_eq_mult mult.commute)
  also have "xor c 1 = (if even c then c + 1 else c - 1)"
    by (simp add: xor_Suc_0_eq)
  finally show ?thesis by (auto simp: c push_bit_eq_mult algebra_simps diff_mult_distrib2)
qed

lemma zone_in_span:
  assumes "2 ^ k dvd a" "0 < a" "k < ORDERS_COUNT" "q \<in> span a k"
  shows "pmm_get_zone q = pmm_get_zone a"
proof -
  have k: "k \<le> 6" using assms(3) by (simp add: ORDERS_COUNT_def)
  have le: "2 ^ k \<le> a" using assms(1,2) by (simp add: dvd_imp_le)
  have "a + 2 ^ k \<le> 16" if "a < 16"
  proof -
    have "k \<le> 4" using le that power_increasing [of 5 k "2::nat"] by (cases "k \<le> 4") auto
    then have "(2::nat) ^ k dvd 2 ^ 4" by (rule le_imp_power_dvd)
    then show ?thesis using dvd_gap [OF assms(1) _ that] by simp
  qed
  moreover have "a + 2 ^ k \<le> 2 ^ 20" if "a < 2 ^ 20"
    using k dvd_gap [OF assms(1) _ that] by (simp add: le_imp_power_dvd del: power_numeral)
  ultimately show ?thesis
    using assms(4) by (auto simp: pmm_get_zone_def ZONE_DMA24_END_def ZONE_DMA32_END_def PAGE_SIZE_def span_def)
qed

subsection \<open>The invariant\<close>

text \<open>A set of blocks tiles a set of pages: disjoint, and covering it.\<close>

definition tiles :: "(nat \<times> nat) set \<Rightarrow> nat set \<Rightarrow> bool" where
  "tiles B F \<longleftrightarrow> (\<Union>(p, k) \<in> B. span p k) = F \<and>
     (\<forall>p k q j x. (p, k) \<in> B \<longrightarrow> (q, j) \<in> B \<longrightarrow> x \<in> span p k \<longrightarrow> x \<in> span q j \<longrightarrow> p = q \<and> k = j)"

lemma tiles_cover: "tiles B F \<Longrightarrow> x \<in> F \<Longrightarrow> \<exists>p k. (p, k) \<in> B \<and> x \<in> span p k"
  unfolding tiles_def by blast

lemma tiles_subset: "tiles B F \<Longrightarrow> (p, k) \<in> B \<Longrightarrow> span p k \<subseteq> F"
  unfolding tiles_def by blast

lemma tiles_unique:
  "tiles B F \<Longrightarrow> (p, k) \<in> B \<Longrightarrow> (q, j) \<in> B \<Longrightarrow> x \<in> span p k \<Longrightarrow> x \<in> span q j \<Longrightarrow> p = q \<and> k = j"
  unfolding tiles_def by blast

lemma tiles_take:
  assumes "tiles B F" "(p, k) \<in> B"
  shows "tiles (B - {(p, k)}) (F - span p k)"
proof -
  have "(\<Union>(q, j) \<in> B - {(p, k)}. span q j) = F - span p k"
    using tiles_cover [OF assms(1)] tiles_subset [OF assms(1)] tiles_unique [OF assms(1) _ assms(2)] by fast
  then show ?thesis using tiles_unique [OF assms(1)] unfolding tiles_def by blast
qed

lemma tiles_put:
  assumes "tiles B F" "span p k \<inter> F = {}"
  shows "tiles (insert (p, k) B) (F \<union> span p k)"
  using assms unfolding tiles_def by fast

definition blocks :: "pmm_state \<Rightarrow> (nat \<times> nat) set" where
  "blocks s = {(p, k). \<exists>z. p \<in> set (entries s z k)}"

text \<open>The free lists: every block is aligned, in the list of its zone and order and has the order in
  its descriptor, and together they tile the pages of \<open>F\<close>.\<close>

definition lists_ok :: "pmm_state \<Rightarrow> nat set \<Rightarrow> bool" where
  "lists_ok s F \<longleftrightarrow>
     (\<forall>z k p. p \<in> set (entries s z k) \<longrightarrow> k < ORDERS_COUNT \<and> pmm_get_zone p = z \<and> 2 ^ k dvd p \<and>
        (\<exists>i. page_info s p = Some i \<and> page_order i = k)) \<and>
     (\<forall>z k. distinct (entries s z k)) \<and> tiles (blocks s) F"

definition free_pages :: "pmm_state \<Rightarrow> nat set" where
  "free_pages s = {p. \<exists>i. page_info s p = Some i \<and> pmm_is_free i}"

definition reserved :: "pmm_state \<Rightarrow> nat \<Rightarrow> bool" where
  "reserved s p \<longleftrightarrow> (case page_info s p of None \<Rightarrow> True | Some i \<Rightarrow> and (page_flags i) PAGE_FLAG_RESERVED \<noteq> 0)"

definition pmm_inv :: "pmm_state \<Rightarrow> bool" where
  "pmm_inv s \<longleftrightarrow> lists_ok s (free_pages s) \<and> reserved s 0"

lemma lists_okD:
  assumes "lists_ok s F" "p \<in> set (entries s z k)"
  shows "k < ORDERS_COUNT" "pmm_get_zone p = z" "2 ^ k dvd p" "(p, k) \<in> blocks s"
    "\<exists>i. page_info s p = Some i \<and> page_order i = k"
  using assms by (auto simp: lists_ok_def blocks_def)

lemma lists_ok_tiles: "lists_ok s F \<Longrightarrow> tiles (blocks s) F"
  by (simp add: lists_ok_def)

lemma lists_ok_cong:
  assumes "lists_ok s F" "entries s' = entries s"
    "\<And>z k p. p \<in> set (entries s z k) \<Longrightarrow> map_option page_order (page_info s' p) = map_option page_order (page_info s p)"
  shows "lists_ok s' F"
proof -
  have "\<exists>i. page_info s' p = Some i \<and> page_order i = k" if "p \<in> set (entries s z k)" for p z k
    using lists_okD(5) [OF assms(1) that] assms(3) [OF that] by (auto simp: map_option_eq_Some)
  then show ?thesis using assms(1) by (auto simp: lists_ok_def blocks_def assms(2))
qed

lemma entries_set_entries [simp]:
  "entries (set_entries s z k ps) z' k' = (if z' = z \<and> k' = k then ps else entries s z' k')"
  by (simp add: set_entries_def)

lemma set_entries_fields [simp]:
  "page_info (set_entries s z k ps) = page_info s"
  "pmm_state.more (set_entries s z k ps) = pmm_state.more s"
  by (simp_all add: set_entries_def)

lemma entries_set_order [simp]: "entries (set_order s p k) = entries s"
  by (simp add: set_order_def)

lemma page_info_set_order:
  "page_info (set_order s p k) = (page_info s)(p := map_option (page_order_update (\<lambda>_. k)) (page_info s p))"
  by (simp add: set_order_def)

text \<open>Taking a block out of its list and putting one into a list.\<close>

lemma lists_ok_take:
  assumes "lists_ok s F" "p \<in> set (entries s z k)"
  shows "lists_ok (set_entries s z k (remove1 p (entries s z k))) (F - span p k)" (is "lists_ok ?s _")
proof -
  have dist: "distinct (entries s z k)" using assms(1) by (simp add: lists_ok_def)
  have keep: "q \<in> set (entries ?s z' k') \<longleftrightarrow> q \<in> set (entries s z' k') \<and> \<not> (q = p \<and> z' = z \<and> k' = k)" for q z' k'
    using dist by auto
  have "blocks ?s = blocks s - {(p, k)}"
    unfolding blocks_def keep using lists_okD(2) [OF assms(1)] assms(2) by blast
  then have "tiles (blocks ?s) (F - span p k)"
    using tiles_take [OF lists_ok_tiles [OF assms(1)] lists_okD(4) [OF assms]] by simp
  moreover have "distinct (entries ?s z' k')" for z' k' using assms(1) by (simp add: lists_ok_def)
  ultimately show ?thesis unfolding lists_ok_def keep set_entries_fields using lists_okD [OF assms(1)] by blast
qed

lemma lists_ok_put:
  assumes "lists_ok s F" "2 ^ k dvd p" "k < ORDERS_COUNT" "span p k \<inter> F = {}" "page_info s p \<noteq> None"
    "z = pmm_get_zone p"
  shows "lists_ok (set_order (set_entries s z k (entries s z k @ [p])) p k) (F \<union> span p k)" (is "lists_ok ?s _")
proof -
  have notin: "p \<notin> set (entries s z' k')" for z' k'
    using tiles_subset [OF lists_ok_tiles [OF assms(1)] lists_okD(4) [OF assms(1)]] assms(4) head_in_span by blast
  have keep: "q \<in> set (entries ?s z' k') \<longleftrightarrow> q \<in> set (entries s z' k') \<or> q = p \<and> z' = z \<and> k' = k" for q z' k'
    by auto
  have "blocks ?s = insert (p, k) (blocks s)" unfolding blocks_def keep by blast
  then have "tiles (blocks ?s) (F \<union> span p k)" using tiles_put [OF lists_ok_tiles [OF assms(1)] assms(4)] by simp
  moreover have "distinct (entries ?s z' k')" for z' k' using assms(1) notin by (simp add: lists_ok_def)
  moreover have "\<exists>i. page_info ?s q = Some i \<and> page_order i = k'" if "q \<in> set (entries ?s z' k')" for q z' k'
    using that lists_okD(5) [OF assms(1), of q z' k'] notin assms(5) by (auto simp: page_info_set_order split: if_splits)
  ultimately show ?thesis unfolding lists_ok_def using lists_okD(1-3) [OF assms(1)] assms(2,3,6)
    by (metis keep)
qed

lemma set_entries_set_order: "set_entries (set_order s p k) z j ps = set_order (set_entries s z j ps) p k"
  by (simp add: set_entries_def set_order_def)

subsection \<open>Allocation\<close>

text \<open>What allocation may change before it resets the pages: the lists and the orders.\<close>

definition same_but_order :: "pmm_state \<Rightarrow> pmm_state \<Rightarrow> bool" where
  "same_but_order s s' \<longleftrightarrow>
     s'\<lparr>page_info := page_info s, entries := entries s\<rparr> = s \<and>
     (\<forall>q. map_option (page_order_update (\<lambda>_. 0)) (page_info s' q) = map_option (page_order_update (\<lambda>_. 0)) (page_info s q))"

lemma same_but_order_refl [simp]: "same_but_order s s"
  by (simp add: same_but_order_def)

lemma same_but_order_trans:
  "same_but_order s s' \<Longrightarrow> same_but_order s' s'' \<Longrightarrow> same_but_order s s''"
  by (cases s, cases s', cases s'') (simp add: same_but_order_def)

lemma same_but_order_set [simp]:
  "same_but_order s (set_entries s z k ps)" "same_but_order s (set_order s p k)"
  by (auto simp: same_but_order_def set_entries_def set_order_def option.map_comp o_def)

lemma same_but_order_entries: "s'\<lparr>entries := entries s\<rparr> = s \<Longrightarrow> same_but_order s s'"
  by (cases s, cases s') (simp add: same_but_order_def)

lemma same_but_order_page:
  assumes "same_but_order s s'"
  shows "page_info s' q = None \<longleftrightarrow> page_info s q = None"
    "page_info s' q = Some i' \<Longrightarrow> \<exists>i. page_info s q = Some i \<and> ref_count i' = ref_count i \<and> page_flags i' = page_flags i"
proof -
  have *: "map_option (page_order_update (\<lambda>_. 0)) (page_info s' q) = map_option (page_order_update (\<lambda>_. 0)) (page_info s q)"
    using assms by (simp add: same_but_order_def)
  show "page_info s' q = None \<longleftrightarrow> page_info s q = None"
    using * by (cases "page_info s' q"; cases "page_info s q") auto
  assume "page_info s' q = Some i'"
  then obtain i where i: "page_info s q = Some i" "i'\<lparr>page_order := 0\<rparr> = i\<lparr>page_order := 0\<rparr>"
    using * by (cases "page_info s q") auto
  from i(2) have "ref_count i' = ref_count i \<and> page_flags i' = page_flags i"
    by (metis page.ext_inject page.surjective page.update_convs(4))
  then show "\<exists>i. page_info s q = Some i \<and> ref_count i' = ref_count i \<and> page_flags i' = page_flags i"
    using i(1) by blast
qed

lemma raw_allocate_split:
  assumes "lists_ok s F" "0 \<notin> F" "F \<subseteq> dom (page_info s)" "Suc k < ORDERS_COUNT"
    "2 ^ Suc k dvd p" "span p (Suc k) \<subseteq> F" "lists_ok s1 (F - span p (Suc k))" "pmm_get_zone p = z"
    "same_but_order s s1" "s2 = set_order s1 (p + 2 ^ k) k"
  shows "page_info s1 (p + 2 ^ k) \<noteq> None"
    "lists_ok (set_entries s2 z k (entries s2 z k @ [p + 2 ^ k])) (F - span p k)"
proof -
  let ?u = "p + 2 ^ k"
  have u: "?u \<in> span p (Suc k)" by (simp add: span_def)
  then have "page_info s ?u \<noteq> None" using assms(3,6) by blast
  then show n: "page_info s1 ?u \<noteq> None" using same_but_order_page(1) [OF assms(9)] by simp
  have "p \<noteq> 0" using assms(2,6) head_in_span [of p "Suc k"] by (metis subsetD)
  then have z: "z = pmm_get_zone ?u" using zone_in_span [OF assms(5) _ assms(4) u] assms(8) by simp
  have d: "2 ^ k dvd ?u" using assms(5) by (metis dvd_add dvd_mult_right dvd_refl power_Suc)
  have "F - span p (Suc k) \<union> span ?u k = F - span p k"
    using assms(6) span_Suc [of p k] by blast
  moreover have "span ?u k \<inter> (F - span p (Suc k)) = {}" using span_Suc(1) [of p k] by blast
  ultimately show "lists_ok (set_entries s2 z k (entries s2 z k @ [?u])) (F - span p k)"
    using lists_ok_put [OF assms(7) d _ _ n z] assms(4) by (simp add: assms(10) set_entries_set_order)
qed

lemma raw_allocate_spec:
  assumes "lists_ok s F" "0 \<notin> F" "F \<subseteq> dom (page_info s)"
  shows "(pmm_raw_helper_allocate_pages s z k = Inr (None, s) \<and> (\<forall>j \<ge> k. entries s z j = [])) \<or>
    (\<exists>p s'. pmm_raw_helper_allocate_pages s z k = Inr (Some p, s') \<and> k < ORDERS_COUNT \<and> 2 ^ k dvd p \<and> span p k \<subseteq> F \<and>
       lists_ok s' (F - span p k) \<and> pmm_get_zone p = z \<and> same_but_order s s')"
  using assms
proof (induction s z k rule: pmm_raw_helper_allocate_pages.induct)
  case (1 s z k)
  note ok = "1.prems"
  have small: "k < ORDERS_COUNT" if "entries s z k \<noteq> []" for k
    using that lists_okD(1) [OF ok(1)] by (meson last_in_set)
  consider (big) "k \<ge> ORDERS_COUNT" | (here) "k < ORDERS_COUNT" "entries s z k \<noteq> []" | (up) "k < ORDERS_COUNT" "entries s z k = []"
    by linarith
  then show ?case
  proof cases
    case big
    then have "\<forall>j \<ge> k. entries s z j = []" using small by (meson le_trans not_le)
    then show ?thesis using big by (simp add: pmm_raw_helper_allocate_pages.simps [of s z k])
  next
    case here
    then have p: "last (entries s z k) \<in> set (entries s z k)" by simp
    show ?thesis
      using here lists_ok_take [OF ok(1) p] lists_okD [OF ok(1) p] tiles_subset [OF lists_ok_tiles [OF ok(1)]]
      by (simp add: pmm_raw_helper_allocate_pages.simps [of s z k] Let_def)
  next
    case up
    have "\<not> ORDERS_COUNT \<le> k" using up by simp
    note IH = "1.IH" [OF this _ ok, unfolded up(2), simplified]
    show ?thesis
      using IH
    proof (elim disjE exE conjE)
      assume none: "\<forall>j \<ge> Suc k. entries s z j = []" "pmm_raw_helper_allocate_pages s z (Suc k) = Inr (None, s)"
      then have "\<forall>j \<ge> k. entries s z j = []" using up(2) by (metis Suc_leI le_neq_implies_less)
      then show ?thesis using up none(2) by (simp add: pmm_raw_helper_allocate_pages.simps [of s z k])
    next
      fix p s1
      assume r: "pmm_raw_helper_allocate_pages s z (Suc k) = Inr (Some p, s1)" "Suc k < ORDERS_COUNT" "2 * 2 ^ k dvd p"
        "span p (Suc k) \<subseteq> F" "lists_ok s1 (F - span p (Suc k))" "pmm_get_zone p = z" "same_but_order s s1"
      note split = raw_allocate_split [OF ok r(2) r(3) [folded power_Suc] r(4-7) refl]
      have "same_but_order s (set_entries (set_order s1 (p + 2 ^ k) k) z k (entries s1 z k @ [p + 2 ^ k]))"
        using same_but_order_trans [OF r(7)] same_but_order_trans same_but_order_set by metis
      moreover have "2 ^ k dvd p" using r(3) by (rule dvd_mult_right)
      ultimately show ?thesis
        using split up r span_Suc(1) [of p k] by (simp add: pmm_raw_helper_allocate_pages.simps [of s z k] Let_def)
    qed
  qed
qed

lemma reset_pages_spec:
  assumes "{p..<p + n} \<subseteq> dom info"
  shows "pmm_reset_pages info p n = Inr (\<lambda>q. if q \<in> {p..<p + n} then map_option reset_page (info q) else info q)"
  using assms
proof (induction n arbitrary: p info)
  case (Suc n)
  obtain i where i: "info p = Some i" using Suc.prems by fastforce
  have "{Suc p..<Suc p + n} \<subseteq> dom (info(p \<mapsto> reset_page i))" using Suc.prems by (auto simp: subset_iff)
  note IH = Suc.IH [OF this]
  show ?case unfolding pmm_reset_pages.simps i option.case IH by (auto simp: i fun_eq_iff)
qed auto

text \<open>What a successful allocation of \<open>2 ^ k\<close> pages at \<open>p\<close> has done.\<close>

definition allocated :: "pmm_state \<Rightarrow> nat \<Rightarrow> nat \<Rightarrow> pmm_state \<Rightarrow> bool" where
  "allocated s k p s' \<longleftrightarrow> k < ORDERS_COUNT \<and> 2 ^ k dvd p \<and> span p k \<subseteq> free_pages s \<and>
     free_pages s' = free_pages s - span p k \<and>
     (\<forall>q \<in> span p k. \<exists>i. page_info s' q = Some i \<and> ref_count i = 1 \<and> page_private i = None) \<and>
     (\<forall>q. q \<notin> span p k \<longrightarrow> map_option ref_count (page_info s' q) = map_option ref_count (page_info s q)) \<and>
     used_pages s' = used_pages s + of_nat (2 ^ k) \<and> private_pages s' = private_pages s + of_nat (2 ^ k) \<and>
     total_pages s' = total_pages s \<and> shared_pages s' = shared_pages s"

lemma free_not_reserved: "reserved s 0 \<Longrightarrow> 0 \<notin> free_pages s" "free_pages s \<subseteq> dom (page_info s)"
  by (auto simp: free_pages_def reserved_def pmm_is_free_def split: option.splits)

lemma same_but_order_free: "same_but_order s s' \<Longrightarrow> free_pages s' = free_pages s"
proof -
  assume same: "same_but_order s s'"
  have "q \<in> free_pages s' \<longleftrightarrow> q \<in> free_pages s" for q
  proof (cases "page_info s' q")
    case None
    then show ?thesis using same_but_order_page(1) [OF same, of q] by (simp add: free_pages_def)
  next
    case (Some i')
    then show ?thesis using same_but_order_page(2) [OF same Some] by (auto simp: free_pages_def pmm_is_free_def)
  qed
  then show "free_pages s' = free_pages s" by blast
qed

lemma same_but_order_counters:
  "same_but_order s s' \<Longrightarrow> used_pages s' = used_pages s \<and> private_pages s' = private_pages s \<and>
     total_pages s' = total_pages s \<and> shared_pages s' = shared_pages s \<and> alloc_flags s' = alloc_flags s"
  by (cases s, cases s') (simp add: same_but_order_def)

lemma reset_page_simps [simp]:
  "ref_count (reset_page i) = 1" "page_private (reset_page i) = None" "page_order (reset_page i) = page_order i"
  "and (page_flags (reset_page i)) PAGE_FLAG_RESERVED = and (page_flags i) PAGE_FLAG_RESERVED"
  by (simp_all add: reset_page_def PAGE_FLAG_RESERVED_def PAGE_FLAG_USABLE_def and.assoc)

lemma helper_allocate_spec:
  assumes "pmm_inv s"
  shows "(pmm_helper_allocate_pages s z k = Inr (None, s) \<and> (\<forall>j \<ge> k. entries s z j = [])) \<or>
    (\<exists>p s'. pmm_helper_allocate_pages s z k = Inr (Some p, s') \<and> allocated s k p s' \<and> pmm_get_zone p = z \<and> pmm_inv s')"
proof -
  have inv: "lists_ok s (free_pages s)" "reserved s 0" using assms by (simp_all add: pmm_inv_def)
  from raw_allocate_spec [OF inv(1) free_not_reserved(1) [OF inv(2)] free_not_reserved(2), of z k]
  show ?thesis
  proof (elim disjE exE conjE)
    fix p s1
    assume r: "pmm_raw_helper_allocate_pages s z k = Inr (Some p, s1)" "k < ORDERS_COUNT" "2 ^ k dvd p" "span p k \<subseteq> free_pages s"
      "lists_ok s1 (free_pages s - span p k)" "pmm_get_zone p = z" "same_but_order s s1"
    let ?info = "\<lambda>q. if q \<in> span p k then map_option reset_page (page_info s1 q) else page_info s1 q"
    let ?s = "s1\<lparr>page_info := ?info, used_pages := used_pages s1 + of_nat (2 ^ k), private_pages := private_pages s1 + of_nat (2 ^ k)\<rparr>"
    have dom: "span p k \<subseteq> dom (page_info s1)"
      using r(4) free_not_reserved(2) [of s1] same_but_order_free [OF r(7)] by blast
    have run: "pmm_helper_allocate_pages s z k = Inr (Some p, ?s)"
      using r(1) reset_pages_spec [OF dom [unfolded span_def]] by (simp add: pmm_helper_allocate_pages_def span_def)
    have free: "free_pages ?s = free_pages s - span p k"
      unfolding same_but_order_free [OF r(7), symmetric] by (auto simp: free_pages_def pmm_is_free_def)
    have "lists_ok ?s (free_pages s - span p k)"
      by (rule lists_ok_cong [OF r(5)]) (simp_all add: option.map_comp o_def)
    moreover have "reserved ?s 0"
      using inv(2) same_but_order_page [OF r(7), of 0] by (fastforce simp: reserved_def split: option.splits)
    moreover have "allocated s k p ?s"
    proof -
      have "map_option ref_count (page_info s1 q) = map_option ref_count (page_info s q)" for q
        using same_but_order_page [OF r(7), of q] by (cases "page_info s1 q") fastforce+
      then show ?thesis
        unfolding allocated_def using r(2-4) dom free same_but_order_counters [OF r(7)] by (auto simp: map_option_case)
    qed
    ultimately show ?thesis using run r(6) free by (auto simp: pmm_inv_def)
  qed (simp add: pmm_helper_allocate_pages_def)
qed

lemma zone_loop_spec:
  assumes "pmm_inv s"
  shows "(pmm_zone_loop z s k = Inr (None, s) \<and> (\<forall>y \<le> z. \<forall>j \<ge> k. entries s y j = [])) \<or>
    (\<exists>p s'. pmm_zone_loop z s k = Inr (Some p, s') \<and> allocated s k p s' \<and> pmm_get_zone p \<le> z \<and> pmm_inv s')"
proof (induction z)
  case 0
  show ?case using helper_allocate_spec [OF assms, of 0 k] by auto
next
  case (Suc z)
  show ?case
    using helper_allocate_spec [OF assms, of "Suc z" k] Suc.IH
    by (elim disjE exE conjE) (auto simp: le_Suc_eq)
qed

subsection \<open>Freeing\<close>

lemma buddy_pair:
  fixes start :: nat
  assumes "2 ^ k dvd start" "m = xor start (2 ^ k)"
  shows "2 ^ Suc k dvd min m start" "span (min m start) (Suc k) = span m k \<union> span start k"
    "span m k \<inter> span start k = {}" "2 ^ k dvd m"
proof -
  have "\<exists>a. 2 ^ Suc k dvd a \<and> (m = a \<and> start = a + 2 ^ k \<or> start = a \<and> m = a + 2 ^ k)"
  proof (cases "2 ^ Suc k dvd start")
    case True
    then show ?thesis using xor_buddy [OF assms(1)] assms(2) by auto
  next
    case False
    obtain c where c: "start = 2 ^ k * c" using assms(1) by (rule dvdE)
    with False obtain d where "c = 2 * d + 1" by (auto elim: oddE)
    then have "start = 2 ^ Suc k * d + 2 ^ k" by (simp add: c algebra_simps)
    then show ?thesis using False xor_buddy [OF assms(1)] assms(2) by (intro exI [of _ "2 ^ Suc k * d"]) simp
  qed
  then obtain a where a: "2 ^ Suc k dvd a" "m = a \<and> start = a + 2 ^ k \<or> start = a \<and> m = a + 2 ^ k" by blast
  then have "2 ^ k dvd a" by (metis dvd_mult_right power_Suc)
  then show "2 ^ Suc k dvd min m start" "span (min m start) (Suc k) = span m k \<union> span start k"
    "span m k \<inter> span start k = {}" "2 ^ k dvd m"
    using a span_Suc [of a k] by (auto simp: min_def)
qed

text \<open>A free buddy whose descriptor has the order of the block is the head of a block of that order
  in the same list: a larger block would contain the block being freed.\<close>

lemma buddy_listed:
  assumes ok: "lists_ok s (free_pages s - span start k)" and free: "span start k \<subseteq> free_pages s"
    and k: "2 ^ k dvd start" "Suc k < ORDERS_COUNT" and res: "reserved s 0"
    and m: "m = xor start (2 ^ k)" "page_info s m = Some i" "pmm_is_free i" "page_order i = k"
  shows "m \<in> set (entries s (pmm_get_zone start) k)" "span m k \<subseteq> free_pages s"
    "pmm_get_zone (min m start) = pmm_get_zone start"
proof -
  note pair = buddy_pair [OF k(1) m(1)]
  have mF: "m \<in> free_pages s - span start k"
    using m(2,3) pair(3) head_in_span [of m k] unfolding free_pages_def by blast
  obtain q j where q: "(q, j) \<in> blocks s" "m \<in> span q j" using tiles_cover [OF lists_ok_tiles [OF ok] mF] by blast
  then obtain z where z: "q \<in> set (entries s z j)" by (auto simp: blocks_def)
  note Q = lists_okD [OF ok z]
  have "j \<le> k"
  proof (rule ccontr)
    assume "\<not> j \<le> k"
    then have "span (min m start) (Suc k) \<subseteq> span q j"
      using span_nested [OF Q(3) pair(1) _ _ q(2)] pair(2) by (simp add: Suc_le_eq)
    then have "start \<in> span q j" using pair(2) head_in_span [of start k] by blast
    then show False using tiles_subset [OF lists_ok_tiles [OF ok] q(1)] head_in_span [of start k] by blast
  qed
  then have "m = q" using span_head [OF Q(3) pair(4) q(2)] by simp
  then have mq: "m = q" "j = k" using Q(5) m(2,4) by auto
  show "span m k \<subseteq> free_pages s" using tiles_subset [OF lists_ok_tiles [OF ok] q(1)] mq by blast
  then have "min m start \<in> free_pages s"
    using free head_in_span [of m k] head_in_span [of start k] by (auto simp: min_def)
  then have pos: "0 < min m start" using free_not_reserved(1) [OF res] by (metis gr0I)
  have zone: "pmm_get_zone x = pmm_get_zone (min m start)" if "x \<in> {m, start}" for x
    using zone_in_span [OF pair(1) pos k(2)] pair(2) that head_in_span by blast
  then show "pmm_get_zone (min m start) = pmm_get_zone start" by simp
  have "pmm_get_zone m = pmm_get_zone start" using zone [of m] zone [of start] by simp
  then show "m \<in> set (entries s (pmm_get_zone start) k)" using z Q(2) mq by simp
qed

lemma merge_loop_spec:
  assumes "lists_ok s (free_pages s - span start k)" "span start k \<subseteq> free_pages s" "2 ^ k dvd start"
    "k < ORDERS_COUNT" "pmm_get_zone start = z" "reserved s 0"
  shows "\<exists>start' k' s'. pmm_merge_loop s z start k = Inr (start', k', s') \<and> lists_ok s' (free_pages s - span start' k') \<and>
    span start k \<subseteq> span start' k' \<and> span start' k' \<subseteq> free_pages s \<and> 2 ^ k' dvd start' \<and> k' < ORDERS_COUNT \<and>
    pmm_get_zone start' = z \<and> s'\<lparr>entries := entries s\<rparr> = s"
  using assms
proof (induction "ORDERS_COUNT - k" arbitrary: s start k rule: less_induct)
  case less
  note pre = less.prems
  let ?m = "xor start (2 ^ k)"
  show ?case
  proof (cases "Suc k < ORDERS_COUNT \<and> (\<exists>i. page_info s ?m = Some i \<and> pmm_is_free i \<and> page_order i = k)")
    case False
    then have "pmm_merge_loop s z start k = Inr (start, k, s)"
      by (auto simp: pmm_merge_loop.simps [of s z start k] Let_def split: option.split)
    then show ?thesis using pre by auto
  next
    case True
    then obtain i where i: "Suc k < ORDERS_COUNT" "page_info s ?m = Some i" "pmm_is_free i" "page_order i = k" by blast
    note pair = buddy_pair [OF pre(3) refl]
    note listed = buddy_listed [OF pre(1,2,3) i(1) pre(6) refl i(2-4)]
    let ?s = "set_entries s z k (remove1 ?m (entries s z k))" and ?a = "min ?m start"
    have run: "pmm_merge_loop s z start k = pmm_merge_loop ?s z ?a (Suc k)"
      using i listed(1) pre(5)
      by (simp add: pmm_merge_loop.simps [of s z start k] Let_def list_take_out_def min_def)
    have free: "free_pages ?s = free_pages s" by (simp add: free_pages_def)
    have "free_pages s - span start k - span ?m k = free_pages ?s - span ?a (Suc k)" using free pair(2) by blast
    then have ok: "lists_ok ?s (free_pages ?s - span ?a (Suc k))"
      using lists_ok_take [OF pre(1)] listed(1) pre(5) by metis
    have sub: "span ?a (Suc k) \<subseteq> free_pages ?s" using free pair(2) listed(2) pre(2) by blast
    have res: "reserved ?s 0" using pre(6) by (simp add: reserved_def)
    have "ORDERS_COUNT - Suc k < ORDERS_COUNT - k" using i(1) by simp
    from less.hyps [OF this ok sub pair(1) i(1) _ res] listed(3) pre(5) obtain start' k' s' where
      r: "pmm_merge_loop ?s z ?a (Suc k) = Inr (start', k', s')" "lists_ok s' (free_pages ?s - span start' k')"
      "span ?a (Suc k) \<subseteq> span start' k'" "span start' k' \<subseteq> free_pages ?s" "2 ^ k' dvd start'" "k' < ORDERS_COUNT"
      "pmm_get_zone start' = z" "s'\<lparr>entries := entries ?s\<rparr> = ?s" by blast
    have "s'\<lparr>entries := entries s\<rparr> = s'\<lparr>entries := entries ?s\<rparr>\<lparr>entries := entries s\<rparr>" by simp
    then have "s'\<lparr>entries := entries s\<rparr> = s" unfolding r(8) by (simp add: set_entries_def)
    moreover have "span start k \<subseteq> span start' k'" using r(3) pair(2) by blast
    ultimately show ?thesis using run r(1,2,4-7) free by auto
  qed
qed

text \<open>A page the allocator may be given back, and what freeing a block of them has done.\<close>

definition in_use :: "pmm_state \<Rightarrow> nat \<Rightarrow> bool" where
  "in_use s q \<longleftrightarrow> (\<exists>i. page_info s q = Some i \<and> ref_count i \<noteq> 0 \<and> and (page_flags i) PAGE_FLAG_RESERVED = 0)"

definition freed :: "pmm_state \<Rightarrow> nat set \<Rightarrow> pmm_state \<Rightarrow> bool" where
  "freed s P s' \<longleftrightarrow> free_pages s' = free_pages s \<union> P \<and>
     (\<forall>q. q \<notin> P \<longrightarrow> map_option ref_count (page_info s' q) = map_option ref_count (page_info s q)) \<and>
     (\<forall>q. map_option page_flags (page_info s' q) = map_option page_flags (page_info s q)) \<and>
     used_pages s' = used_pages s - of_nat (card P) \<and> private_pages s' = private_pages s - of_nat (card P) \<and>
     total_pages s' = total_pages s \<and> shared_pages s' = shared_pages s \<and> alloc_flags s' = alloc_flags s"

lemma same_but_order_maps:
  assumes "same_but_order s s'"
  shows "map_option ref_count (page_info s' q) = map_option ref_count (page_info s q)"
    "map_option page_flags (page_info s' q) = map_option page_flags (page_info s q)"
  using same_but_order_page [OF assms, of q] by (cases "page_info s' q"; fastforce)+

lemma reserved_flags:
  "map_option page_flags (page_info s' 0) = map_option page_flags (page_info s 0) \<Longrightarrow> reserved s' 0 = reserved s 0"
  by (cases "page_info s 0"; cases "page_info s' 0") (simp_all add: reserved_def)

lemma card_span [simp]: "card (span p k) = 2 ^ k"
  by (simp add: span_def)

lemma zone_set_free_spec:
  assumes ok: "lists_ok s (free_pages s - span start k)" and free: "span start k \<subseteq> free_pages s"
    and k: "2 ^ k dvd start" "k < ORDERS_COUNT" and res: "reserved s 0"
  shows "\<exists>s'. pmm_zone_set_free_pages s (pmm_get_zone start) start k = Inr s' \<and> pmm_inv s' \<and>
    same_but_order (s\<lparr>used_pages := used_pages s - of_nat (2 ^ k), private_pages := private_pages s - of_nat (2 ^ k)\<rparr>) s'"
proof -
  let ?s = "s\<lparr>used_pages := used_pages s - of_nat (2 ^ k), private_pages := private_pages s - of_nat (2 ^ k)\<rparr>"
  have same: "free_pages ?s = free_pages s" "reserved ?s 0" using res by (simp_all add: free_pages_def reserved_def)
  have "lists_ok ?s (free_pages ?s - span start k)"
    unfolding same(1) by (rule lists_ok_cong [OF ok]) simp_all
  from merge_loop_spec [OF this _ k refl same(2)] free obtain a j s2 where
    r: "pmm_merge_loop ?s (pmm_get_zone start) start k = Inr (a, j, s2)" "lists_ok s2 (free_pages s - span a j)"
    "span a j \<subseteq> free_pages s" "2 ^ j dvd a" "j < ORDERS_COUNT" "pmm_get_zone a = pmm_get_zone start"
    "s2\<lparr>entries := entries ?s\<rparr> = ?s" unfolding same(1) by blast
  let ?z = "pmm_get_zone start"
  let ?s' = "set_order (set_entries s2 ?z j (entries s2 ?z j @ [a])) a j"
  have info: "page_info s2 = page_info s" using arg_cong [OF r(7), of page_info] by simp
  then have a: "page_info s2 a \<noteq> None" using r(3) head_in_span [of a j] free_not_reserved(2) [of s] by (metis domIff subsetD)
  have sbo: "same_but_order ?s ?s'" by (rule same_but_order_trans [OF same_but_order_entries [OF r(7)] same_but_order_trans [OF same_but_order_set]])
  have "free_pages ?s' = free_pages s" using same_but_order_free [OF sbo] same(1) by simp
  moreover have "lists_ok ?s' (free_pages s - span a j \<union> span a j)"
    by (rule lists_ok_put [OF r(2,4,5) _ a]) (use r(6) in auto)
  moreover have "free_pages s - span a j \<union> span a j = free_pages s" using r(3) by blast
  moreover have "reserved ?s' 0" using reserved_flags [OF same_but_order_maps(2) [OF sbo]] same(2) by simp
  ultimately have "pmm_inv ?s'" by (simp add: pmm_inv_def)
  moreover have "pmm_zone_set_free_pages s ?z start k = Inr ?s'"
    using r(1) a by (simp add: pmm_zone_set_free_pages_def Let_def)
  ultimately show ?thesis using sbo by blast
qed

lemma set_free_spec:
  assumes "pmm_inv s" "2 ^ k dvd start" "k < ORDERS_COUNT" "\<And>q. q \<in> span start k \<Longrightarrow> in_use s q"
  shows "\<exists>s'. pmm_set_free_pages s start k = Inr s' \<and> pmm_inv s' \<and> freed s (span start k) s'"
proof -
  let ?s = "s\<lparr>page_info := mark_free (page_info s) start (2 ^ k)\<rparr>"
  have info: "page_info ?s q = (if q \<in> span start k then map_option (ref_count_update (\<lambda>_. 0)) (page_info s q) else page_info s q)" for q
    by (simp add: mark_free_def span_def)
  have free: "free_pages ?s = free_pages s \<union> span start k"
    using assms(4) unfolding free_pages_def info by (fastforce simp: in_use_def pmm_is_free_def)
  have "free_pages s \<inter> span start k = {}" using assms(4) by (fastforce simp: free_pages_def in_use_def pmm_is_free_def)
  then have diff: "free_pages ?s - span start k = free_pages s" using free by blast
  have flags: "map_option page_flags (page_info ?s q) = map_option page_flags (page_info s q)" for q
    unfolding info by (simp add: option.map_comp o_def)
  have "lists_ok ?s (free_pages ?s - span start k)"
    unfolding diff by (rule lists_ok_cong [of s]) (use assms(1) info in \<open>auto simp: pmm_inv_def option.map_comp o_def\<close>)
  moreover have "reserved ?s 0" using reserved_flags [OF flags] assms(1) by (simp add: pmm_inv_def)
  ultimately obtain s' where
    r: "pmm_zone_set_free_pages ?s (pmm_get_zone start) start k = Inr s'" "pmm_inv s'"
    "same_but_order (?s\<lparr>used_pages := used_pages ?s - of_nat (2 ^ k), private_pages := private_pages ?s - of_nat (2 ^ k)\<rparr>) s'"
    using zone_set_free_spec [of ?s start k] assms(2,3) free by blast
  note maps = same_but_order_maps [OF r(3)]
  have "freed s (span start k) s'"
    unfolding freed_def using same_but_order_free [OF r(3)] free maps flags info same_but_order_counters [OF r(3)]
    by (simp add: free_pages_def)
  then show ?thesis using r(1,2) assms(2) by (simp add: pmm_set_free_pages_def dvd_eq_mod_eq_0)
qed

lemma freed_in_use:
  assumes "freed s P s'" "in_use s q" "q \<notin> P"
  shows "in_use s' q"
proof -
  have "map_option ref_count (page_info s' q) = map_option ref_count (page_info s q)"
    "map_option page_flags (page_info s' q) = map_option page_flags (page_info s q)"
    using assms(1,3) by (auto simp: freed_def)
  then show ?thesis using assms(2) by (auto simp: in_use_def map_option_eq_Some)
qed

lemma freed_trans:
  assumes "freed s P s'" "freed s' Q s''" "P \<inter> Q = {}" "finite P" "finite Q"
  shows "freed s (P \<union> Q) s''"
  using assms by (auto simp: freed_def card_Un_disjoint)

lemma freed_refl: "freed s {} s"
  by (simp add: freed_def)

lemma range_order:
  assumes "0 < count"
  shows "2 ^ pmm_range_order start count \<le> count" "2 ^ pmm_range_order start count dvd start"
    "pmm_range_order start count < ORDERS_COUNT"
proof -
  let ?P = "\<lambda>order. \<not> count < ORDER2COUNT order \<and> start mod ORDER2COUNT order = 0"
  have "\<exists>x. x \<in> set (rev [0..<ORDERS_COUNT]) \<and> ?P x"
    using assms by (intro exI [of _ 0]) (simp add: ORDERS_COUNT_def)
  then have "find ?P (rev [0..<ORDERS_COUNT]) \<noteq> None" by (simp only: find_None_iff not_not)
  then obtain k where k: "find ?P (rev [0..<ORDERS_COUNT]) = Some k" by blast
  then have "?P k" "k < ORDERS_COUNT" by (auto simp: find_Some_iff ORDERS_COUNT_def rev_nth)
  then show "2 ^ pmm_range_order start count \<le> count" "2 ^ pmm_range_order start count dvd start"
    "pmm_range_order start count < ORDERS_COUNT"
    using k by (auto simp: pmm_range_order_def dvd_eq_mod_eq_0)
qed

lemma set_free_range_spec:
  assumes "pmm_inv s" "\<And>q. q \<in> {start..<start + count} \<Longrightarrow> in_use s q"
  shows "\<exists>s'. pmm_set_free_pages_range s start count = Inr s' \<and> pmm_inv s' \<and> freed s {start..<start + count} s'"
  using assms
proof (induction count arbitrary: s start rule: less_induct)
  case (less count)
  show ?case
  proof (cases "count = 0")
    case True
    then show ?thesis using less.prems freed_refl by (simp add: pmm_set_free_pages_range.simps [of s start 0])
  next
    case False
    let ?k = "pmm_range_order start count"
    have pos: "0 < count" using False by simp
    note k = range_order [OF pos, of start]
    have sub: "span start ?k \<subseteq> {start..<start + count}" using k(1) by (auto simp: span_def)
    obtain s1 where s1: "pmm_set_free_pages s start ?k = Inr s1" "pmm_inv s1" "freed s (span start ?k) s1"
      using set_free_spec [OF less.prems(1) k(2,3)] less.prems(2) sub by blast
    let ?a = "start + 2 ^ ?k" and ?n = "count - 2 ^ ?k"
    have rest: "{?a..<?a + ?n} = {start..<start + count} - span start ?k" using k(1) by (auto simp: span_def)
    then have "in_use s1 q" if "q \<in> {?a..<?a + ?n}" for q
      using freed_in_use [OF s1(3)] less.prems(2) that by (metis Diff_iff)
    moreover have "?n < count" using pos by simp
    ultimately obtain s2 where s2: "pmm_set_free_pages_range s1 ?a ?n = Inr s2" "pmm_inv s2" "freed s1 {?a..<?a + ?n} s2"
      using less.IH [OF _ s1(2), of ?n ?a] by blast
    have "{start..<start + count} = span start ?k \<union> {?a..<?a + ?n}" using rest sub by blast
    then have "freed s {start..<start + count} s2"
      by (simp only:) (rule freed_trans [OF s1(3) s2(3)], auto simp: span_def)
    then show ?thesis using s1 s2 False by (simp add: pmm_set_free_pages_range.simps [of s start count] Let_def)
  qed
qed

subsection \<open>The boot\<close>

definition apart :: "nat \<times> nat \<Rightarrow> nat \<times> nat \<Rightarrow> bool" where
  "apart r q \<longleftrightarrow> fst r + snd r \<le> fst q \<or> fst q + snd q \<le> fst r"

definition frames :: "nat \<times> nat \<Rightarrow> nat set" where
  "frames r = {fst r..<fst r + snd r}"

definition pmm1_pages :: "pmm1 \<Rightarrow> nat set" where
  "pmm1_pages h = (\<Union>r \<in> set h. frames r)"

lemma apart_frames: "apart r q \<Longrightarrow> frames r \<inter> frames q = {}"
  by (auto simp: apart_def frames_def)

lemma pmm1_pages_simps [simp]: "pmm1_pages [] = {}" "pmm1_pages (r # h) = frames r \<union> pmm1_pages h"
  by (simp_all add: pmm1_pages_def)

lemma frames_last: "0 < n \<Longrightarrow> frames (a, n - 1) = frames (a, n) - {a + (n - 1)} \<and> a + (n - 1) \<in> frames (a, n)"
  by (auto simp: frames_def)

lemma pmm1_allocate_pages:
  assumes "sorted_wrt apart h" "\<forall>r \<in> set h. 0 < snd r" "pmm1_allocate_page h = (r, h')"
  shows "sorted_wrt apart h' \<and> (\<forall>r \<in> set h'. 0 < snd r) \<and>
    (case r of None \<Rightarrow> h = [] \<and> h' = [] | Some p \<Rightarrow> p \<in> pmm1_pages h \<and> pmm1_pages h' = pmm1_pages h - {p})"
proof (cases h)
  case (Cons e rest)
  obtain a n where e: "e = (a, n)" by (cases e)
  have "p \<notin> pmm1_pages rest" if "p \<in> frames (a, n)" for p
    using assms(1) that apart_frames unfolding Cons e pmm1_pages_def by fastforce
  then have out: "frames (a, n) \<inter> pmm1_pages rest = {}" by blast
  show ?thesis
  proof (cases "n > 1")
    case True
    have "pmm1_pages ((a, n - 1) # rest) = pmm1_pages ((a, n) # rest) - {a + (n - 1)}"
      using out True frames_last [of n a] by auto
    moreover have "sorted_wrt apart ((a, n - 1) # rest)" using assms(1) by (auto simp: Cons e apart_def)
    moreover have "r = Some (a + (n - 1))" "h' = (a, n - 1) # rest" using assms(3) True by (auto simp: Cons e)
    moreover have "a + (n - 1) \<in> frames (a, n)" using True frames_last [of n a] by simp
    ultimately show ?thesis using assms(2) True unfolding Cons e by simp
  next
    case False
    then have "n = 1" using assms(2) by (simp add: Cons e)
    then show ?thesis using assms out by (auto simp: Cons e frames_def)
  qed
qed (use assms in auto)

lemma pmm1_take_pages:
  assumes "sorted_wrt apart h" "\<forall>r \<in> set h. 0 < snd r"
  shows "sorted_wrt apart (pmm1_take n h) \<and> pmm1_pages (pmm1_take n h) \<subseteq> pmm1_pages h"
  using assms
proof (induction n arbitrary: h)
  case (Suc n)
  obtain r h' where r: "pmm1_allocate_page h = (r, h')" by fastforce
  have "pmm1_pages h' \<subseteq> pmm1_pages h" using pmm1_allocate_pages [OF Suc.prems r] by (auto split: option.splits)
  moreover have "sorted_wrt apart h'" "\<forall>r \<in> set h'. 0 < snd r" using pmm1_allocate_pages [OF Suc.prems r] by blast+
  ultimately show ?case using Suc.IH [of h'] by (auto simp: r)
qed auto

lemma mark_usable_inv:
  assumes "pmm_inv s" "\<And>q. q \<in> frames (a, n) \<Longrightarrow> \<exists>i. page_info s q = Some i \<and> ref_count i \<noteq> 0" "0 \<notin> frames (a, n)"
  defines "s1 \<equiv> s\<lparr>usable_pages := usable_pages s + of_nat n, page_info := mark_usable (page_info s) a n\<rparr>"
  shows "pmm_inv s1" "free_pages s1 = free_pages s" "\<And>q. q \<in> frames (a, n) \<Longrightarrow> in_use s1 q"
    "map_option ref_count (page_info s1 q) = map_option ref_count (page_info s q)"
proof -
  have info: "page_info s1 q = (if q \<in> frames (a, n) then map_option (page_flags_update (\<lambda>_. PAGE_FLAG_USABLE)) (page_info s q) else page_info s q)" for q
    by (simp add: s1_def mark_usable_def frames_def)
  show "map_option ref_count (page_info s1 q) = map_option ref_count (page_info s q)" for q
    unfolding info by (simp add: option.map_comp o_def)
  have "q \<in> free_pages s1 \<longleftrightarrow> q \<in> free_pages s" for q
    using assms(2) [of q] by (cases "q \<in> frames (a, n)") (auto simp: free_pages_def info pmm_is_free_def)
  then show free: "free_pages s1 = free_pages s" by blast
  show "in_use s1 q" if "q \<in> frames (a, n)" for q
    using assms(2) [OF that] that by (auto simp: in_use_def info PAGE_FLAG_USABLE_def PAGE_FLAG_RESERVED_def)
  have "lists_ok s1 (free_pages s)"
    by (rule lists_ok_cong [of s]) (use assms(1) info in \<open>auto simp: pmm_inv_def option.map_comp o_def s1_def mark_usable_def\<close>)
  moreover have "reserved s1 0" using reserved_flags [of s1 s] assms(1,3) info [of 0] by (simp add: pmm_inv_def)
  ultimately show "pmm_inv s1" by (simp add: pmm_inv_def free)
qed

lemma hand_over_spec:
  assumes "pmm_inv s" "sorted_wrt apart h" "0 \<notin> pmm1_pages h"
    "\<And>q. q \<in> pmm1_pages h \<Longrightarrow> \<exists>i. page_info s q = Some i \<and> ref_count i \<noteq> 0"
  shows "\<exists>s'. pmm_hand_over h s = Inr s' \<and> pmm_inv s' \<and> free_pages s' = free_pages s \<union> pmm1_pages h \<and>
    alloc_flags s' = alloc_flags s"
  using assms
proof (induction h s rule: pmm_hand_over.induct)
  case (1 s)
  then show ?case by (auto simp: pmm_inv_def lists_ok_def blocks_def free_pages_def reserved_def pmm1_pages_def)
next
  case (2 a n h s)
  let ?s = "s\<lparr>usable_pages := usable_pages s + of_nat n, page_info := mark_usable (page_info s) a n\<rparr>"
  note pages = pmm1_pages_simps(2) [of "(a, n)" h]
  have out: "frames (a, n) \<inter> pmm1_pages h = {}"
    using "2.prems"(2) apart_frames by (fastforce simp: pmm1_pages_def)
  note M = mark_usable_inv [OF "2.prems"(1), of a n]
  have refs: "\<And>q. q \<in> frames (a, n) \<Longrightarrow> \<exists>i. page_info s q = Some i \<and> ref_count i \<noteq> 0" "0 \<notin> frames (a, n)"
    using "2.prems"(3,4) pages by blast+
  have fr: "frames (a, n) = {a..<a + n}" by (simp add: frames_def)
  obtain s1 where s1: "pmm_set_free_pages_range ?s a n = Inr s1" "pmm_inv s1" "freed ?s (frames (a, n)) s1"
    using set_free_range_spec [OF M(1) [OF refs], of a n, folded fr] M(3) [OF refs] by blast
  have no: "\<not> (\<exists>p \<in> {a..<a + n}. page_info s p = None)" using refs(1) by (fastforce simp: frames_def)
  have ref: "\<exists>i. page_info s1 q = Some i \<and> ref_count i \<noteq> 0" if "q \<in> pmm1_pages h" for q
  proof -
    have "map_option ref_count (page_info s1 q) = map_option ref_count (page_info s q)"
      using s1(3) that out M(4) [OF refs, of q] by (auto simp: freed_def)
    then show ?thesis using "2.prems"(4) [of q] pages that by (auto simp: map_option_eq_Some)
  qed
  have "sorted_wrt apart h" "0 \<notin> pmm1_pages h" using "2.prems"(2,3) pages by auto
  from "2.IH" [OF no s1(2) this ref] obtain s2 where
    s2: "pmm_hand_over h s1 = Inr s2" "pmm_inv s2" "free_pages s2 = free_pages s1 \<union> pmm1_pages h"
    "alloc_flags s2 = alloc_flags s1" by blast
  have "free_pages s1 = free_pages s \<union> frames (a, n)" "alloc_flags s1 = alloc_flags s"
    using s1(3) M(2) [OF refs] by (simp_all add: freed_def)
  then show ?case using s1(1) s2 pages no by (simp add: Un_assoc)
qed

definition usable_ranges :: "memmap_entry list \<Rightarrow> (nat \<times> nat) list" where
  "usable_ranges m = [(fst (entry_frames e), snd (entry_frames e) - fst (entry_frames e)).
     e \<leftarrow> m, me_type e = MEMMAP_USABLE \<and> fst (entry_frames e) < snd (entry_frames e)]"

lemma init_pmm_head:
  "pmm1_head (fold init_pmm_entry m s) = rev (usable_ranges m) @ pmm1_head s"
  "page_info (fold init_pmm_entry m s) = page_info s" "entries (fold init_pmm_entry m s) = entries s"
  "alloc_flags (fold init_pmm_entry m s) = alloc_flags s"
  by (induction m arbitrary: s)
    (auto simp: usable_ranges_def init_pmm_entry_def pmm1_add_free_pages_def Let_def split: prod.splits)

lemma add_sections_kept: "info p = Some i \<Longrightarrow> fold (pmm_add_sections fresh) m info p = Some i"
  by (induction m arbitrary: info) (auto simp: pmm_add_sections_def split: prod.splits)

lemma add_sections_new:
  "fold (pmm_add_sections fresh) m info p = Some i \<Longrightarrow> info p = Some i \<or> i = pmm_allocate_page_section fresh"
proof (induction m arbitrary: info)
  case (Cons e m)
  then have "pmm_add_sections fresh e info p = Some i \<or> i = pmm_allocate_page_section fresh" by simp
  then show ?case by (auto simp: pmm_add_sections_def split: prod.splits if_splits)
qed auto

lemma add_sections_cover:
  "p \<in> pmm1_pages (usable_ranges m) \<Longrightarrow> fold (pmm_add_sections fresh) m info p \<noteq> None"
proof (induction m arbitrary: info)
  case (Cons e m)
  obtain a b where ab: "entry_frames e = (a, b)" by fastforce
  show ?case
  proof (cases "p \<in> pmm1_pages (usable_ranges m)")
    case True
    then show ?thesis using Cons.IH by simp
  next
    case False
    then have "me_type e = MEMMAP_USABLE" "a \<le> p" "p < b"
      using Cons.prems ab by (auto simp: usable_ranges_def frames_def split: if_splits)
    moreover from this have "p div PAGES_PER_SECTION * PAGES_PER_SECTION < b"
      by (meson div_times_less_eq_dividend le_less_trans)
    ultimately have "pmm_add_sections fresh e info p \<noteq> None"
      using ab by (auto simp: pmm_add_sections_def div_le_mono)
    then show ?thesis using add_sections_kept by fastforce
  qed
qed (simp add: usable_ranges_def)

lemma apart_conv: "(\<lambda>r q. apart q r) = apart"
  by (auto simp: apart_def fun_eq_iff)

lemma usable_ranges_rev:
  assumes "sorted_wrt apart (usable_ranges m)"
  shows "sorted_wrt apart (rev (usable_ranges m))" "\<forall>r \<in> set (rev (usable_ranges m)). 0 < snd r"
proof -
  show "sorted_wrt apart (rev (usable_ranges m))" using assms by (simp add: sorted_wrt_rev apart_conv)
  show "\<forall>r \<in> set (rev (usable_ranges m)). 0 < snd r" by (auto simp: usable_ranges_def)
qed

text \<open>The whole first part of the second stage: descriptors for every section, then the hand-over.\<close>

lemma hand_over_boot:
  assumes "page_info s = (\<lambda>_. None)" "entries s = (\<lambda>_ _. [])" "pmm1_head s = []"
    "sorted_wrt apart (usable_ranges m)" "0 \<notin> pmm1_pages (usable_ranges m)"
  shows "\<exists>s'. pmm_hand_over (pmm1_take taken (pmm1_head (init_pmm m s)))
      ((init_pmm m s)\<lparr>page_info := fold (pmm_add_sections fresh) m (page_info (init_pmm m s))\<rparr>) = Inr s' \<and> pmm_inv s' \<and>
    free_pages s' = pmm1_pages (pmm1_take taken (rev (usable_ranges m))) \<and> alloc_flags s' = alloc_flags s"
proof -
  let ?h = "pmm1_take taken (rev (usable_ranges m))"
  let ?s = "(init_pmm m s)\<lparr>page_info := fold (pmm_add_sections fresh) m (\<lambda>_. None)\<rparr>"
  have head: "pmm1_head (init_pmm m s) = rev (usable_ranges m)" "page_info (init_pmm m s) = (\<lambda>_. None)"
    "entries (init_pmm m s) = (\<lambda>_ _. [])" "alloc_flags (init_pmm m s) = alloc_flags s"
    using assms(1-3) by (simp_all add: init_pmm_def Let_def init_pmm_head)
  have new: "i = pmm_allocate_page_section fresh" if "page_info ?s p = Some i" for p i
    using add_sections_new [of fresh m "\<lambda>_. None" p i] that by simp
  have "free_pages ?s = {}" using new by (fastforce simp: free_pages_def pmm_is_free_def pmm_allocate_page_section_def)
  moreover have "reserved ?s 0"
    using new [of 0]
    by (cases "page_info ?s 0") (simp_all add: reserved_def pmm_allocate_page_section_def PAGE_FLAG_RESERVED_def)
  ultimately have inv: "pmm_inv ?s" by (simp add: pmm_inv_def lists_ok_def head tiles_def blocks_def)
  note rev = usable_ranges_rev [OF assms(4)]
  have take: "sorted_wrt apart ?h" "pmm1_pages ?h \<subseteq> pmm1_pages (usable_ranges m)"
    using pmm1_take_pages [OF rev, of taken] by (auto simp: pmm1_pages_def)
  have "\<exists>i. page_info ?s q = Some i \<and> ref_count i \<noteq> 0" if inq: "q \<in> pmm1_pages ?h" for q
  proof -
    obtain i where i: "page_info ?s q = Some i" using add_sections_cover [of q m fresh "\<lambda>_. None"] inq take(2) by auto
    then have "ref_count i \<noteq> 0" using new [OF i] by (simp add: pmm_allocate_page_section_def)
    then show ?thesis using i by blast
  qed
  from hand_over_spec [OF inv take(1) _ this] show ?thesis
    using assms(5) take(2) \<open>free_pages ?s = {}\<close> head by auto
qed

lemma allocate_flags_spec:
  fixes flags :: u32 and zone :: nat
  assumes "pmm_inv s" "pmm_is_stage2 s"
  defines "f \<equiv> or flags (alloc_flags s)" and "z \<equiv> if zone = 42 then 2 else zone"
  shows "case pmm_zone_allocate_pages_flags s zone k flags of
      Inl e \<Rightarrow> e = KPanic \<and> and f ALLOC_FLAG_OOM \<noteq> 0
    | Inr (None, s') \<Rightarrow> s' = s \<and> and f ALLOC_FLAG_OOM = 0 \<and>
        (and f ALLOC_FLAG_EMERGENCY = 0 \<and> pmm_get_free_pages s < pmm_get_emergency_pages + of_nat (2 ^ k) \<or>
         (\<forall>y \<le> z. \<forall>j \<ge> k. entries s y j = []))
    | Inr (Some p, s') \<Rightarrow> allocated s k p s' \<and> pmm_get_zone p \<le> z \<and> pmm_inv s'"
proof -
  show ?thesis
    using zone_loop_spec [OF assms(1), of z k] assms(2) unfolding pmm_zone_allocate_pages_flags_def Let_def f_def [symmetric] z_def [symmetric]
    by (elim disjE exE conjE) simp_all
qed

lemma retain_release_spec:
  assumes "page_info s p = Some i" "ref_count i \<noteq> 0" "ref_count i + 1 \<noteq> 0"
  shows "\<exists>s1. pmm_retain s p = Inr (True, s1) \<and> page_info s1 p = Some (i\<lparr>ref_count := ref_count i + 1\<rparr>) \<and>
    pmm_release_page s1 p = Inr s"
proof -
  have ne: "ref_count i + 1 \<noteq> 1" using assms(2) by simp
  have two: "ref_count i + 1 = 2 \<longleftrightarrow> ref_count i = 1"
    by (metis add_right_cancel one_add_one)
  have upd: "(page_info s)(p \<mapsto> i) = page_info s" using assms(1) by auto
  have one: "ref_count i = 1 \<Longrightarrow> i\<lparr>ref_count := 1\<rparr> = i" by (cases i) simp
  show ?thesis
    using assms ne two upd
    by (cases "ref_count i = 1")
      (simp_all add: pmm_retain_def pmm_release_page_def set_ref_def Let_def one)
qed

lemma release_last:
  assumes "page_info s p = Some i" "ref_count i = 1"
  shows "pmm_release_page s p = pmm_set_free_pages s p 0"
proof -
  have "mark_free ((page_info s)(p := map_option (ref_count_update (\<lambda>_. 0)) (page_info s p))) p 1 = mark_free (page_info s) p 1"
    by (auto simp: mark_free_def fun_eq_iff option.map_comp o_def)
  then show ?thesis using assms by (simp add: pmm_release_page_def set_ref_def pmm_set_free_pages_def)
qed

subsection \<open>Correctness of the allocator\<close>

text \<open>Eight free pages at frame 64, every other page in use.\<close>

definition ex_page :: "nat \<Rightarrow> page" where
  "ex_page p = \<lparr>ref_count = (if 64 \<le> p \<and> p < 72 then 0 else 1), page_flags = (if p = 0 then 8 else 4), page_private = None,
     page_order = (if p = 64 then 3 else 0)\<rparr>"

definition ex_pmm :: pmm_state where
  "ex_pmm = \<lparr>pmm1_head = [], pmm_is_stage2 = True, page_info = (\<lambda>p. Some (ex_page p)),
     entries = (\<lambda>z k. if z = 1 \<and> k = 3 then [64] else []), alloc_flags = 0, zero_page = None, highest_page = 1000,
     used_pages = 92, usable_pages = 100, private_pages = 92, shared_pages = 0, total_pages = 100\<rparr>"

lemma ex_pmm_inv: "pmm_inv ex_pmm"
proof -
  have free: "free_pages ex_pmm = span 64 3"
    by (auto simp: free_pages_def ex_pmm_def ex_page_def pmm_is_free_def PAGE_FLAG_RESERVED_def span_def split: if_splits)
  have "blocks ex_pmm = {(64, 3)}" by (auto simp: blocks_def ex_pmm_def split: if_splits)
  then have "lists_ok ex_pmm (span 64 3)"
    by (auto simp: lists_ok_def tiles_def ex_pmm_def ex_page_def ORDERS_COUNT_def pmm_get_zone_def ZONE_DMA24_END_def
        ZONE_DMA32_END_def PAGE_SIZE_def split: if_splits)
  then show ?thesis unfolding pmm_inv_def free by (simp add: reserved_def ex_pmm_def ex_page_def PAGE_FLAG_RESERVED_def)
qed

text \<open>C1: In a state with the invariant, an allocation of \<open>2 ^ k\<close> pages faults only by the out-of-memory
  panic the caller asked for. When it returns no page, nothing changed, and either the emergency
  reserve refused it or no allowed zone has a block that large. Otherwise the block is aligned, was
  free, is now owned once with its other pages untouched, lies in an allowed zone, and the invariant
  holds again.\<close>

theorem pmm_allocate_correct:
  assumes "pmm_inv s" "pmm_is_stage2 s"
  shows "case pmm_zone_allocate_pages_flags s zone k flags of
      Inl e \<Rightarrow> e = KPanic \<and> and (or flags (alloc_flags s)) ALLOC_FLAG_OOM \<noteq> 0
    | Inr (None, s') \<Rightarrow> s' = s \<and> and (or flags (alloc_flags s)) ALLOC_FLAG_OOM = 0 \<and>
        (and (or flags (alloc_flags s)) ALLOC_FLAG_EMERGENCY = 0 \<and>
           pmm_get_free_pages s < pmm_get_emergency_pages + of_nat (2 ^ k) \<or>
         (\<forall>y \<le> (if zone = 42 then 2 else zone). \<forall>j \<ge> k. entries s y j = []))
    | Inr (Some p, s') \<Rightarrow> allocated s k p s' \<and> pmm_get_zone p \<le> (if zone = 42 then 2 else zone) \<and> pmm_inv s'"
  by (rule allocate_flags_spec [OF assms])

theorem pmm_allocate_correct_witness:
  "pmm_inv ex_pmm \<and> pmm_is_stage2 ex_pmm \<and>
   (case pmm_zone_allocate_pages_flags ex_pmm 42 1 ALLOC_FLAG_EMERGENCY of
      Inr (Some p, s') \<Rightarrow> allocated ex_pmm 1 p s' \<and> pmm_inv s' | _ \<Rightarrow> False)"
proof -
  have st: "pmm_is_stage2 ex_pmm" "alloc_flags ex_pmm = 0" "entries ex_pmm 1 3 \<noteq> []" by (simp_all add: ex_pmm_def)
  have some: "\<not> (\<forall>y \<le> 2. \<forall>j \<ge> 1. entries ex_pmm y j = [])" using st(3) by (metis one_le_numeral)
  show ?thesis
    using pmm_allocate_correct [OF ex_pmm_inv st(1), where zone = 42 and k = 1 and flags = ALLOC_FLAG_EMERGENCY] st ex_pmm_inv some
    by (auto simp: ALLOC_FLAG_EMERGENCY_def ALLOC_FLAG_OOM_def split: sum.splits prod.splits option.splits)
qed

text \<open>C2: Giving back pages that are in use and not reserved never faults, in particular the buddy
  merging removes a block only from the list that holds it. Exactly those pages become free, the
  counters follow, and the invariant holds again: for an aligned block and for any range.\<close>

theorem pmm_free_correct:
  assumes "pmm_inv s"
  shows "(2 ^ k dvd start \<and> k < ORDERS_COUNT \<and> (\<forall>q \<in> span start k. in_use s q) \<longrightarrow>
       (\<exists>s'. pmm_set_free_pages s start k = Inr s' \<and> pmm_inv s' \<and> freed s (span start k) s')) \<and>
    ((\<forall>q \<in> {start..<start + count}. in_use s q) \<longrightarrow>
       (\<exists>s'. pmm_set_free_pages_range s start count = Inr s' \<and> pmm_inv s' \<and> freed s {start..<start + count} s'))"
  using set_free_spec [OF assms, of k start] set_free_range_spec [OF assms, of start count] by blast

theorem pmm_free_correct_witness:
  "pmm_inv ex_pmm \<and> (\<exists>s'. pmm_set_free_pages ex_pmm 72 3 = Inr s' \<and> pmm_inv s' \<and> freed ex_pmm (span 72 3) s') \<and>
   (\<exists>s'. pmm_set_free_pages_range ex_pmm 73 10 = Inr s' \<and> pmm_inv s' \<and> freed ex_pmm {73..<73 + 10} s')"
proof -
  have use: "in_use ex_pmm q" if "q \<ge> 72" for q
    using that by (simp add: in_use_def ex_pmm_def ex_page_def PAGE_FLAG_RESERVED_def)
  have "(2::nat) ^ 3 dvd 72" "3 < ORDERS_COUNT" by (simp_all add: ORDERS_COUNT_def)
  then show ?thesis
    using pmm_free_correct [OF ex_pmm_inv, of 3 72 0] pmm_free_correct [OF ex_pmm_inv, of 0 73 10] use ex_pmm_inv
    by (simp add: span_def)
qed

text \<open>C26: A page with a reference that is retained and released again is back in exactly the state
  before, counters included, as long as the 32-bit count does not overflow. Releasing the only
  reference of a page makes exactly that page free and keeps the invariant.\<close>

theorem pmm_retain_release:
  assumes "page_info s p = Some i" "ref_count i \<noteq> 0" "ref_count i \<noteq> - 1"
  shows "(\<exists>s1. pmm_retain s p = Inr (True, s1) \<and> pmm_release_page s1 p = Inr s) \<and>
    (ref_count i = 1 \<and> pmm_inv s \<and> and (page_flags i) PAGE_FLAG_RESERVED = 0 \<longrightarrow>
      (\<exists>s'. pmm_release_page s p = Inr s' \<and> pmm_inv s' \<and> freed s {p} s'))"
proof (intro conjI impI; (elim conjE)?)
  have "ref_count i + 1 \<noteq> 0" using assms(3) by (metis add_eq_0_iff2)
  then show "\<exists>s1. pmm_retain s p = Inr (True, s1) \<and> pmm_release_page s1 p = Inr s"
    using retain_release_spec [OF assms(1,2)] by blast
  assume last: "ref_count i = 1" "pmm_inv s" "and (page_flags i) PAGE_FLAG_RESERVED = 0"
  then have "in_use s p" using assms(1,2) by (simp add: in_use_def)
  then show "\<exists>s'. pmm_release_page s p = Inr s' \<and> pmm_inv s' \<and> freed s {p} s'"
    using set_free_spec [OF last(2), of 0 p] release_last [OF assms(1) last(1)] by (simp add: ORDERS_COUNT_def)
qed

theorem pmm_retain_release_witness:
  "(\<exists>s1. pmm_retain ex_pmm 80 = Inr (True, s1) \<and> pmm_release_page s1 80 = Inr ex_pmm) \<and>
   (\<exists>s'. pmm_release_page ex_pmm 80 = Inr s' \<and> pmm_inv s' \<and> freed ex_pmm {80} s')"
proof -
  have "page_info ex_pmm 80 = Some (ex_page 80)" by (simp add: ex_pmm_def)
  moreover have "ref_count (ex_page 80) = 1" "and (page_flags (ex_page 80)) PAGE_FLAG_RESERVED = 0"
    by (simp_all add: ex_page_def PAGE_FLAG_RESERVED_def)
  ultimately show ?thesis using pmm_retain_release [of ex_pmm 80 "ex_page 80"] ex_pmm_inv by simp
qed


definition ex_boot :: pmm_state where
  "ex_boot = \<lparr>pmm1_head = [], pmm_is_stage2 = False, page_info = (\<lambda>_. None), entries = (\<lambda>_ _. []), alloc_flags = 0,
     zero_page = None, highest_page = 0, used_pages = 0, usable_pages = 0, private_pages = 0, shared_pages = 0,
     total_pages = 0\<rparr>"

definition ex_memmap :: "memmap_entry list" where
  "ex_memmap = [\<lparr>me_start = 0x1000, me_size = 0x9e000, me_type = MEMMAP_USABLE\<rparr>,
     \<lparr>me_start = 0x9f000, me_size = 0x61000, me_type = MEMMAP_OTHER\<rparr>,
     \<lparr>me_start = 0x100000, me_size = 0x700000, me_type = MEMMAP_USABLE\<rparr>]"


text \<open>The hypothesis on frame 0 is needed. The zones are 16 frames (64 KiB, although the 24-bit DMA zone
  would be 16 MiB) and 2 to the 20 frames, and a block of the first zone that starts at frame 0 has
  a buddy in the second: freeing frames 16 to 31 then unlinks a node of the first zone's list from
  the list of the second.\<close>

definition ex_low :: pmm_state where
  "ex_low = ex_boot\<lparr>page_info := (\<lambda>p. Some \<lparr>ref_count = (if p < 16 then 0 else 1), page_flags = 4, page_private = None,
     page_order = (if p = 0 then 4 else 0)\<rparr>), entries := (\<lambda>z k. if z = 0 \<and> k = 4 then [0] else [])\<rparr>"

lemma pmm_zone_crossing: "pmm_set_free_pages ex_low 16 4 = Inl KListCorrupt"
  by (simp add: pmm_set_free_pages_def pmm_zone_set_free_pages_def pmm_get_zone_def ZONE_DMA24_END_def ZONE_DMA32_END_def
      PAGE_SIZE_def pmm_merge_loop.simps ORDERS_COUNT_def ex_low_def mark_free_def pmm_is_free_def PAGE_FLAG_RESERVED_def
      list_take_out_def ex_boot_def)

end
