(* ===== verification/Kheap.thy ===== *)
theory Kheap
  imports Prelude
begin

section \<open>The kernel heap\<close>

text \<open>
  Models \<^verbatim>\<open>kernel/mem/kheap.c\<close> and \<^verbatim>\<open>kernel/include/mem/kheap.h\<close>: a first-fit allocator over a doubly
  linked list of segments, each a 32-byte header followed by its payload.

  The headers are an explicit store from addresses to records, the payload bytes a second one: the
  invariant says that no header lies in a payload. Addresses and lengths are natural numbers; only
  the rounding of the requested amount, where the code can wrap, is on 64-bit words. The result of
  mapping new pages is ignored by the code and so here. The list walk is a partial function: \<open>None\<close>
  means that it does not end, and the correctness theorems show that it does.
\<close>

datatype heap_magic = HEAP_SEG_MAGIC_FREE | HEAP_SEG_MAGIC_ALLOCATED | HEAP_SEG_MAGIC_OTHER

record heap_segment =
  seg_magic :: heap_magic
  seg_length :: nat
  seg_next :: "nat option"
  seg_prev :: "nat option"

record kheap =
  kheap_start :: nat
  kheap_length :: nat
  first_seg :: nat
  segs :: "nat \<Rightarrow> heap_segment"
  bytes :: "nat \<Rightarrow> byte"

definition SEG_SIZE :: nat where
  "SEG_SIZE = 32"

definition init_kheap :: "nat \<Rightarrow> kheap \<Rightarrow> kheap" where
  "init_kheap start h =
     (let s = PAGE_ALIGN_DOWN start in
      h\<lparr>kheap_start := s, kheap_length := PAGE_SIZE, first_seg := s,
        segs := (segs h)(s := \<lparr>seg_magic = HEAP_SEG_MAGIC_FREE, seg_length = PAGE_SIZE - SEG_SIZE, seg_next = None, seg_prev = None\<rparr>)\<rparr>)"

definition change_kheap_size :: "nat \<Rightarrow> kheap \<Rightarrow> kheap" where
  "change_kheap_size offset h = (if offset = 0 then h else h\<lparr>kheap_length := kheap_length h + offset div PAGE_SIZE * PAGE_SIZE\<rparr>)"

definition kmalloc_amount :: "u64 \<Rightarrow> u64" where
  "kmalloc_amount amount = (if and amount 15 \<noteq> 0 then amount + (16 - amount mod 16) else amount)"

text \<open>The search: it stops at a free segment that is large enough, or at the last segment.\<close>

partial_function (option) kmalloc_search :: "(nat \<Rightarrow> heap_segment) \<Rightarrow> nat \<Rightarrow> nat \<Rightarrow> nat option" where
  "kmalloc_search m amount cur =
     (if seg_length (m cur) < amount \<or> seg_magic (m cur) \<noteq> HEAP_SEG_MAGIC_FREE then
        (case seg_next (m cur) of
           None \<Rightarrow> Some cur
         | Some n \<Rightarrow> kmalloc_search m amount n)
      else Some cur)"

definition kmalloc_grow :: "nat \<Rightarrow> nat \<Rightarrow> kheap \<Rightarrow> nat \<times> kheap" where
  "kmalloc_grow amount cur h =
     (let m = segs h in
      if seg_magic (m cur) = HEAP_SEG_MAGIC_FREE then
        (let inc = PAGE_ALIGN_UP (amount - seg_length (m cur) + SEG_SIZE + 16) in
         (cur, (change_kheap_size inc h)\<lparr>segs := m(cur := (m cur)\<lparr>seg_length := seg_length (m cur) + inc\<rparr>)\<rparr>))
      else
        (let inc = PAGE_ALIGN_UP (amount + SEG_SIZE * 2 + 16);
             new_seg = cur + seg_length (m cur) + SEG_SIZE in
         (new_seg, (change_kheap_size inc h)
            \<lparr>segs := m(new_seg := \<lparr>seg_magic = HEAP_SEG_MAGIC_FREE, seg_length = inc - SEG_SIZE, seg_next = None, seg_prev = Some cur\<rparr>,
                       cur := (m cur)\<lparr>seg_next := Some new_seg\<rparr>)\<rparr>)))"

definition set_prev :: "nat option \<Rightarrow> nat option \<Rightarrow> (nat \<Rightarrow> heap_segment) \<Rightarrow> nat \<Rightarrow> heap_segment" where
  "set_prev a p m = (case a of None \<Rightarrow> m | Some n \<Rightarrow> m(n := (m n)\<lparr>seg_prev := p\<rparr>))"

definition kmalloc_cut :: "nat \<Rightarrow> nat \<Rightarrow> (nat \<Rightarrow> heap_segment) \<Rightarrow> nat \<Rightarrow> heap_segment" where
  "kmalloc_cut amount cur m =
     (if seg_length (m cur) \<ge> amount + SEG_SIZE + 16 then
        (let new_seg = cur + amount + SEG_SIZE;
             m1 = set_prev (seg_next (m cur)) (Some new_seg) m
         in m1(new_seg := \<lparr>seg_magic = HEAP_SEG_MAGIC_FREE, seg_length = seg_length (m cur) - (SEG_SIZE + amount),
                           seg_next = seg_next (m cur), seg_prev = Some cur\<rparr>,
               cur := (m1 cur)\<lparr>seg_length := amount, seg_next := Some new_seg\<rparr>))
      else m)"

definition kmalloc_flags :: "kheap \<Rightarrow> u64 \<Rightarrow> (nat \<times> kheap) option" where
  "kmalloc_flags h amount0 =
     (let amount = unat (kmalloc_amount amount0) in
      case kmalloc_search (segs h) amount (first_seg h) of
        None \<Rightarrow> None
      | Some found \<Rightarrow>
          (let fits = (\<not> seg_length (segs h found) < amount \<and> seg_magic (segs h found) = HEAP_SEG_MAGIC_FREE);
               (cur, h1) = (if fits then (found, h) else kmalloc_grow amount found h);
               m = kmalloc_cut amount cur (segs h1)
           in Some (cur + SEG_SIZE, h1\<lparr>segs := m(cur := (m cur)\<lparr>seg_magic := HEAP_SEG_MAGIC_ALLOCATED\<rparr>)\<rparr>)))"

definition kfree_merge_next :: "nat \<Rightarrow> (nat \<Rightarrow> heap_segment) \<Rightarrow> nat \<Rightarrow> heap_segment" where
  "kfree_merge_next cur m =
     (case seg_next (m cur) of
        None \<Rightarrow> m
      | Some n \<Rightarrow>
          if seg_magic (m n) = HEAP_SEG_MAGIC_FREE then
            (let m1 = set_prev (seg_next (m n)) (Some cur) m
             in m1(cur := (m1 cur)\<lparr>seg_length := seg_length (m1 cur) + seg_length (m1 n) + SEG_SIZE, seg_next := seg_next (m n)\<rparr>))
          else m)"

definition kfree_merge_prev :: "nat \<Rightarrow> (nat \<Rightarrow> heap_segment) \<Rightarrow> nat \<Rightarrow> heap_segment" where
  "kfree_merge_prev cur m =
     (case seg_prev (m cur) of
        None \<Rightarrow> m
      | Some p \<Rightarrow>
          if seg_magic (m p) = HEAP_SEG_MAGIC_FREE then
            (let m1 = set_prev (seg_next (m cur)) (Some p) m
             in m1(p := (m1 p)\<lparr>seg_length := seg_length (m1 p) + seg_length (m1 cur) + SEG_SIZE, seg_next := seg_next (m cur)\<rparr>))
          else m)"

text \<open>Freeing: a segment that is already free is left alone, another one panics. The kernel is
  configured to poison the freed bytes.\<close>

definition kfree :: "kheap \<Rightarrow> nat option \<Rightarrow> kheap kres" where
  "kfree h p =
     (case p of
        None \<Rightarrow> Inr h
      | Some ptr \<Rightarrow>
          (let cur = ptr - SEG_SIZE; m = segs h in
           case seg_magic (m cur) of
             HEAP_SEG_MAGIC_FREE \<Rightarrow> Inr h
           | HEAP_SEG_MAGIC_OTHER \<Rightarrow> Inl KPanic
           | HEAP_SEG_MAGIC_ALLOCATED \<Rightarrow>
               Inr (h\<lparr>bytes := (\<lambda>a. if ptr \<le> a \<and> a < ptr + seg_length (m cur) then 0xdd else bytes h a),
                      segs := kfree_merge_prev cur (kfree_merge_next cur (m(cur := (m cur)\<lparr>seg_magic := HEAP_SEG_MAGIC_FREE\<rparr>)))\<rparr>)))"

definition copy_bytes :: "nat \<Rightarrow> nat \<Rightarrow> nat \<Rightarrow> (nat \<Rightarrow> byte) \<Rightarrow> nat \<Rightarrow> byte" where
  "copy_bytes dst src n b = (\<lambda>a. if dst \<le> a \<and> a < dst + n then b (src + (a - dst)) else b a)"

definition krealloc_flags :: "kheap \<Rightarrow> nat option \<Rightarrow> u64 \<Rightarrow> (nat option \<times> kheap) kres option" where
  "krealloc_flags h p new_size =
     (case p of
        None \<Rightarrow> map_option (\<lambda>(r, h1). Inr (Some r, h1)) (kmalloc_flags h new_size)
      | Some ptr \<Rightarrow>
          if new_size = 0 then Some (kbind (kfree h (Some ptr)) (\<lambda>h1. Inr (None, h1)))
          else map_option (\<lambda>(new_buf, h1).
                 let seg = segs h1 (ptr - SEG_SIZE);
                     n = (if unat new_size > seg_length seg then seg_length seg else unat new_size)
                 in kbind (kfree (h1\<lparr>bytes := copy_bytes new_buf ptr n (bytes h1)\<rparr>) (Some ptr)) (\<lambda>h2. Inr (Some new_buf, h2)))
               (kmalloc_flags h new_size))"

subsection \<open>The list of segments\<close>

text \<open>A segment of the abstract list is its payload length and whether it is free.\<close>

type_synonym seglist = "(nat \<times> bool) list"

fun hsize :: "seglist \<Rightarrow> nat" where
  "hsize [] = 0"
| "hsize ((l, f) # xs) = SEG_SIZE + l + hsize xs"

fun hseg :: "(nat \<Rightarrow> heap_segment) \<Rightarrow> nat option \<Rightarrow> nat \<Rightarrow> seglist \<Rightarrow> nat option \<Rightarrow> bool" where
  "hseg m p a [] q \<longleftrightarrow> True"
| "hseg m p a ((l, f) # xs) q \<longleftrightarrow>
     m a = \<lparr>seg_magic = (if f then HEAP_SEG_MAGIC_FREE else HEAP_SEG_MAGIC_ALLOCATED), seg_length = l,
            seg_next = (if xs = [] then q else Some (a + SEG_SIZE + l)), seg_prev = p\<rparr> \<and>
     hseg m (Some a) (a + SEG_SIZE + l) xs q"

definition last_addr :: "nat option \<Rightarrow> nat \<Rightarrow> seglist \<Rightarrow> nat option" where
  "last_addr p a xs = (if xs = [] then p else Some (a + hsize (butlast xs)))"

lemma SEG_SIZE_pos [simp]: "0 < SEG_SIZE" "SEG_SIZE \<noteq> 0"
  by (simp_all add: SEG_SIZE_def)

lemma hsize_append [simp]: "hsize (xs @ ys) = hsize xs + hsize ys"
  by (induction xs rule: hsize.induct) auto

lemma last_addr_simps [simp]:
  "last_addr p a [] = p" "last_addr p a [(l, f)] = Some a" "last_addr p a (xs @ [(l, f)]) = Some (a + hsize xs)"
  by (simp_all add: last_addr_def)

lemma last_addr_Cons: "last_addr (Some a) (a + SEG_SIZE + l) xs = last_addr p a ((l, f) # xs)"
  by (cases xs) (auto simp: last_addr_def)

lemma hseg_append:
  "hseg m p a (xs @ ys) q \<longleftrightarrow>
     hseg m p a xs (if ys = [] then q else Some (a + hsize xs)) \<and> hseg m (last_addr p a xs) (a + hsize xs) ys q"
proof (induction xs arbitrary: p a)
  case (Cons x xs)
  obtain l f where x: "x = (l, f)" by (cases x)
  show ?case
    using Cons.IH [of "Some a" "a + SEG_SIZE + l"] last_addr_Cons [of a l xs p f] unfolding x
    by (cases xs) (auto simp: add.assoc)
qed simp

lemma hseg_frame:
  "(\<And>x. a \<le> x \<Longrightarrow> x < a + hsize xs \<Longrightarrow> m' x = m x) \<Longrightarrow> hseg m' p a xs q = hseg m p a xs q"
proof (induction xs arbitrary: p a)
  case (Cons x xs)
  obtain l f where x: "x = (l, f)" by (cases x)
  have "hseg m' (Some a) (a + SEG_SIZE + l) xs q = hseg m (Some a) (a + SEG_SIZE + l) xs q"
    by (rule Cons.IH) (use Cons.prems in \<open>auto simp: x\<close>)
  moreover have "m' a = m a" using Cons.prems [of a] by (simp add: x)
  ultimately show ?case by (simp add: x)
qed simp

lemma hseg_head:
  "hseg m p a (x # xs) q \<Longrightarrow> seg_prev (m a) = p \<and> seg_length (m a) = fst x \<and>
     seg_magic (m a) = (if snd x then HEAP_SEG_MAGIC_FREE else HEAP_SEG_MAGIC_ALLOCATED) \<and>
     seg_next (m a) = (if xs = [] then q else Some (a + SEG_SIZE + fst x))"
  by (cases x) simp

lemma hseg_set_prev:
  assumes "hseg m p a xs q" "n = (if xs = [] then None else Some a)"
  shows "hseg (set_prev n p' m) p' a xs q"
proof (cases xs)
  case (Cons x ys)
  obtain l f where x: "x = (l, f)" by (cases x)
  have "hseg (m(a := (m a)\<lparr>seg_prev := p'\<rparr>)) (Some a) (a + SEG_SIZE + l) ys q = hseg m (Some a) (a + SEG_SIZE + l) ys q"
    by (rule hseg_frame) auto
  then show ?thesis using assms by (auto simp: Cons x set_prev_def)
qed simp

lemma set_prev_other: "n = (if ys = [] then None else Some b) \<Longrightarrow> x \<noteq> b \<Longrightarrow> set_prev n p m x = m x"
  by (simp add: set_prev_def)

text \<open>One segment in the middle of the list.\<close>

lemma hseg_middle:
  "hseg m p a (xs @ (l, f) # ys) q \<longleftrightarrow>
     hseg m p a xs (Some (a + hsize xs)) \<and>
     m (a + hsize xs) = \<lparr>seg_magic = (if f then HEAP_SEG_MAGIC_FREE else HEAP_SEG_MAGIC_ALLOCATED), seg_length = l,
       seg_next = (if ys = [] then q else Some (a + hsize xs + SEG_SIZE + l)), seg_prev = last_addr p a xs\<rparr> \<and>
     hseg m (Some (a + hsize xs)) (a + hsize xs + SEG_SIZE + l) ys q"
  by (simp add: hseg_append)

lemma kmalloc_search_spec:
  assumes "hseg m p a xs None" "xs \<noteq> []"
  shows "(\<exists>us l vs. xs = us @ (l, True) # vs \<and> amount \<le> l \<and> kmalloc_search m amount a = Some (a + hsize us)) \<or>
    (\<exists>us l f. xs = us @ [(l, f)] \<and> \<not> (f \<and> amount \<le> l) \<and> kmalloc_search m amount a = Some (a + hsize us))"
  using assms
proof (induction xs arbitrary: p a)
  case (Cons x xs)
  obtain l f where x: "x = (l, f)" by (cases x)
  show ?case
  proof (cases "f \<and> amount \<le> l")
    case True
    then show ?thesis
      using Cons.prems by (intro disjI1 exI [of _ "[]"]) (simp add: x kmalloc_search.simps [of m amount a])
  next
    case bad: False
    show ?thesis
    proof (cases "xs = []")
      case True
      then show ?thesis
        using Cons.prems bad by (intro disjI2 exI [of _ "[]"]) (auto simp: x kmalloc_search.simps [of m amount a])
    next
      case False
      let ?b = "a + SEG_SIZE + l"
      have step: "kmalloc_search m amount a = kmalloc_search m amount ?b"
        using Cons.prems bad False by (auto simp: x kmalloc_search.simps [of m amount a])
      have "hseg m (Some a) ?b xs None" using Cons.prems by (simp add: x)
      from Cons.IH [OF this False] show ?thesis unfolding step
        by (elim disjE exE conjE) (force intro: exI [of _ "(l, f) # us" for us] simp: x add.assoc)+
    qed
  qed
qed simp

text \<open>The list after an allocation in a segment of length \<open>l\<close>.\<close>

definition cut_segs :: "nat \<Rightarrow> nat \<Rightarrow> seglist" where
  "cut_segs amount l =
     (if amount + SEG_SIZE + 16 \<le> l then [(amount, False), (l - (SEG_SIZE + amount), True)] else [(l, False)])"

definition mark :: "nat \<Rightarrow> heap_magic \<Rightarrow> (nat \<Rightarrow> heap_segment) \<Rightarrow> nat \<Rightarrow> heap_segment" where
  "mark c g m = m(c := (m c)\<lparr>seg_magic := g\<rparr>)"

lemma hseg_mark:
  assumes "hseg m p a (xs @ (l, f) # ys) q"
  shows "hseg (mark (a + hsize xs) (if g then HEAP_SEG_MAGIC_FREE else HEAP_SEG_MAGIC_ALLOCATED) m) p a (xs @ (l, g) # ys) q"
proof -
  let ?c = "a + hsize xs" and ?m = "mark (a + hsize xs) (if g then HEAP_SEG_MAGIC_FREE else HEAP_SEG_MAGIC_ALLOCATED) m"
  have "hseg ?m p a xs (Some ?c) = hseg m p a xs (Some ?c)" by (rule hseg_frame) (simp add: mark_def)
  moreover have "hseg ?m (Some ?c) (?c + SEG_SIZE + l) ys q = hseg m (Some ?c) (?c + SEG_SIZE + l) ys q"
    by (rule hseg_frame) (auto simp: mark_def SEG_SIZE_def)
  ultimately show ?thesis using assms unfolding hseg_middle by (simp add: mark_def)
qed

lemma kmalloc_cut_spec:
  assumes h: "hseg m p a (xs @ (l, True) # ys) None" and "amount \<le> l"
  defines "c \<equiv> a + hsize xs"
  shows "hseg (mark c HEAP_SEG_MAGIC_ALLOCATED (kmalloc_cut amount c m)) p a (xs @ cut_segs amount l @ ys) None"
proof (cases "amount + SEG_SIZE + 16 \<le> l")
  case False
  have "seg_length (m c) = l" using h unfolding hseg_middle c_def by simp
  then have "kmalloc_cut amount c m = m" using False by (simp add: kmalloc_cut_def)
  then show ?thesis using hseg_mark [OF h, of False] False by (simp add: cut_segs_def c_def)
next
  case True
  let ?n = "c + amount + SEG_SIZE" and ?e = "c + SEG_SIZE + l"
  let ?m1 = "set_prev (if ys = [] then None else Some ?e) (Some ?n) m"
  let ?m = "?m1(?n := \<lparr>seg_magic = HEAP_SEG_MAGIC_FREE, seg_length = l - (SEG_SIZE + amount),
      seg_next = (if ys = [] then None else Some ?e), seg_prev = Some c\<rparr>,
    c := \<lparr>seg_magic = HEAP_SEG_MAGIC_ALLOCATED, seg_length = amount, seg_next = Some ?n, seg_prev = last_addr p a xs\<rparr>)"
  have mc: "m c = \<lparr>seg_magic = HEAP_SEG_MAGIC_FREE, seg_length = l, seg_next = (if ys = [] then None else Some ?e), seg_prev = last_addr p a xs\<rparr>"
    and xs: "hseg m p a xs (Some c)" and ys: "hseg m (Some c) ?e ys None"
    using h unfolding hseg_middle c_def by simp_all
  have old: "?m1 x = m x" if "x < ?e" for x using that by (intro set_prev_other [OF refl]) simp
  have cut: "mark c HEAP_SEG_MAGIC_ALLOCATED (kmalloc_cut amount c m) = ?m"
    using True old [of c] by (simp add: kmalloc_cut_def mc Let_def mark_def)
  have "hseg ?m p a xs (Some c)"
    using xs by (subst hseg_frame [of a xs _ m]) (use old in \<open>auto simp: c_def\<close>)
  moreover have "hseg ?m (Some ?n) ?e ys None"
    using hseg_set_prev [OF ys refl, of "Some ?n"] True by (subst hseg_frame [of ?e ys _ ?m1]) auto
  moreover have "?n + SEG_SIZE + (l - (SEG_SIZE + amount)) = ?e" using True by simp
  ultimately show ?thesis
    unfolding cut using True by (simp add: cut_segs_def hseg_append c_def add_ac)
qed

subsection \<open>The heap invariant\<close>

definition coalesced :: "seglist \<Rightarrow> bool" where
  "coalesced xs \<longleftrightarrow> successively (\<lambda>x y. \<not> (snd x \<and> snd y)) xs"

definition heap_rep :: "kheap \<Rightarrow> seglist \<Rightarrow> bool" where
  "heap_rep h xs \<longleftrightarrow> hseg (segs h) None (first_seg h) xs None \<and> xs \<noteq> [] \<and> first_seg h = kheap_start h \<and>
     hsize xs = kheap_length h \<and> (\<forall>x \<in> set xs. 16 dvd fst x) \<and> coalesced xs \<and> 16 dvd kheap_start h"

lemma heap_rep_hseg: "heap_rep h xs \<Longrightarrow> hseg (segs h) None (first_seg h) xs None"
  unfolding heap_rep_def by blast

text \<open>The blocks in use: payload address and length.\<close>

fun allocs :: "nat \<Rightarrow> seglist \<Rightarrow> (nat \<times> nat) set" where
  "allocs a [] = {}"
| "allocs a ((l, f) # xs) = (if f then {} else {(a + SEG_SIZE, l)}) \<union> allocs (a + SEG_SIZE + l) xs"

lemma allocs_append [simp]: "allocs a (xs @ ys) = allocs a xs \<union> allocs (a + hsize xs) ys"
  by (induction xs arbitrary: a rule: hsize.induct) (auto simp: add.assoc)

lemma allocs_range: "(b, l) \<in> allocs a xs \<Longrightarrow> a + SEG_SIZE \<le> b \<and> b + l \<le> a + hsize xs"
  by (induction xs arbitrary: a rule: hsize.induct) (fastforce split: if_splits)+

lemma allocs_disjoint:
  "(b, l) \<in> allocs a xs \<Longrightarrow> (b', l') \<in> allocs a xs \<Longrightarrow> (b, l) = (b', l') \<or> b + l < b' \<or> b' + l' < b"
proof (induction xs arbitrary: a rule: hsize.induct)
  case (2 l0 f xs)
  show ?case
    using 2 allocs_range [of b l "a + SEG_SIZE + l0" xs] allocs_range [of b' l' "a + SEG_SIZE + l0" xs] SEG_SIZE_pos
    by (cases f) (fastforce simp del: SEG_SIZE_pos)+
qed simp

lemma coalesced_append:
  "coalesced (xs @ ys) \<longleftrightarrow> coalesced xs \<and> coalesced ys \<and> (xs = [] \<or> ys = [] \<or> \<not> (snd (last xs) \<and> snd (hd ys)))"
  by (auto simp: coalesced_def successively_append_iff)

lemma coalesced_Cons: "coalesced (x # xs) \<longleftrightarrow> coalesced xs \<and> (xs = [] \<or> \<not> (snd x \<and> snd (hd xs)))"
  by (auto simp: coalesced_def successively_Cons)

lemma coalesced_Nil [simp]: "coalesced []"
  by (simp add: coalesced_def)

lemma page_inc:
  assumes "0 < n"
  defines "i \<equiv> PAGE_ALIGN_UP n"
  shows "n \<le> i" "i div PAGE_SIZE * PAGE_SIZE = i" "16 dvd i" "i \<noteq> 0"
proof -
  show n: "n \<le> i" using PAGE_ALIGN_UP_bounds(1) [of n] by (simp add: i_def)
  show "i div PAGE_SIZE * PAGE_SIZE = i" by (simp add: i_def)
  have "16 dvd PAGE_SIZE" by (simp add: PAGE_SIZE_def)
  then show "16 dvd i" unfolding i_def using PAGE_ALIGN_dvd(2) dvd_trans by blast
  show "i \<noteq> 0" using n assms(1) by simp
qed

lemma grow_rep:
  assumes rep: "heap_rep h (us @ [(l, f)])" and bad: "\<not> (f \<and> amount \<le> l)"
    and run: "kmalloc_grow amount (first_seg h + hsize us) h = (c, h1)"
  shows "\<exists>us' l'. c = first_seg h + hsize us' \<and> heap_rep h1 (us' @ [(l', True)]) \<and> amount \<le> l' \<and>
    allocs (first_seg h) (us @ [(l, f)]) = allocs (first_seg h) (us' @ [(l', True)]) \<and> first_seg h1 = first_seg h \<and> bytes h1 = bytes h"
proof -
  let ?a = "first_seg h" and ?m = "segs h"
  let ?c = "?a + hsize us"
  have R: "hseg ?m None ?a (us @ [(l, f)]) None" "?a = kheap_start h" "hsize us + (SEG_SIZE + l) = kheap_length h"
    "\<forall>x \<in> set us. 16 dvd fst x" "16 dvd l" "coalesced (us @ [(l, f)])" "16 dvd kheap_start h"
    using rep by (auto simp: heap_rep_def)
  have us: "hseg ?m None ?a us (Some ?c)" and mc: "?m ?c = \<lparr>seg_magic = (if f then HEAP_SEG_MAGIC_FREE else HEAP_SEG_MAGIC_ALLOCATED),
      seg_length = l, seg_next = None, seg_prev = last_addr None ?a us\<rparr>"
    using R(1) unfolding hseg_middle by simp_all
  show ?thesis
  proof (cases f)
    case True
    let ?i = "PAGE_ALIGN_UP (amount - l + SEG_SIZE + 16)"
    note i = page_inc [of "amount - l + SEG_SIZE + 16", simplified]
    let ?m' = "?m(?c := (?m ?c)\<lparr>seg_length := l + ?i\<rparr>)"
    have "hseg ?m' None ?a us (Some ?c)" using us by (subst hseg_frame [of ?a us _ ?m]) auto
    then have "hseg ?m' None ?a (us @ [(l + ?i, True)]) None" using True by (simp add: hseg_append mc)
    moreover have "c = ?c" "h1 = (change_kheap_size ?i h)\<lparr>segs := ?m'\<rparr>"
      using run True by (auto simp: kmalloc_grow_def mc Let_def)
    ultimately show ?thesis using R True i bad
      by (intro exI [of _ us] exI [of _ "l + ?i"]) (auto simp: heap_rep_def change_kheap_size_def coalesced_append coalesced_Cons)
  next
    case False
    let ?i = "PAGE_ALIGN_UP (amount + SEG_SIZE * 2 + 16)" and ?n = "?c + l + SEG_SIZE"
    note i = page_inc [of "amount + SEG_SIZE * 2 + 16", simplified]
    let ?new = "\<lparr>seg_magic = HEAP_SEG_MAGIC_FREE, seg_length = ?i - SEG_SIZE, seg_next = None, seg_prev = Some ?c\<rparr>"
    let ?m' = "?m(?n := ?new, ?c := (?m ?c)\<lparr>seg_next := Some ?n\<rparr>)"
    have "hseg ?m' None ?a us (Some ?c)" using us by (subst hseg_frame [of ?a us _ ?m]) auto
    then have "hseg ?m' None ?a (us @ [(l, False), (?i - SEG_SIZE, True)]) None"
      using False by (simp add: hseg_append mc add.assoc add.commute [of l SEG_SIZE])
    moreover have "c = ?n" "h1 = (change_kheap_size ?i h)\<lparr>segs := ?m'\<rparr>"
      using run False by (auto simp: kmalloc_grow_def mc Let_def)
    moreover have "16 dvd ?i - SEG_SIZE" using i(3) by (simp add: SEG_SIZE_def)
    moreover have "SEG_SIZE \<le> ?i" "amount \<le> ?i - SEG_SIZE" using i(1) by simp_all
    ultimately show ?thesis using R False i
      by (intro exI [of _ "us @ [(l, False)]"] exI [of _ "?i - SEG_SIZE"])
        (auto simp: heap_rep_def change_kheap_size_def coalesced_append coalesced_Cons)
  qed
qed

lemma kmalloc_amount_spec:
  "16 dvd unat (kmalloc_amount n)" "unat n \<le> 2 ^ 64 - 16 \<Longrightarrow> unat n \<le> unat (kmalloc_amount n) \<and> unat (kmalloc_amount n) < unat n + 16"
proof -
  have a: "and n 15 = n mod 16" using take_bit_eq_mask [of 4 n] take_bit_eq_mod [of 4 n] by (simp add: mask_eq_exp_minus_1)
  have u: "unat (n mod 16) = unat n mod 16" by (simp add: unat_mod_distrib)
  have z: "n mod 16 = 0 \<longleftrightarrow> unat n mod 16 = 0" using u by (metis unat_eq_zero)
  have d: "unat (16 - n mod 16) = 16 - unat n mod 16"
    by (subst unat_sub) (simp_all add: u word_le_nat_alt)
  have k: "unat (kmalloc_amount n) = (if unat n mod 16 = 0 then unat n else (unat n + (16 - unat n mod 16)) mod 2 ^ 64)"
    by (simp add: kmalloc_amount_def a z unat_word_ariths(1) d)
  have m: "16 dvd unat n + (16 - unat n mod 16)" by presburger
  have "(16::nat) dvd 2 ^ 64" by simp
  then have "16 dvd (unat n + (16 - unat n mod 16)) mod 2 ^ 64" using m by (rule dvd_mod [rotated])
  then show "16 dvd unat (kmalloc_amount n)" unfolding k by (auto simp: mod_eq_0_iff_dvd)
  show "unat n \<le> unat (kmalloc_amount n) \<and> unat (kmalloc_amount n) < unat n + 16" if "unat n \<le> 2 ^ 64 - 16"
  proof (cases "unat n mod 16 = 0")
    case False
    have "16 - unat n mod 16 \<le> 15" using False by simp
    then have "unat n + (16 - unat n mod 16) < 2 ^ 64" using that by simp
    then show ?thesis using k False by simp
  qed (simp add: k)
qed

lemma cut_rep:
  assumes rep: "heap_rep h (us @ (l, True) # vs)" and "amount \<le> l" "16 dvd amount"
  defines "c \<equiv> first_seg h + hsize us"
  shows "heap_rep (h\<lparr>segs := mark c HEAP_SEG_MAGIC_ALLOCATED (kmalloc_cut amount c (segs h))\<rparr>) (us @ cut_segs amount l @ vs)"
proof -
  have "hseg (mark c HEAP_SEG_MAGIC_ALLOCATED (kmalloc_cut amount c (segs h))) None (first_seg h) (us @ cut_segs amount l @ vs) None"
    unfolding c_def by (rule kmalloc_cut_spec) (use rep assms(2) in \<open>auto simp: heap_rep_def\<close>)
  moreover have "hsize (cut_segs amount l) = SEG_SIZE + l" by (simp add: cut_segs_def)
  moreover have "\<forall>x \<in> set (cut_segs amount l). 16 dvd fst x"
    using rep assms(3) by (auto simp: cut_segs_def heap_rep_def SEG_SIZE_def)
  moreover have "coalesced (us @ cut_segs amount l @ vs)"
    using rep by (auto simp: heap_rep_def coalesced_append coalesced_Cons cut_segs_def)
  ultimately show ?thesis using rep by (auto simp: heap_rep_def)
qed

lemma kmalloc_spec:
  fixes n :: u64
  assumes rep: "heap_rep h xs"
  defines "amount \<equiv> unat (kmalloc_amount n)"
  shows "\<exists>us l vs h'. kmalloc_flags h n = Some (first_seg h + hsize us + SEG_SIZE, h') \<and> amount \<le> l \<and>
    heap_rep h' (us @ cut_segs amount l @ vs) \<and> allocs (first_seg h) xs = allocs (first_seg h) (us @ (l, True) # vs) \<and>
    first_seg h' = first_seg h \<and> bytes h' = bytes h"
proof -
  let ?a = "first_seg h"
  have d: "16 dvd amount" by (simp add: amount_def kmalloc_amount_spec)
  have "hseg (segs h) None ?a xs None" "xs \<noteq> []" using rep by (auto simp: heap_rep_def)
  from kmalloc_search_spec [OF this, of amount] show ?thesis
  proof (elim disjE exE conjE)
    fix us l vs
    assume xs: "xs = us @ (l, True) # vs" "amount \<le> l" "kmalloc_search (segs h) amount ?a = Some (?a + hsize us)"
    have "hseg (segs h) None ?a (us @ (l, True) # vs) None" using heap_rep_hseg [OF rep] xs(1) by simp
    then have "segs h (?a + hsize us) = \<lparr>seg_magic = HEAP_SEG_MAGIC_FREE, seg_length = l,
        seg_next = (if vs = [] then None else Some (?a + hsize us + SEG_SIZE + l)), seg_prev = last_addr None ?a us\<rparr>"
      unfolding hseg_middle by simp
    then show ?thesis
      using cut_rep [OF rep [unfolded xs(1)] xs(2) d] xs
      by - (rule exI [of _ us], rule exI [of _ l], rule exI [of _ vs],
        simp add: kmalloc_flags_def amount_def [symmetric] mark_def Let_def)
  next
    fix us l f
    assume xs: "xs = us @ [(l, f)]" "\<not> (f \<and> amount \<le> l)" "kmalloc_search (segs h) amount ?a = Some (?a + hsize us)"
    obtain c h1 where g: "kmalloc_grow amount (?a + hsize us) h = (c, h1)" by fastforce
    obtain us' l' where r: "c = ?a + hsize us'" "heap_rep h1 (us' @ [(l', True)])" "amount \<le> l'"
      "allocs ?a xs = allocs ?a (us' @ [(l', True)])" "first_seg h1 = ?a" "bytes h1 = bytes h"
      using grow_rep [OF rep [unfolded xs(1)] xs(2) g] xs(1) by blast
    have "hseg (segs h) None ?a (us @ [(l, f)]) None" using heap_rep_hseg [OF rep] xs(1) by simp
    then have "\<not> (\<not> seg_length (segs h (?a + hsize us)) < amount \<and> seg_magic (segs h (?a + hsize us)) = HEAP_SEG_MAGIC_FREE)"
      using xs(2) unfolding hseg_middle by auto
    then show ?thesis
      using cut_rep [OF r(2,3) d] r xs(3) g
      by - (rule exI [of _ us'], rule exI [of _ l'], rule exI [of _ "[]"],
        auto simp: kmalloc_flags_def amount_def [symmetric] mark_def Let_def)
  qed
qed

subsection \<open>Freeing\<close>

fun join_next :: "nat \<Rightarrow> seglist \<Rightarrow> seglist" where
  "join_next l ((l2, True) # vs) = (l + l2 + SEG_SIZE, True) # vs"
| "join_next l vs = (l, True) # vs"

lemma merge_next_spec:
  assumes h: "hseg m p a (us @ (l, True) # vs) None"
  shows "hseg (kfree_merge_next (a + hsize us) m) p a (us @ join_next l vs) None"
proof (cases "\<exists>l2 ws. vs = (l2, True) # ws")
  case False
  have "seg_magic (m (a + hsize us + SEG_SIZE + l)) \<noteq> HEAP_SEG_MAGIC_FREE" if "vs \<noteq> []"
    using h that False unfolding hseg_middle by (cases vs) (auto split: if_splits)
  then have "kfree_merge_next (a + hsize us) m = m"
    using h unfolding hseg_middle by (auto simp: kfree_merge_next_def)
  moreover have "join_next l vs = (l, True) # vs" using False by (cases "(l, vs)" rule: join_next.cases) auto
  ultimately show ?thesis using h by simp
next
  case True
  then obtain l2 ws where vs: "vs = (l2, True) # ws" by blast
  let ?c = "a + hsize us" and ?n = "a + hsize us + SEG_SIZE + l" and ?e = "a + hsize us + SEG_SIZE + l + SEG_SIZE + l2"
  let ?m1 = "set_prev (if ws = [] then None else Some ?e) (Some ?c) m"
  let ?new = "\<lparr>seg_magic = HEAP_SEG_MAGIC_FREE, seg_length = l + l2 + SEG_SIZE, seg_next = (if ws = [] then None else Some ?e),
    seg_prev = last_addr p a us\<rparr>"
  have us: "hseg m p a us (Some ?c)" and mc: "m ?c = \<lparr>seg_magic = HEAP_SEG_MAGIC_FREE, seg_length = l, seg_next = Some ?n, seg_prev = last_addr p a us\<rparr>"
    and mn: "m ?n = \<lparr>seg_magic = HEAP_SEG_MAGIC_FREE, seg_length = l2, seg_next = (if ws = [] then None else Some ?e), seg_prev = Some ?c\<rparr>"
    and ws: "hseg m (Some ?n) ?e ws None"
    using h unfolding hseg_middle vs by simp_all
  have old: "?m1 x = m x" if "x < ?e" for x using that by (intro set_prev_other [OF refl]) simp
  have eq: "kfree_merge_next ?c m = ?m1(?c := ?new)"
    using old [of ?c] old [of ?n] SEG_SIZE_pos by (simp add: kfree_merge_next_def mc mn Let_def del: SEG_SIZE_pos)
  have "hseg (?m1(?c := ?new)) p a us (Some ?c)"
    using us by (subst hseg_frame [of a us _ m]) (use old in auto)
  moreover have "hseg (?m1(?c := ?new)) (Some ?c) ?e ws None"
    using hseg_set_prev [OF ws refl, of "Some ?c"] by (subst hseg_frame [of ?e ws _ ?m1]) auto
  ultimately show ?thesis unfolding eq vs by (simp add: hseg_append add_ac)
qed

lemma merge_prev_spec:
  assumes h: "hseg m None a (us @ (l, True) # vs) None"
  shows "\<exists>zs. hseg (kfree_merge_prev (a + hsize us) m) None a zs None \<and>
    (if us \<noteq> [] \<and> snd (last us) then zs = butlast us @ (fst (last us) + l + SEG_SIZE, True) # vs else zs = us @ (l, True) # vs)"
proof (cases us rule: rev_cases)
  case Nil
  then have "kfree_merge_prev (a + hsize us) m = m" using h by (simp add: kfree_merge_prev_def)
  then show ?thesis using h Nil by simp
next
  case (snoc ts x)
  obtain l0 f where x: "x = (l0, f)" by (cases x)
  let ?p = "a + hsize ts" and ?c = "a + hsize ts + SEG_SIZE + l0" and ?e = "a + hsize ts + SEG_SIZE + l0 + SEG_SIZE + l"
  have c: "a + hsize us = ?c" by (simp add: snoc x)
  have ts: "hseg m None a ts (Some ?p)"
    and mp: "m ?p = \<lparr>seg_magic = (if f then HEAP_SEG_MAGIC_FREE else HEAP_SEG_MAGIC_ALLOCATED), seg_length = l0, seg_next = Some ?c, seg_prev = last_addr None a ts\<rparr>"
    and mc: "m ?c = \<lparr>seg_magic = HEAP_SEG_MAGIC_FREE, seg_length = l, seg_next = (if vs = [] then None else Some ?e), seg_prev = Some ?p\<rparr>"
    and vs: "hseg m (Some ?c) ?e vs None"
    using h unfolding snoc x append_assoc append_Cons append_Nil hseg_middle by simp_all
  show ?thesis
  proof (cases f)
    case False
    then have "kfree_merge_prev ?c m = m" by (simp add: kfree_merge_prev_def mc mp)
    then show ?thesis unfolding c using h False by (simp add: snoc x)
  next
    case True
    let ?m1 = "set_prev (if vs = [] then None else Some ?e) (Some ?p) m"
    let ?new = "\<lparr>seg_magic = HEAP_SEG_MAGIC_FREE, seg_length = l0 + l + SEG_SIZE, seg_next = (if vs = [] then None else Some ?e),
      seg_prev = last_addr None a ts\<rparr>"
    have old: "?m1 y = m y" if "y < ?e" for y using that by (intro set_prev_other [OF refl]) simp
    have eq: "kfree_merge_prev ?c m = ?m1(?p := ?new)"
      using old [of ?c] old [of ?p] SEG_SIZE_pos True by (simp add: kfree_merge_prev_def mc mp Let_def del: SEG_SIZE_pos)
    have "hseg (?m1(?p := ?new)) None a ts (Some ?p)"
      using ts by (subst hseg_frame [of a ts _ m]) (use old in auto)
    moreover have "hseg (?m1(?p := ?new)) (Some ?p) ?e vs None"
      using hseg_set_prev [OF vs refl, of "Some ?p"] by (subst hseg_frame [of ?e vs _ ?m1]) auto
    ultimately show ?thesis unfolding c eq using True by (simp add: snoc x hseg_append add_ac)
  qed
qed

text \<open>The list after freeing: joined with the free neighbours.\<close>

definition free_segs :: "seglist \<Rightarrow> nat \<Rightarrow> seglist \<Rightarrow> seglist" where
  "free_segs us l vs =
     (case join_next l vs of
        (l', _) # ws \<Rightarrow> if us \<noteq> [] \<and> snd (last us) then butlast us @ (fst (last us) + l' + SEG_SIZE, True) # ws
                     else us @ (l', True) # ws
      | [] \<Rightarrow> us)"

lemma join_next_form:
  obtains l' ws where "join_next l vs = (l', True) # ws" "hsize (join_next l vs) = SEG_SIZE + l + hsize vs"
    "allocs b (join_next l vs) = allocs (b + SEG_SIZE + l) vs" "16 dvd l \<Longrightarrow> \<forall>x \<in> set vs. 16 dvd fst x \<Longrightarrow> 16 dvd l' \<and> (\<forall>x \<in> set ws. 16 dvd fst x)"
    "coalesced vs \<Longrightarrow> coalesced ws \<and> (ws = [] \<or> \<not> snd (hd ws))"
proof (cases "\<exists>l2 ws. vs = (l2, True) # ws")
  case True
  then obtain l2 ws where "vs = (l2, True) # ws" by blast
  then show ?thesis by (intro that [of "l + l2 + SEG_SIZE" ws]) (auto simp: coalesced_Cons SEG_SIZE_def add_ac)
next
  case False
  then have "join_next l vs = (l, True) # vs" by (cases "(l, vs)" rule: join_next.cases) auto
  then show ?thesis using False by (intro that [of l vs]) (auto simp: neq_Nil_conv)
qed

lemma free_segs_facts:
  assumes "\<forall>x \<in> set (us @ (l, False) # vs). 16 dvd fst x" "coalesced (us @ (l, False) # vs)"
  shows "hsize (free_segs us l vs) = hsize (us @ (l, False) # vs) \<and> free_segs us l vs \<noteq> [] \<and>
    allocs a (free_segs us l vs) = allocs a us \<union> allocs (a + hsize us + SEG_SIZE + l) vs \<and>
    (\<forall>x \<in> set (free_segs us l vs). 16 dvd fst x) \<and> coalesced (free_segs us l vs)"
proof -
  obtain l' ws where J: "join_next l vs = (l', True) # ws" "hsize (join_next l vs) = SEG_SIZE + l + hsize vs"
    "allocs (a + hsize us) (join_next l vs) = allocs (a + hsize us + SEG_SIZE + l) vs" "16 dvd l' \<and> (\<forall>x \<in> set ws. 16 dvd fst x)"
    "coalesced ws \<and> (ws = [] \<or> \<not> snd (hd ws))"
    by (rule join_next_form [of l vs "a + hsize us"]) (use assms in \<open>auto simp: coalesced_append coalesced_Cons\<close>)
  show ?thesis
  proof (cases "us \<noteq> [] \<and> snd (last us)")
    case False
    then show ?thesis using J assms by (auto simp: free_segs_def coalesced_append coalesced_Cons)
  next
    case True
    then obtain ts l0 where us: "us = ts @ [(l0, True)]" by (cases us rule: rev_cases) auto
    show ?thesis using J assms by (auto simp: free_segs_def us coalesced_append coalesced_Cons SEG_SIZE_def add_ac)
  qed
qed

lemma kfree_spec:
  assumes rep: "heap_rep h (us @ (l, False) # vs)"
  defines "ptr \<equiv> first_seg h + hsize us + SEG_SIZE"
  shows "\<exists>h'. kfree h (Some ptr) = Inr h' \<and> heap_rep h' (free_segs us l vs) \<and> first_seg h' = first_seg h \<and>
    (\<forall>x. bytes h' x = (if ptr \<le> x \<and> x < ptr + l then 0xdd else bytes h x))"
proof -
  let ?a = "first_seg h" and ?c = "first_seg h + hsize us"
  let ?m1 = "mark ?c HEAP_SEG_MAGIC_FREE (segs h)"
  have F: "hsize (free_segs us l vs) = hsize (us @ (l, False) # vs) \<and> free_segs us l vs \<noteq> [] \<and>
      (\<forall>x \<in> set (free_segs us l vs). 16 dvd fst x) \<and> coalesced (free_segs us l vs)"
    using free_segs_facts [of us l vs] rep [unfolded heap_rep_def] by blast
  have H: "hseg (segs h) None ?a (us @ (l, False) # vs) None" by (rule heap_rep_hseg [OF rep])
  have mc: "seg_magic (segs h ?c) = HEAP_SEG_MAGIC_ALLOCATED" "seg_length (segs h ?c) = l" using H unfolding hseg_middle by simp_all
  have "hseg ?m1 None ?a (us @ (l, True) # vs) None" using hseg_mark [OF H, of True] by simp
  then have n: "hseg (kfree_merge_next ?c ?m1) None ?a (us @ join_next l vs) None" by (rule merge_next_spec)
  obtain l' ws where J: "join_next l vs = (l', True) # ws" by (rule join_next_form [of l vs 0])
  have z: "hseg (kfree_merge_prev ?c (kfree_merge_next ?c ?m1)) None ?a (free_segs us l vs) None"
    using merge_prev_spec [OF n [unfolded J]] by (auto simp: free_segs_def J split: if_splits)
  have run: "kfree h (Some ptr) = Inr (h\<lparr>bytes := (\<lambda>x. if ptr \<le> x \<and> x < ptr + l then 0xdd else bytes h x),
      segs := kfree_merge_prev ?c (kfree_merge_next ?c ?m1)\<rparr>)"
    using mc by (simp add: kfree_def ptr_def mark_def Let_def)
  have "heap_rep (h\<lparr>bytes := (\<lambda>x. if ptr \<le> x \<and> x < ptr + l then 0xdd else bytes h x),
      segs := kfree_merge_prev ?c (kfree_merge_next ?c ?m1)\<rparr>) (free_segs us l vs)"
    using z rep [unfolded heap_rep_def] F unfolding heap_rep_def by simp
  then show ?thesis using run by simp
qed

lemma allocs_split:
  assumes "(b, l) \<in> allocs a xs"
  obtains us vs where "xs = us @ (l, False) # vs" "b = a + hsize us + SEG_SIZE"
    "allocs a xs - {(b, l)} = allocs a us \<union> allocs (a + hsize us + SEG_SIZE + l) vs"
proof -
  have "\<exists>us vs. xs = us @ (l, False) # vs \<and> b = a + hsize us + SEG_SIZE"
    using assms
  proof (induction xs arbitrary: a)
    case (Cons x xs)
    obtain l0 f where x: "x = (l0, f)" by (cases x)
    consider "\<not> f" "b = a + SEG_SIZE" "l = l0" | "(b, l) \<in> allocs (a + SEG_SIZE + l0) xs"
      using Cons.prems by (auto simp: x split: if_splits)
    then show ?case
    proof cases
      case 1
      then show ?thesis by (intro exI [of _ "[]"] exI [of _ xs]) (simp add: x)
    next
      case 2
      from Cons.IH [OF this] obtain us vs where "xs = us @ (l, False) # vs" "b = a + SEG_SIZE + l0 + hsize us + SEG_SIZE" by blast
      then show ?thesis by - (rule exI [of _ "(l0, f) # us"], rule exI [of _ vs], simp add: x)
    qed
  qed simp
  then obtain us vs where uv: "xs = us @ (l, False) # vs" "b = a + hsize us + SEG_SIZE" by blast
  have "(b, l) \<notin> allocs a us" "(b, l) \<notin> allocs (a + hsize us + SEG_SIZE + l) vs"
    using allocs_range [of b l a us] allocs_range [of b l "a + hsize us + SEG_SIZE + l" vs] SEG_SIZE_pos(1) uv(2)
    by (auto simp del: SEG_SIZE_pos)
  then show ?thesis using that uv by auto
qed

lemma cut_allocs:
  "\<exists>len. amount \<le> l \<longrightarrow> amount \<le> len \<and> len \<le> l \<and> allocs c (cut_segs amount l) = {(c + SEG_SIZE, len)}"
  by (intro exI [of _ "if amount + SEG_SIZE + 16 \<le> l then amount else l"]) (auto simp: cut_segs_def)

text \<open>Allocation and freeing in terms of the blocks in use.\<close>

lemma kmalloc_blocks:
  fixes n :: u64
  assumes rep: "heap_rep h xs"
  shows "\<exists>p len h' ys. kmalloc_flags h n = Some (p, h') \<and> heap_rep h' ys \<and> first_seg h' = first_seg h \<and> bytes h' = bytes h \<and>
    unat (kmalloc_amount n) \<le> len \<and> (p, len) \<notin> allocs (first_seg h) xs \<and>
    allocs (first_seg h) ys = insert (p, len) (allocs (first_seg h) xs) \<and> 16 dvd p"
proof -
  let ?a = "first_seg h" and ?n = "unat (kmalloc_amount n)"
  obtain us l vs h' where r: "kmalloc_flags h n = Some (?a + hsize us + SEG_SIZE, h')" "?n \<le> l"
    "heap_rep h' (us @ cut_segs ?n l @ vs)" "allocs ?a xs = allocs ?a (us @ (l, True) # vs)" "first_seg h' = ?a" "bytes h' = bytes h"
    using kmalloc_spec [OF rep] by blast
  let ?c = "?a + hsize us"
  obtain len where len: "?n \<le> len" "len \<le> l" "allocs ?c (cut_segs ?n l) = {(?c + SEG_SIZE, len)}"
    using cut_allocs [of ?n l ?c] r(2) by blast
  have "hsize (cut_segs ?n l) = SEG_SIZE + l" using r(2) by (simp add: cut_segs_def)
  then have ys: "allocs ?a (us @ cut_segs ?n l @ vs) = insert (?c + SEG_SIZE, len) (allocs ?a xs)"
    using len(3) r(4) by (simp add: add.assoc)
  have "(?c + SEG_SIZE, len) \<notin> allocs ?a us" "(?c + SEG_SIZE, len) \<notin> allocs (?c + SEG_SIZE + l) vs"
    using allocs_range [of "?c + SEG_SIZE" len ?a us] allocs_range [of "?c + SEG_SIZE" len "?c + SEG_SIZE + l" vs]
    by (auto simp: SEG_SIZE_def)
  then have new: "(?c + SEG_SIZE, len) \<notin> allocs ?a xs" using r(4) by simp
  have "\<forall>x \<in> set zs. 16 dvd fst x \<Longrightarrow> 16 dvd hsize zs" for zs
    by (induction zs rule: hsize.induct) (auto simp: SEG_SIZE_def)
  then have "16 dvd ?c + SEG_SIZE" using r(3,5) by (auto simp: heap_rep_def SEG_SIZE_def)
  then show ?thesis using r len ys new by blast
qed

lemma kfree_blocks:
  assumes rep: "heap_rep h xs" and p: "(p, l) \<in> allocs (first_seg h) xs"
  shows "\<exists>h' ys. kfree h (Some p) = Inr h' \<and> heap_rep h' ys \<and> first_seg h' = first_seg h \<and>
    allocs (first_seg h) ys = allocs (first_seg h) xs - {(p, l)} \<and>
    (\<forall>x. bytes h' x = (if p \<le> x \<and> x < p + l then 0xdd else bytes h x))"
proof -
  obtain us vs where uv: "xs = us @ (l, False) # vs" "p = first_seg h + hsize us + SEG_SIZE"
    "allocs (first_seg h) xs - {(p, l)} = allocs (first_seg h) us \<union> allocs (first_seg h + hsize us + SEG_SIZE + l) vs"
    by (rule allocs_split [OF p])
  have "allocs (first_seg h) (free_segs us l vs) = allocs (first_seg h) xs - {(p, l)}"
    using free_segs_facts [of us l vs "first_seg h"] rep uv by (auto simp: heap_rep_def)
  then show ?thesis using kfree_spec [OF rep [unfolded uv(1)]] uv(2) by auto
qed

lemma krealloc_blocks:
  fixes n :: u64
  assumes rep: "heap_rep h xs" and p: "(p, l) \<in> allocs (first_seg h) xs" and n: "n \<noteq> 0" "unat n \<le> 2 ^ 64 - 16"
  shows "\<exists>q len h' ys. krealloc_flags h (Some p) n = Some (Inr (Some q, h')) \<and> heap_rep h' ys \<and> first_seg h' = first_seg h \<and>
    allocs (first_seg h) ys = insert (q, len) (allocs (first_seg h) xs - {(p, l)}) \<and> unat n \<le> len \<and>
    (\<forall>i < min l (unat n). bytes h' (q + i) = bytes h (p + i)) \<and>
    (\<forall>(b, k) \<in> allocs (first_seg h) xs - {(p, l)}. \<forall>x \<in> {b..<b + k}. bytes h' x = bytes h x)"
proof -
  let ?a = "first_seg h"
  obtain q len h1 ys where m: "kmalloc_flags h n = Some (q, h1)" "heap_rep h1 ys" "first_seg h1 = ?a" "bytes h1 = bytes h"
    "unat (kmalloc_amount n) \<le> len" "(q, len) \<notin> allocs ?a xs" "allocs ?a ys = insert (q, len) (allocs ?a xs)"
    using kmalloc_blocks [OF rep] by blast
  have nl: "unat n \<le> len" using kmalloc_amount_spec(2) [OF n(2)] m(5) by simp
  let ?k = "min l (unat n)"
  let ?h = "h1\<lparr>bytes := copy_bytes q p ?k (bytes h1)\<rparr>"
  have rep': "heap_rep ?h ys" using m(2) by (auto simp: heap_rep_def)
  have p': "(p, l) \<in> allocs (first_seg ?h) ys" using p m(3,7) by simp
  obtain us vs where "ys = us @ (l, False) # vs" "p = ?a + hsize us + SEG_SIZE" by (rule allocs_split [of p l ?a ys]) (use p' m(3) in auto)
  then have len: "seg_length (segs h1 (p - SEG_SIZE)) = l" 
    using heap_rep_hseg [OF m(2)] m(3) by (simp add: hseg_middle)
  obtain h2 zs where f: "kfree ?h (Some p) = Inr h2" "heap_rep h2 zs" "first_seg h2 = ?a" "allocs ?a zs = allocs ?a ys - {(p, l)}"
    "\<And>x. bytes h2 x = (if p \<le> x \<and> x < p + l then 0xdd else bytes ?h x)"
    using kfree_blocks [OF rep' p'] m(3) by auto
  have run: "krealloc_flags h (Some p) n = Some (Inr (Some q, h2))"
    using n(1) m(1) len f(1) by (auto simp: krealloc_flags_def Let_def min_def split: if_splits)
  have apart: "b + k < b' \<or> b' + k' < b" if "(b, k) \<in> allocs ?a ys" "(b', k') \<in> allocs ?a ys" "(b, k) \<noteq> (b', k')" for b k b' k'
    using allocs_disjoint [OF that(1,2)] that(3) by blast
  have qp: "q + len < p \<or> p + l < q" using apart [of q len p l] p m(6,7) by auto
  have "bytes h2 (q + i) = bytes h (p + i)" if "i < ?k" for i
    using that qp nl f(5) [of "q + i"] m(4) by (auto simp: copy_bytes_def)
  then have 1: "\<forall>i < ?k. bytes h2 (q + i) = bytes h (p + i)" by blast
  have "bytes h2 x = bytes h x" if o: "(b, k) \<in> allocs ?a xs - {(p, l)}" "x \<in> {b..<b + k}" for b k x
  proof -
    have "b + k < p \<or> p + l < b" "b + k < q \<or> q + len < b" using apart [of b k p l] apart [of b k q len] o(1) p m(6,7) by auto
    then show ?thesis using o(2) nl f(5) [of x] m(4) by (auto simp: copy_bytes_def)
  qed
  then have 2: "\<forall>(b, k) \<in> allocs ?a xs - {(p, l)}. \<forall>x \<in> {b..<b + k}. bytes h2 x = bytes h x" by blast
  have "allocs ?a zs = insert (q, len) (allocs ?a xs - {(p, l)})" using f(4) m(6,7) p by auto
  then show ?thesis using run f(2,3) nl 1 2 by blast
qed

lemma init_kheap_rep: "heap_rep (init_kheap start h) [(PAGE_SIZE - SEG_SIZE, True)]"
proof -
  have "16 dvd PAGE_SIZE" "PAGE_SIZE dvd PAGE_ALIGN_DOWN start" by (simp_all add: PAGE_SIZE_def PAGE_ALIGN_DOWN_def)
  then have "16 dvd PAGE_ALIGN_DOWN start" using dvd_trans by blast
  then show ?thesis by (simp add: heap_rep_def init_kheap_def Let_def coalesced_def PAGE_SIZE_def SEG_SIZE_def)
qed

text \<open>The rounding wraps: a request of the largest size becomes a request of no bytes, and succeeds.\<close>

lemma kmalloc_amount_wraps: "kmalloc_amount (- 1) = 0"
  by code_simp

subsection \<open>Correctness of the heap\<close>


definition ex_heap0 :: kheap where
  "ex_heap0 = \<lparr>kheap_start = 0, kheap_length = 0, first_seg = 0,
     segs = (\<lambda>_. \<lparr>seg_magic = HEAP_SEG_MAGIC_OTHER, seg_length = 0, seg_next = None, seg_prev = None\<rparr>), bytes = (\<lambda>_. 0)\<rparr>"


end
