(* ===== verification/Hashmap.thy ===== *)
theory Hashmap
  imports Prelude
begin

section \<open>Vectors, hash maps and reference counts\<close>

text \<open>
  Models \<^verbatim>\<open>kernel/include/klib/vector.h\<close>, \<^verbatim>\<open>kernel/include/klib/hashmap.h\<close> and
  \<^verbatim>\<open>kernel/include/klib/refcount.h\<close>. A vector's buffer is the list of its slots up to the highest one
  written; a null buffer is \<open>None\<close>. The code does not check its allocations, so they succeed here.
  Keys are the 64 bits of a C \<^verbatim>\<open>long\<close>.
\<close>

subsection \<open>Vectors\<close>

record 'a vector =
  count :: nat
  capacity :: nat
  data :: "'a list option"

definition vector_init :: "'a vector \<Rightarrow> 'a vector" where
  "vector_init v = (if data v \<noteq> None then v else v\<lparr>data := Some [], capacity := 1, count := 0\<rparr>)"

definition vector_destroy :: "'a vector \<Rightarrow> 'a vector" where
  "vector_destroy v = (if data v = None then v else v\<lparr>data := None, count := 0\<rparr>)"

definition vector_at :: "'a vector \<Rightarrow> nat \<Rightarrow> 'a option" where
  "vector_at v index = (case data v of None \<Rightarrow> None | Some xs \<Rightarrow> if index < count v then Some (xs ! index) else None)"

definition vector_push_back :: "'a vector \<Rightarrow> 'a \<Rightarrow> 'a vector kres" where
  "vector_push_back v element =
     (case data v of
        None \<Rightarrow> Inl KNullDeref
      | Some xs \<Rightarrow>
          Inr (v\<lparr>capacity := (if count v = capacity v then capacity v * 2 else capacity v),
                 data := Some (take (count v) xs @ [element] @ drop (Suc (count v)) xs), count := Suc (count v)\<rparr>))"

definition vector_pop_back :: "'a vector \<Rightarrow> ('a \<times> 'a vector) option" where
  "vector_pop_back v =
     (if count v = 0 then None
      else case data v of
             None \<Rightarrow> None
           | Some xs \<Rightarrow> Some (xs ! (count v - 1), v\<lparr>count := count v - 1\<rparr>))"

text \<open>The elements of a vector, and its invariant: they fit in the buffer, which has the capacity.\<close>

definition elems :: "'a vector \<Rightarrow> 'a list" where
  "elems v = (case data v of None \<Rightarrow> [] | Some xs \<Rightarrow> take (count v) xs)"

definition vector_ok :: "'a vector \<Rightarrow> bool" where
  "vector_ok v \<longleftrightarrow> (case data v of None \<Rightarrow> count v = 0
     | Some xs \<Rightarrow> count v \<le> length xs \<and> length xs \<le> capacity v \<and> 0 < capacity v)"

subsection \<open>Hash maps\<close>

record 'a hashmap =
  vectors :: "(u64 \<times> 'a) vector list option"
  hcapacity :: nat

definition hashmap_init :: "'a hashmap \<Rightarrow> nat \<Rightarrow> 'a hashmap" where
  "hashmap_init m cap =
     (if vectors m \<noteq> None then m
      else m\<lparr>vectors := Some (replicate cap \<lparr>count = 0, capacity = 0, data = None\<rparr>), hcapacity := cap\<rparr>)"

definition hashmap_destroy :: "'a hashmap \<Rightarrow> 'a hashmap" where
  "hashmap_destroy m = (if vectors m = None then m else m\<lparr>vectors := None, hcapacity := 0\<rparr>)"

definition hashmap_hash :: "'a hashmap \<Rightarrow> u64 \<Rightarrow> nat" where
  "hashmap_hash m key = unat key mod hcapacity m"

fun find_key :: "(u64 \<times> 'a) list \<Rightarrow> u64 \<Rightarrow> nat option" where
  "find_key [] key = None"
| "find_key (e # es) key = (if fst e = key then Some 0 else map_option Suc (find_key es key))"

definition hashmap_get :: "'a hashmap \<Rightarrow> u64 \<Rightarrow> 'a option kres" where
  "hashmap_get m key =
     (case vectors m of
        None \<Rightarrow> Inl KNullDeref
      | Some vs \<Rightarrow>
          (let v = vs ! hashmap_hash m key in
           case data v of
             None \<Rightarrow> Inr None
           | Some entries \<Rightarrow> Inr (map_option (\<lambda>i. snd (entries ! i)) (find_key (take (count v) entries) key))))"

definition hashmap_add :: "'a hashmap \<Rightarrow> u64 \<Rightarrow> 'a \<Rightarrow> 'a hashmap kres" where
  "hashmap_add m key element =
     (case vectors m of
        None \<Rightarrow> Inl KNullDeref
      | Some vs \<Rightarrow>
          (let b = hashmap_hash m key; v = vector_init (vs ! b) in
           case data v of
             None \<Rightarrow> Inl KNullDeref
           | Some entries \<Rightarrow>
               (case find_key (take (count v) entries) key of
                  Some i \<Rightarrow> Inr (m\<lparr>vectors := Some (vs[b := v\<lparr>data := Some (entries[i := (key, element)])\<rparr>])\<rparr>)
                | None \<Rightarrow> kbind (vector_push_back v (key, element)) (\<lambda>v1. Inr (m\<lparr>vectors := Some (vs[b := v1])\<rparr>)))))"

definition hashmap_remove :: "'a hashmap \<Rightarrow> u64 \<Rightarrow> (bool \<times> 'a hashmap) kres" where
  "hashmap_remove m key =
     (case vectors m of
        None \<Rightarrow> Inl KNullDeref
      | Some vs \<Rightarrow>
          (let b = hashmap_hash m key; v = vs ! b in
           case data v of
             None \<Rightarrow> Inr (False, m)
           | Some entries \<Rightarrow>
               (case find_key (take (count v) entries) key of
                  None \<Rightarrow> Inr (False, m)
                | Some i \<Rightarrow>
                    (let v1 = (if i \<noteq> count v - 1 then v\<lparr>data := Some (entries[i := entries ! (count v - 1)])\<rparr> else v) in
                     case vector_pop_back v1 of
                       None \<Rightarrow> Inr (True, m\<lparr>vectors := Some (vs[b := v1])\<rparr>)
                     | Some (_, v2) \<Rightarrow> Inr (True, m\<lparr>vectors := Some (vs[b := v2])\<rparr>)))))"

text \<open>The iteration macro: every entry of every bucket.\<close>

definition hashmap_foreach :: "'a hashmap \<Rightarrow> (u64 \<times> 'a) list" where
  "hashmap_foreach m = (case vectors m of None \<Rightarrow> [] | Some vs \<Rightarrow> concat (map elems vs))"

subsection \<open>Reference counts\<close>

text \<open>Each operation is one atomic step of the counter: the compare-and-exchange loops end with the
  exchange they make.\<close>

definition ref_count_inc :: "u64 \<Rightarrow> u64 \<times> u64" where
  "ref_count_inc r = (r, r + 1)"

definition ref_count_inc_if_not_zero :: "u64 \<Rightarrow> bool \<times> u64" where
  "ref_count_inc_if_not_zero r = (if r \<noteq> 0 then (True, r + 1) else (False, r))"

definition ref_count_dec :: "u64 \<Rightarrow> u64 \<times> u64" where
  "ref_count_dec r = (r, r - 1)"

definition ref_count_dec_if_not_one :: "u64 \<Rightarrow> bool \<times> u64" where
  "ref_count_dec_if_not_one r = (if r \<noteq> 1 then (True, r - 1) else (False, r))"

subsection \<open>Facts\<close>

lemma vector_init_ok: "vector_ok v \<Longrightarrow> vector_ok (vector_init v) \<and> elems (vector_init v) = elems v \<and> data (vector_init v) \<noteq> None"
  by (auto simp: vector_ok_def vector_init_def elems_def split: option.splits)

lemma vector_push_ok:
  assumes "vector_ok v" "data v \<noteq> None"
  shows "\<exists>v'. vector_push_back v x = Inr v' \<and> vector_ok v' \<and> elems v' = elems v @ [x]"
  using assms by (auto simp: vector_ok_def vector_push_back_def elems_def split: option.splits)

lemma vector_pop_ok:
  assumes "vector_ok v" "elems v \<noteq> []"
  shows "\<exists>v'. vector_pop_back v = Some (last (elems v), v') \<and> vector_ok v' \<and> elems v' = butlast (elems v)"
  using assms
  by (auto simp: vector_ok_def vector_pop_back_def elems_def last_conv_nth butlast_take split: option.splits)

lemma find_key_map_of: "map_of es key = map_option (\<lambda>i. snd (es ! i)) (find_key es key)"
  by (induction es) (auto simp: option.map_comp o_def)

lemma find_key_Some: "find_key es key = Some i \<Longrightarrow> i < length es \<and> fst (es ! i) = key"
  by (induction es arbitrary: i) (auto split: if_splits simp: nth_Cons')

lemma find_key_None: "find_key es key = None \<longleftrightarrow> key \<notin> fst ` set es"
  by (induction es) auto

subsection \<open>The contract of a dictionary\<close>

text \<open>A dictionary is read through its lookup: adding and removing change it at one key.\<close>

datatype ('k, 'v) dict_op = Add 'k 'v | Remove 'k

fun dict_abs :: "('k, 'v) dict_op \<Rightarrow> ('k \<Rightarrow> 'v option) \<Rightarrow> 'k \<Rightarrow> 'v option" where
  "dict_abs (Add k v) f = f(k \<mapsto> v)"
| "dict_abs (Remove k) f = f(k := None)"

fun dict_run :: "('m \<Rightarrow> 'k \<Rightarrow> 'v \<Rightarrow> 'm kres) \<Rightarrow> ('m \<Rightarrow> 'k \<Rightarrow> (bool \<times> 'm) kres) \<Rightarrow> ('k, 'v) dict_op list \<Rightarrow> 'm \<Rightarrow> 'm kres" where
  "dict_run add rem [] m = Inr m"
| "dict_run add rem (Add k v # ops) m = kbind (add m k v) (dict_run add rem ops)"
| "dict_run add rem (Remove k # ops) m = kbind (rem m k) (\<lambda>(_, m1). dict_run add rem ops m1)"

locale key_dict =
  fixes ok :: "'m \<Rightarrow> bool"
    and get :: "'m \<Rightarrow> 'k \<Rightarrow> 'v option kres"
    and add :: "'m \<Rightarrow> 'k \<Rightarrow> 'v \<Rightarrow> 'm kres"
    and rem :: "'m \<Rightarrow> 'k \<Rightarrow> (bool \<times> 'm) kres"
  assumes add_law: "ok m \<Longrightarrow> \<exists>m'. add m k v = Inr m' \<and> ok m' \<and> (\<forall>j. get m' j = (if j = k then Inr (Some v) else get m j))"
    and rem_law: "ok m \<Longrightarrow> \<exists>m'. rem m k = Inr (get m k \<noteq> Inr None, m') \<and> ok m' \<and>
      (\<forall>j. get m' j = (if j = k then Inr None else get m j))"
begin

lemma run_refines:
  "ok m \<Longrightarrow> (\<And>j. get m j = Inr (f j)) \<Longrightarrow>
   \<exists>m'. dict_run add rem ops m = Inr m' \<and> ok m' \<and> (\<forall>j. get m' j = Inr (fold dict_abs ops f j))"
proof (induction ops arbitrary: m f)
  case (Cons c ops)
  show ?case
  proof (cases c)
    case (Add k v)
    obtain m1 where m1: "add m k v = Inr m1" "ok m1" "\<forall>j. get m1 j = (if j = k then Inr (Some v) else get m j)"
      using add_law [OF Cons.prems(1)] by blast
    have "get m1 j = Inr ((f(k \<mapsto> v)) j)" for j using m1(3) Cons.prems(2) by simp
    from Cons.IH [of m1 "f(k \<mapsto> v)", OF m1(2) this] show ?thesis unfolding Add dict_run.simps m1(1) fold.simps kbind_Inr prod.case comp_apply dict_abs.simps by blast
  next
    case (Remove k)
    obtain m1 where m1: "rem m k = Inr (get m k \<noteq> Inr None, m1)" "ok m1" "\<forall>j. get m1 j = (if j = k then Inr None else get m j)"
      using rem_law [OF Cons.prems(1)] by blast
    have "get m1 j = Inr ((f(k := None)) j)" for j using m1(3) Cons.prems(2) by simp
    from Cons.IH [of m1 "f(k := None)", OF m1(2) this] show ?thesis unfolding Remove dict_run.simps m1(1) fold.simps kbind_Inr prod.case comp_apply dict_abs.simps by blast
  qed
qed auto

end

subsection \<open>Hash maps meet the contract\<close>

definition hashmap_ok :: "'a hashmap \<Rightarrow> bool" where
  "hashmap_ok m \<longleftrightarrow> (\<exists>vs. vectors m = Some vs \<and> length vs = hcapacity m \<and> 0 < hcapacity m \<and>
     (\<forall>b < hcapacity m. vector_ok (vs ! b) \<and> distinct (map fst (elems (vs ! b))) \<and>
        (\<forall>e \<in> set (elems (vs ! b)). hashmap_hash m (fst e) = b)))"

lemma hash_bound: "0 < hcapacity m \<Longrightarrow> hashmap_hash m key < hcapacity m"
  by (simp add: hashmap_hash_def)

lemma hashmap_get_elems:
  assumes "hashmap_ok m" "vectors m = Some vs"
  shows "hashmap_get m key = Inr (map_of (elems (vs ! hashmap_hash m key)) key)"
proof -
  let ?v = "vs ! hashmap_hash m key"
  have "vector_ok ?v" using assms hash_bound by (auto simp: hashmap_ok_def)
  then show ?thesis
    using assms(2) find_key_map_of [of "elems ?v" key] find_key_Some [of "elems ?v" key]
    by (cases "data ?v"; cases "find_key (elems ?v) key") (auto simp: hashmap_get_def elems_def Let_def)
qed

lemma map_of_swap:
  assumes "distinct (map fst es)" "i < length es" "fst (es ! i) = k"
  shows "distinct (map fst (butlast (es[i := last es]))) \<and> set (butlast (es[i := last es])) = {e \<in> set es. fst e \<noteq> k}"
proof -
  obtain us e vs where es: "es = us @ e # vs" "length us = i" using assms(2) by (metis id_take_nth_drop length_take min.absorb2 less_imp_le)
  then have e: "es ! i = e" by (auto simp: nth_append)
  show ?thesis
  proof (cases vs rule: rev_cases)
    case Nil
    then show ?thesis using assms(1,3) es e by (force simp: butlast_append image_iff)
  next
    case (snoc ws l)
    have "butlast (es[i := last es]) = us @ l # ws" using es by (simp add: snoc butlast_append list_update_append)
    then show ?thesis using assms(1,3) es e by (force simp: snoc image_iff)
  qed
qed

lemma map_of_filtered:
  assumes "distinct (map fst es)" "distinct (map fst es')" "set es' = {e \<in> set es. fst e \<noteq> k}"
  shows "map_of es' = (map_of es)(k := None)"
proof
  fix j
  have "map_of es' j = Some v \<longleftrightarrow> ((map_of es)(k := None)) j = Some v" for v
    using assms by (auto simp: map_of_eq_Some_iff)
  then show "map_of es' j = ((map_of es)(k := None)) j" by (metis not_Some_eq)
qed

text \<open>Replacing one bucket by one with the entries of the same hash.\<close>

lemma bucket_update:
  assumes ok: "hashmap_ok m" "vectors m = Some vs" and b: "b = hashmap_hash m key"
    and v: "vector_ok v" "distinct (map fst (elems v))" "fst ` set (elems v) \<subseteq> insert key (fst ` set (elems (vs ! b)))"
    and new: "map_of (elems v) = (map_of (elems (vs ! b)))(key := r)"
  defines "m' \<equiv> m\<lparr>vectors := Some (vs[b := v])\<rparr>"
  shows "hashmap_ok m' \<and> (\<forall>j. hashmap_get m' j = (if j = key then Inr r else hashmap_get m j))"
proof -
  have hash: "hashmap_hash m' = hashmap_hash m" by (simp add: fun_eq_iff hashmap_hash_def m'_def)
  have O: "length vs = hcapacity m" "0 < hcapacity m" "\<forall>b < hcapacity m. vector_ok (vs ! b) \<and> distinct (map fst (elems (vs ! b))) \<and>
        (\<forall>e \<in> set (elems (vs ! b)). hashmap_hash m (fst e) = b)"
    using ok by (auto simp: hashmap_ok_def)
  have bl: "b < length vs" using O(1,2) b hash_bound by simp
  have "hashmap_hash m (fst e) = b" if "e \<in> set (elems v)" for e
  proof -
    have "fst e = key \<or> fst e \<in> fst ` set (elems (vs ! b))" using that v(3) by blast
    moreover have "\<forall>e \<in> set (elems (vs ! b)). hashmap_hash m (fst e) = b" using O(3) bl unfolding O(1) by blast
    ultimately show ?thesis using b by (elim disjE imageE) auto
  qed
  then have "hashmap_ok m'"
    unfolding hashmap_ok_def hash using O bl v(1,2) by (auto simp: m'_def nth_list_update)
  moreover have "hashmap_get m' j = (if j = key then Inr r else hashmap_get m j)" for j
  proof -
    have "hashmap_get m' j = Inr (map_of (elems (vs[b := v] ! hashmap_hash m j)) j)"
      using hashmap_get_elems [OF \<open>hashmap_ok m'\<close>, of "vs[b := v]" j] by (simp add: m'_def hash [unfolded m'_def])
    then show ?thesis
      using new bl b hashmap_get_elems [OF ok, of j] by (cases "hashmap_hash m j = b") auto
  qed
  ultimately show ?thesis by blast
qed

lemma bucketD:
  assumes "hashmap_ok m" "vectors m = Some vs"
  shows "vector_ok (vs ! hashmap_hash m key)" "distinct (map fst (elems (vs ! hashmap_hash m key)))"
  using assms hash_bound by (auto simp: hashmap_ok_def)

lemma map_of_update_at:
  assumes "distinct (map fst es)" "i < length es" "fst (es ! i) = k"
  shows "map_of (es[i := (k, x)]) = (map_of es)(k \<mapsto> x)" "map fst (es[i := (k, x)]) = map fst es"
proof -
  show keys: "map fst (es[i := (k, x)]) = map fst es" using assms(2,3) by (metis fst_conv list_update_id map_update)
  have "map_of (es[i := (k, x)]) j = ((map_of es)(k \<mapsto> x)) j" for j
  proof (cases "j = k")
    case True
    have "(k, x) \<in> set (es[i := (k, x)])" using assms(2) by (metis set_update_memI)
    then show ?thesis using True assms(1) keys by (simp add: map_of_is_SomeI)
  next
    case False
    obtain us e vs where es: "es = us @ e # vs" "length us = i"
      using assms(2) by (metis id_take_nth_drop length_take min.absorb2 less_imp_le)
    then have "fst e = k" using assms(3) by (auto simp: nth_append)
    then show ?thesis using False es by (cases e) (auto simp: list_update_append map_add_def split: option.splits)
  qed
  then show "map_of (es[i := (k, x)]) = (map_of es)(k \<mapsto> x)" by blast
qed

lemma hashmap_add_law:
  assumes "hashmap_ok m"
  shows "\<exists>m'. hashmap_add m key x = Inr m' \<and> hashmap_ok m' \<and>
    (\<forall>j. hashmap_get m' j = (if j = key then Inr (Some x) else hashmap_get m j))"
proof -
  obtain vs where vs: "vectors m = Some vs" using assms by (auto simp: hashmap_ok_def)
  let ?b = "hashmap_hash m key"
  let ?v = "vector_init (vs ! ?b)"
  note B = bucketD [OF assms vs, of key]
  have V: "vector_ok ?v" "elems ?v = elems (vs ! ?b)" "data ?v \<noteq> None" using vector_init_ok [OF B(1)] by simp_all
  then obtain es where es: "data ?v = Some es" by blast
  then have el: "elems ?v = take (count ?v) es" by (simp add: elems_def)
  show ?thesis
  proof (cases "find_key (elems ?v) key")
    case None
    obtain v1 where v1: "vector_push_back ?v (key, x) = Inr v1" "vector_ok v1" "elems v1 = elems ?v @ [(key, x)]"
      using vector_push_ok [OF V(1,3)] by blast
    have k: "key \<notin> fst ` set (elems (vs ! ?b))" using None V(2) by (simp add: find_key_None)
    then have "map_of (elems (vs ! ?b)) key = None" by (simp add: map_of_eq_None_iff)
    then have "map_of (elems v1) = (map_of (elems (vs ! ?b)))(key \<mapsto> x)"
      unfolding v1(3) V(2) by (auto simp: map_of_append map_add_def fun_eq_iff split: option.splits)
    then have "hashmap_ok (m\<lparr>vectors := Some (vs[?b := v1])\<rparr>) \<and>
        (\<forall>j. hashmap_get (m\<lparr>vectors := Some (vs[?b := v1])\<rparr>) j = (if j = key then Inr (Some x) else hashmap_get m j))"
      by (intro bucket_update [OF assms vs refl v1(2)]) (use v1(3) V(2) B(2) k in auto)
    then show ?thesis using vs es None v1(1) by (simp add: hashmap_add_def Let_def el)
  next
    case (Some i)
    let ?v1 = "?v\<lparr>data := Some (es[i := (key, x)])\<rparr>"
    note F = find_key_Some [OF Some]
    have e1: "elems ?v1 = (elems ?v)[i := (key, x)]" by (simp add: elems_def es take_update_swap)
    have "vector_ok ?v1" using V(1) es by (simp add: vector_ok_def)
    moreover have "map_of (elems ?v1) = (map_of (elems (vs ! ?b)))(key \<mapsto> x)" "map fst (elems ?v1) = map fst (elems (vs ! ?b))"
      unfolding e1 using map_of_update_at [of "elems ?v" i key x] F B(2) V(2) by simp_all
    moreover from this(2) have "fst ` set (elems ?v1) = fst ` set (elems (vs ! ?b))" by (metis list.set_map)
    ultimately have "hashmap_ok (m\<lparr>vectors := Some (vs[?b := ?v1])\<rparr>) \<and>
        (\<forall>j. hashmap_get (m\<lparr>vectors := Some (vs[?b := ?v1])\<rparr>) j = (if j = key then Inr (Some x) else hashmap_get m j))"
      by (intro bucket_update [OF assms vs refl]) (use B(2) in auto)
    then show ?thesis using vs es Some by (simp add: hashmap_add_def Let_def el)
  qed
qed

lemma hashmap_remove_law:
  assumes "hashmap_ok m"
  shows "\<exists>m'. hashmap_remove m key = Inr (hashmap_get m key \<noteq> Inr None, m') \<and> hashmap_ok m' \<and>
    (\<forall>j. hashmap_get m' j = (if j = key then Inr None else hashmap_get m j))"
proof -
  obtain vs where vs: "vectors m = Some vs" using assms by (auto simp: hashmap_ok_def)
  let ?b = "hashmap_hash m key"
  let ?v = "vs ! ?b"
  note B = bucketD [OF assms vs, of key] and G = hashmap_get_elems [OF assms vs]
  show ?thesis
  proof (cases "find_key (elems ?v) key")
    case None
    then have "map_of (elems ?v) key = None" by (simp add: find_key_None map_of_eq_None_iff)
    then have get: "hashmap_get m key = Inr None" using G by simp
    have "hashmap_remove m key = Inr (False, m)"
      using vs None by (cases "data ?v") (simp_all add: hashmap_remove_def Let_def elems_def)
    then show ?thesis using get assms by auto
  next
    case (Some i)
    note F = find_key_Some [OF Some]
    obtain es where es: "data ?v = Some es" using F by (cases "data ?v") (auto simp: elems_def)
    have el: "elems ?v = take (count ?v) es" by (simp add: elems_def es)
    have n: "count ?v \<le> length es" "length (elems ?v) = count ?v" using B(1) es el by (auto simp: vector_ok_def)
    let ?v1 = "if i \<noteq> count ?v - 1 then ?v\<lparr>data := Some (es[i := es ! (count ?v - 1)])\<rparr> else ?v"
    have pos: "0 < count ?v" "elems ?v \<noteq> []" using F n by auto
    have lst: "last (elems ?v) = es ! (count ?v - 1)"
      using last_conv_nth [OF pos(2)] pos(1) unfolding n(2) by (simp add: el)
    have same: "(take k es)[j := es ! j] = take k es" if "j < k" for j k using that by (metis list_update_id nth_take)
    have e1: "elems ?v1 = (elems ?v)[i := last (elems ?v)]"
      using F n same unfolding lst by (auto simp: elems_def es take_update_swap)
    have ok1: "vector_ok ?v1" using B(1) es by (simp add: vector_ok_def)
    have "elems ?v1 \<noteq> []" unfolding e1 using F by auto
    then obtain v2 where v2: "vector_pop_back ?v1 = Some (last (elems ?v1), v2)" "vector_ok v2" "elems v2 = butlast (elems ?v1)"
      using vector_pop_ok [OF ok1] by blast
    note S = map_of_swap [OF B(2) F [THEN conjunct1] F [THEN conjunct2], folded e1, folded v2(3)]
    have "hashmap_ok (m\<lparr>vectors := Some (vs[?b := v2])\<rparr>) \<and>
        (\<forall>j. hashmap_get (m\<lparr>vectors := Some (vs[?b := v2])\<rparr>) j = (if j = key then Inr None else hashmap_get m j))"
      by (intro bucket_update [OF assms vs refl v2(2)]) (use S map_of_filtered [OF B(2) _ S [THEN conjunct2]] in auto)
    moreover have "hashmap_remove m key = Inr (True, m\<lparr>vectors := Some (vs[?b := v2])\<rparr>)"
      using vs es Some v2(1) by (simp add: hashmap_remove_def Let_def el cong: if_cong)
    moreover have "hashmap_get m key \<noteq> Inr None" using G find_key_map_of [of "elems ?v" key] Some by simp
    ultimately show ?thesis by auto
  qed
qed

interpretation hashmaps: key_dict hashmap_ok hashmap_get hashmap_add hashmap_remove
  by unfold_locales (fact hashmap_add_law, fact hashmap_remove_law)

lemma hashmap_init_ok:
  assumes "vectors m = None" "0 < cap"
  shows "hashmap_ok (hashmap_init m cap)" "hashmap_get (hashmap_init m cap) j = Inr None"
  using assms by (auto simp: hashmap_ok_def hashmap_init_def vector_ok_def elems_def hashmap_get_def hashmap_hash_def Let_def)

text \<open>C14: A fresh hash map with at least one bucket, after any sequence of additions and removals, reads
  as the finite map these operations build: collisions, replaced values and the removal that moves the
  last entry of a bucket into the hole included. No operation faults.\<close>

theorem hashmap_refines_map:
  assumes "vectors m = None" "0 < cap"
  shows "\<exists>m'. dict_run hashmap_add hashmap_remove ops (hashmap_init m cap) = Inr m' \<and> hashmap_ok m' \<and>
    (\<forall>j. hashmap_get m' j = Inr (fold dict_abs ops Map.empty j))"
  by (rule hashmaps.run_refines) (use hashmap_init_ok [OF assms] in auto)

theorem hashmap_refines_map_witness:
  "\<exists>m'. dict_run hashmap_add hashmap_remove [Add 1 (10::nat), Add 5 50, Add 9 90, Remove 1]
      (hashmap_init \<lparr>vectors = None, hcapacity = 0\<rparr> 4) = Inr m' \<and> hashmap_ok m' \<and>
    hashmap_get m' 9 = Inr (Some 90) \<and> hashmap_get m' 1 = Inr None"
  using hashmap_refines_map [of "\<lparr>vectors = None, hcapacity = 0\<rparr>" 4 "[Add 1 (10::nat), Add 5 50, Add 9 90, Remove 1]"]
  by auto

end
