(* ===== verification/Locks.thy ===== *)
theory Locks
  imports Prelude
begin

section \<open>Sleep queues and sleeping locks\<close>

text \<open>
  Models \<^verbatim>\<open>kernel/task/sleep.c\<close> (the queues), \<^verbatim>\<open>mutex.c\<close>, \<^verbatim>\<open>rwsem.c\<close> and \<^verbatim>\<open>oneshot.c\<close> with their headers.

  Tasks are numbers. A sleep queue is the list of the tasks linked in it. The bodies of the
  read-write lock run under its spinlock, so each is one step up to the point where the task sleeps;
  a task that was woken takes another turn of the loop of \<^verbatim>\<open>sleep_on_queue_lock\<close>. The second test
  of the condition in that loop is made under the same lock as the first one and has the same result.
  The interleaving of any number of tasks is the step relation \<open>rw_step\<close>.
\<close>

type_synonym task = nat

subsection \<open>Sleep queues\<close>

definition sleep_add_to_queue :: "task list \<Rightarrow> task \<Rightarrow> task list" where
  "sleep_add_to_queue waiters t = waiters @ [t]"

fun sleep_remove_from_queue :: "task list \<Rightarrow> task \<Rightarrow> task list" where
  "sleep_remove_from_queue [] t = []"
| "sleep_remove_from_queue (u # us) t = (if u \<noteq> t then u # sleep_remove_from_queue us t else us)"

text \<open>The tasks unblocked, and the queue left.\<close>

fun wakeup_queue :: "task list \<Rightarrow> nat \<Rightarrow> task list \<times> task list" where
  "wakeup_queue [] cnt = ([], [])"
| "wakeup_queue (t # ts) cnt =
     (if cnt = 1 then ([t], ts)
      else (case wakeup_queue ts (cnt - 1) of (woken, rest) \<Rightarrow> (t # woken, rest)))"

lemma wakeup_all: "wakeup_queue ts 0 = (ts, [])"
  by (induction ts) auto

text \<open>
  Sleeping under a lock until a condition holds. The rest of the system is a schedule: the \<open>i\<close>-th
  pair says what the other tasks do to the shared state while this one is blocked for the \<open>i\<close>-th
  time, and whether a signal ends that blocking. The value \<open>None\<close> means that the task is still
  asleep when the schedule ends.
\<close>

type_synonym 's schedule = "(bool \<times> ('s \<Rightarrow> 's)) list"

fun sleep_on_queue_lock_interruptible ::
    "('s \<Rightarrow> bool) \<Rightarrow> ('s \<Rightarrow> 's) \<Rightarrow> ('s \<Rightarrow> 's) \<Rightarrow> 's schedule \<Rightarrow> 's \<Rightarrow> (bool \<times> 's \<times> 's schedule) option" where
  "sleep_on_queue_lock_interruptible cond add rem evs s =
     (if cond s then Some (True, s, evs)
      else (let s1 = add s in
            if cond s1 then Some (True, rem s1, evs)
            else (case evs of
                    [] \<Rightarrow> None
                  | (interrupted, others) # evs' \<Rightarrow>
                      (let s2 = others s1 in
                       if interrupted then Some (False, rem s2, evs')
                       else sleep_on_queue_lock_interruptible cond add rem evs' s2))))"

declare sleep_on_queue_lock_interruptible.simps [simp del]

text \<open>What the schedule alone makes of the state, each blocking queueing the task again.\<close>

fun schedule_state :: "('s \<Rightarrow> 's) \<Rightarrow> 's schedule \<Rightarrow> 's \<Rightarrow> 's" where
  "schedule_state add [] s = s"
| "schedule_state add (ev # evs) s = schedule_state add evs (snd ev (add s))"

text \<open>A sleep that ends does so after some prefix of the schedule: in a state where the condition
  holds, or by a signal. It ends at once when the condition holds, and whenever some prefix that no
  signal cuts short leads to such a state.\<close>

lemma sleep_ends:
  assumes "sleep_on_queue_lock_interruptible cond add rem evs s = Some (ok, s', evs')"
    and "\<And>x. cond (add x) = cond x"
  shows "\<exists>pre. evs = pre @ evs' \<and>
     (if ok then s' = schedule_state add pre s \<and> cond s' else s' = rem (schedule_state add pre s))"
  using assms(1)
proof (induction evs arbitrary: s)
  case Nil
  then show ?case
    using assms(2) by (auto simp: sleep_on_queue_lock_interruptible.simps [of _ _ _ "[]"] split: if_splits)
next
  case (Cons ev evs)
  obtain i f where ev: "ev = (i, f)" by (cases ev)
  show ?case
  proof (cases "cond s")
    case True
    with Cons.prems show ?thesis
      by (intro exI [of _ "[]"]) (simp add: sleep_on_queue_lock_interruptible.simps [of _ _ _ "_ # _"])
  next
    case False
    then have step: "(if i then Some (False, rem (f (add s)), evs)
        else sleep_on_queue_lock_interruptible cond add rem evs (f (add s))) = Some (ok, s', evs')"
      using Cons.prems assms(2) ev by (simp add: sleep_on_queue_lock_interruptible.simps [of _ _ _ "_ # _"] Let_def)
    show ?thesis
    proof (cases i)
      case True
      with step ev show ?thesis by (intro exI [of _ "[ev]"]) auto
    next
      case False
      with step Cons.IH obtain pre where "evs = pre @ evs'" and
        "if ok then s' = schedule_state add pre (f (add s)) \<and> cond s' else s' = rem (schedule_state add pre (f (add s)))"
        by fastforce
      with ev show ?thesis by (intro exI [of _ "ev # pre"]) (auto split: if_splits)
    qed
  qed
qed

lemma sleep_fast: "cond s \<Longrightarrow> sleep_on_queue_lock_interruptible cond add rem evs s = Some (True, s, evs)"
  by (simp add: sleep_on_queue_lock_interruptible.simps)

lemma sleep_returns:
  assumes "\<forall>ev \<in> set pre. \<not> fst ev" and "cond (schedule_state add pre s)"
  shows "sleep_on_queue_lock_interruptible cond add rem (pre @ evs) s \<noteq> None"
  using assms
proof (induction pre arbitrary: s)
  case Nil
  then show ?case by (simp add: sleep_fast)
next
  case (Cons ev pre)
  then show ?case
    by (cases ev) (auto simp: sleep_on_queue_lock_interruptible.simps [of _ _ _ "_ # _"] Let_def)
qed

lemma schedule_state_invariant:
  assumes "\<forall>ev \<in> set evs. \<forall>x. ok x \<longrightarrow> ok (snd ev x)" and "\<And>x. ok x \<Longrightarrow> ok (add x)" and "ok s"
  shows "ok (schedule_state add evs s)"
  using assms by (induction evs arbitrary: s) auto

lemma wakeup_some: "0 < n \<Longrightarrow> wakeup_queue ts n = (take n ts, drop n ts)"
proof (induction ts arbitrary: n)
  case (Cons t ts)
  then show ?case by (cases n) (auto simp: Cons.IH take_Cons' drop_Cons')
qed simp

lemma sleep_remove_is_remove1: "sleep_remove_from_queue ts t = remove1 t ts"
  by (induction ts) auto

subsection \<open>Mutexes\<close>

record mutex =
  owner :: "task option"
  mutex_queue :: "task list"
  depth :: nat

definition mutex_init :: mutex where
  "mutex_init = \<lparr>owner = None, mutex_queue = [], depth = 0\<rparr>"

definition mutex_try_acquire :: "mutex \<Rightarrow> task \<Rightarrow> bool \<times> mutex" where
  "mutex_try_acquire m t =
     (case owner m of
        None \<Rightarrow> (True, m\<lparr>owner := Some t, depth := 1\<rparr>)
      | Some u \<Rightarrow> if u = t then (True, m\<lparr>depth := depth m + 1\<rparr>) else (False, m))"

text \<open>A turn of the sleeping loop: without a lock the condition is tested again once queued.\<close>

definition mutex_acquire_turn :: "mutex \<Rightarrow> (mutex \<Rightarrow> mutex) \<Rightarrow> task \<Rightarrow> bool \<times> mutex" where
  "mutex_acquire_turn m others t =
     (case mutex_try_acquire m t of
        (True, m1) \<Rightarrow> (True, m1)
      | (False, m1) \<Rightarrow>
          (let m2 = others (m1\<lparr>mutex_queue := sleep_add_to_queue (mutex_queue m1) t\<rparr>) in
           case mutex_try_acquire m2 t of
             (True, m3) \<Rightarrow> (True, m3\<lparr>mutex_queue := sleep_remove_from_queue (mutex_queue m3) t\<rparr>)
           | (False, m3) \<Rightarrow> (False, m3)))"

definition mutex_release :: "mutex \<Rightarrow> task list \<times> mutex" where
  "mutex_release m =
     (let d = depth m - 1; m1 = m\<lparr>depth := d\<rparr> in
      if d = 0 then (case wakeup_queue (mutex_queue m1) 1 of (woken, rest) \<Rightarrow> (woken, m1\<lparr>owner := None, mutex_queue := rest\<rparr>))
      else ([], m1))"

text \<open>A mutex is acquired exactly when it is free or already owned, and a release undoes an
  acquisition, waking the first waiter when it was the outermost one.\<close>

lemma mutex_try_acquire_iff:
  "mutex_try_acquire m t = (got, m') \<Longrightarrow> (got \<longleftrightarrow> owner m \<in> {None, Some t}) \<and> (got \<longrightarrow> owner m' = Some t) \<and> (\<not> got \<longrightarrow> m' = m)"
  by (auto simp: mutex_try_acquire_def split: option.splits if_splits)

lemma mutex_release_acquire:
  assumes "mutex_try_acquire m t = (True, m')" "owner m = None \<longleftrightarrow> depth m = 0"
  shows "mutex_release m' = (if owner m = None then (take 1 (mutex_queue m), m\<lparr>mutex_queue := drop 1 (mutex_queue m)\<rparr>) else ([], m))"
  using assms wakeup_some [of 1 "mutex_queue m"]
  by (auto simp: mutex_try_acquire_def mutex_release_def Let_def split: option.splits if_splits)

subsection \<open>One-shot events\<close>

record oneshot =
  oneshot_queue :: "task list"
  signaled :: bool

definition oneshot_init :: oneshot where
  "oneshot_init = \<lparr>oneshot_queue = [], signaled = False\<rparr>"

definition oneshot_wait_turn :: "oneshot \<Rightarrow> task \<Rightarrow> bool \<times> oneshot" where
  "oneshot_wait_turn s t =
     (if signaled s then (True, s) else (False, s\<lparr>oneshot_queue := sleep_add_to_queue (oneshot_queue s) t\<rparr>))"

definition oneshot_signal :: "oneshot \<Rightarrow> task list \<times> oneshot" where
  "oneshot_signal s = (case wakeup_queue (oneshot_queue s) 0 of (woken, rest) \<Rightarrow> (woken, s\<lparr>signaled := True, oneshot_queue := rest\<rparr>))"

subsection \<open>Read-write locks\<close>

record rwsem =
  writer_queue :: "task list"
  reader_queue :: "task list"
  waiting_writers_count :: nat
  readers_count :: nat
  lock_depth :: nat
  writer_active :: "task option"

definition rwsem_init :: rwsem where
  "rwsem_init = \<lparr>writer_queue = [], reader_queue = [], waiting_writers_count = 0, readers_count = 0, lock_depth = 0,
     writer_active = None\<rparr>"

text \<open>The sleeping loops: acquired, or queued and blocked.\<close>

definition rwsem_read_turn :: "rwsem \<Rightarrow> task \<Rightarrow> bool \<times> rwsem" where
  "rwsem_read_turn m t =
     (if waiting_writers_count m = 0 \<and> writer_active m = None then (True, m\<lparr>readers_count := readers_count m + 1\<rparr>)
      else (False, m\<lparr>reader_queue := sleep_add_to_queue (reader_queue m) t\<rparr>))"

definition rwsem_write_turn :: "rwsem \<Rightarrow> task \<Rightarrow> bool \<times> rwsem" where
  "rwsem_write_turn m t =
     (if readers_count m = 0 \<and> writer_active m = None
      then (True, m\<lparr>waiting_writers_count := waiting_writers_count m - 1, writer_active := Some t, lock_depth := 1\<rparr>)
      else (False, m\<lparr>writer_queue := sleep_add_to_queue (writer_queue m) t\<rparr>))"

definition rwsem_acquire_read :: "rwsem \<Rightarrow> task \<Rightarrow> bool \<times> rwsem" where
  "rwsem_acquire_read m t =
     (if writer_active m = Some t then (True, m\<lparr>lock_depth := lock_depth m + 1\<rparr>) else rwsem_read_turn m t)"

definition rwsem_acquire_write :: "rwsem \<Rightarrow> task \<Rightarrow> bool \<times> rwsem" where
  "rwsem_acquire_write m t =
     (if writer_active m = Some t then (True, m\<lparr>lock_depth := lock_depth m + 1\<rparr>)
      else rwsem_write_turn (m\<lparr>waiting_writers_count := waiting_writers_count m + 1\<rparr>) t)"

definition rwsem_release_read :: "rwsem \<Rightarrow> task \<Rightarrow> (task list \<times> rwsem) kres" where
  "rwsem_release_read m t =
     (if writer_active m = Some t
      then (if lock_depth m = 0 then Inl KPanic else Inr ([], m\<lparr>lock_depth := lock_depth m - 1\<rparr>))
      else if readers_count m = 0 then Inl KPanic
      else (let m1 = m\<lparr>readers_count := readers_count m - 1\<rparr> in
            if readers_count m1 = 0
            then (case wakeup_queue (writer_queue m1) 1 of (woken, rest) \<Rightarrow> Inr (woken, m1\<lparr>writer_queue := rest\<rparr>))
            else Inr ([], m1)))"

definition rwsem_release_write :: "rwsem \<Rightarrow> task \<Rightarrow> (task list \<times> rwsem) kres" where
  "rwsem_release_write m t =
     (if writer_active m \<noteq> Some t \<or> lock_depth m = 0 then Inl KPanic
      else (let m1 = m\<lparr>lock_depth := lock_depth m - 1\<rparr> in
            if lock_depth m1 = 0
            then (let m2 = m1\<lparr>writer_active := None\<rparr> in
                  if waiting_writers_count m2 > 0
                  then (case wakeup_queue (writer_queue m2) 1 of (woken, rest) \<Rightarrow> Inr (woken, m2\<lparr>writer_queue := rest\<rparr>))
                  else (case wakeup_queue (reader_queue m2) 0 of (woken, rest) \<Rightarrow> Inr (woken, m2\<lparr>reader_queue := rest\<rparr>)))
            else Inr ([], m1)))"

subsection \<open>Tasks using a read-write lock\<close>

datatype rw_pc = Running | RBlocked | RWoken | WBlocked | WWoken

text \<open>\<open>reads\<close> counts the shared holds of each task, which the code does not store.\<close>

record rw_sys =
  sem :: rwsem
  pc :: "task \<Rightarrow> rw_pc"
  reads :: "task \<Rightarrow> nat"

fun unblocked :: "rw_pc \<Rightarrow> rw_pc" where
  "unblocked RBlocked = RWoken"
| "unblocked WBlocked = WWoken"
| "unblocked p = p"

definition wake :: "task list \<Rightarrow> (task \<Rightarrow> rw_pc) \<Rightarrow> task \<Rightarrow> rw_pc" where
  "wake ts p = (\<lambda>t. if t \<in> set ts then unblocked (p t) else p t)"

text \<open>The steps. The documented restriction is that a task does not ask for the write side while it
  holds the read side, and a holder releases what it holds.\<close>

inductive rw_step :: "rw_sys \<Rightarrow> rw_sys \<Rightarrow> bool" where
  acquire_read: "pc s t = Running \<Longrightarrow> rwsem_acquire_read (sem s) t = (got, m) \<Longrightarrow>
    rw_step s (s\<lparr>sem := m, pc := (pc s)(t := if got then Running else RBlocked),
      reads := (if got \<and> writer_active (sem s) \<noteq> Some t then (reads s)(t := reads s t + 1) else reads s)\<rparr>)"
| retry_read: "pc s t = RWoken \<Longrightarrow> rwsem_read_turn (sem s) t = (got, m) \<Longrightarrow>
    rw_step s (s\<lparr>sem := m, pc := (pc s)(t := if got then Running else RBlocked),
      reads := (if got then (reads s)(t := reads s t + 1) else reads s)\<rparr>)"
| acquire_write: "pc s t = Running \<Longrightarrow> reads s t = 0 \<Longrightarrow> rwsem_acquire_write (sem s) t = (got, m) \<Longrightarrow>
    rw_step s (s\<lparr>sem := m, pc := (pc s)(t := if got then Running else WBlocked)\<rparr>)"
| retry_write: "pc s t = WWoken \<Longrightarrow> rwsem_write_turn (sem s) t = (got, m) \<Longrightarrow>
    rw_step s (s\<lparr>sem := m, pc := (pc s)(t := if got then Running else WBlocked)\<rparr>)"
| release_read: "pc s t = Running \<Longrightarrow> reads s t > 0 \<Longrightarrow> rwsem_release_read (sem s) t = Inr (woken, m) \<Longrightarrow>
    rw_step s (s\<lparr>sem := m, pc := wake woken (pc s), reads := (reads s)(t := reads s t - 1)\<rparr>)"
| release_nested: "writer_active (sem s) = Some t \<Longrightarrow> lock_depth (sem s) > 1 \<Longrightarrow> rwsem_release_read (sem s) t = Inr (woken, m) \<Longrightarrow>
    rw_step s (s\<lparr>sem := m, pc := wake woken (pc s)\<rparr>)"
| release_write: "writer_active (sem s) = Some t \<Longrightarrow> rwsem_release_write (sem s) t = Inr (woken, m) \<Longrightarrow>
    rw_step s (s\<lparr>sem := m, pc := wake woken (pc s)\<rparr>)"

inductive rw_reachable :: "rw_sys \<Rightarrow> bool" where
  start: "rw_reachable \<lparr>sem = rwsem_init, pc = (\<lambda>_. Running), reads = (\<lambda>_. 0)\<rparr>"
| step: "rw_reachable s \<Longrightarrow> rw_step s s' \<Longrightarrow> rw_reachable s'"

text \<open>The invariant: the counters count, the queues hold the blocked tasks, a writer excludes readers,
  and when the lock is free no waiter is left asleep without another one awake.\<close>

definition total :: "(task \<Rightarrow> nat) \<Rightarrow> nat" where
  "total f = sum f {t. f t > 0}"

definition rw_ok :: "rwsem \<Rightarrow> (task \<Rightarrow> nat) \<Rightarrow> task set \<Rightarrow> task set \<Rightarrow> task set \<Rightarrow> bool" where
  "rw_ok m f RB WB WK \<longleftrightarrow>
     finite {t. f t > 0} \<and> readers_count m = total f \<and>
     finite WB \<and> finite WK \<and> waiting_writers_count m = card (WB \<union> WK) \<and>
     set (reader_queue m) = RB \<and> distinct (reader_queue m) \<and> set (writer_queue m) = WB \<and> distinct (writer_queue m) \<and>
     (writer_active m \<noteq> None \<longrightarrow> readers_count m = 0 \<and> lock_depth m > 0) \<and>
     (writer_active m = None \<and> readers_count m = 0 \<and> WB \<noteq> {} \<longrightarrow> WK \<noteq> {}) \<and>
     (writer_active m = None \<and> waiting_writers_count m = 0 \<longrightarrow> RB = {})"

definition at :: "rw_sys \<Rightarrow> rw_pc \<Rightarrow> task set" where
  "at s q = {t. pc s t = q}"

definition rw_inv :: "rw_sys \<Rightarrow> bool" where
  "rw_inv s \<longleftrightarrow> rw_ok (sem s) (reads s) (at s RBlocked) (at s WBlocked) (at s WWoken)"

lemma total_cover: "finite S \<Longrightarrow> {t. f t > 0} \<subseteq> S \<Longrightarrow> total f = sum f S"
  unfolding total_def by (rule sum.mono_neutral_left) auto

lemma total_update:
  assumes "finite {t. f t > 0}"
  shows "finite {u. (f(t := n)) u > 0}" "total (f(t := n)) + f t = total f + n"
proof -
  let ?S = "insert t {t. f t > 0}"
  have S: "finite ?S" using assms by simp
  show "finite {u. (f(t := n)) u > 0}" by (rule finite_subset [OF _ S]) auto
  have "total (f(t := n)) = sum (f(t := n)) ?S" "total f = sum f ?S"
    by (rule total_cover [OF S]; auto)+
  moreover have "sum (f(t := n)) ?S = n + sum (f(t := n)) (?S - {t})" "sum f ?S = f t + sum f (?S - {t})"
    using S by (simp_all add: sum.remove [of ?S t])
  moreover have "sum (f(t := n)) (?S - {t}) = sum f (?S - {t})" by (rule sum.cong) auto
  ultimately show "total (f(t := n)) + f t = total f + n" by simp
qed

lemma total_inc:
  assumes "finite {t. f t > 0}"
  shows "finite {u. (f(t := f t + 1)) u > 0}" "total (f(t := f t + 1)) = Suc (total f)"
  using total_update [OF assms, of t "f t + 1"] by simp_all

lemma total_dec:
  assumes "finite {t. f t > 0}" "f t > 0"
  shows "finite {u. (f(t := f t - 1)) u > 0}" "total (f(t := f t - 1)) = total f - 1"
  using total_update [OF assms(1), of t "f t - 1"] assms(2) by simp_all

lemma total_zero: "finite {t. f t > 0} \<Longrightarrow> total f = 0 \<Longrightarrow> f t = 0"
  by (auto simp: total_def)

lemma total_ge: "finite {t. f t > 0} \<Longrightarrow> f t > 0 \<Longrightarrow> 0 < total f"
  using total_zero by (metis gr0I less_irrefl)

lemma rw_start: "rw_inv \<lparr>sem = rwsem_init, pc = (\<lambda>_. Running), reads = (\<lambda>_. 0)\<rparr>"
  by (simp add: rw_inv_def rw_ok_def rwsem_init_def total_def at_def)

lemma read_turn_ok:
  assumes "rw_ok m f RB WB WK" "t \<notin> RB" "rwsem_read_turn m t = (got, m')"
  shows "rw_ok m' (if got then f(t := f t + 1) else f) (if got then RB else insert t RB) WB WK"
proof (cases "waiting_writers_count m = 0 \<and> writer_active m = None")
  case True
  have "finite {t. f t > 0}" using assms(1) by (simp add: rw_ok_def)
  note U = total_inc [OF this, of t]
  have "got" "m' = m\<lparr>readers_count := readers_count m + 1\<rparr>" using assms(3) True by (simp_all add: rwsem_read_turn_def)
  then show ?thesis using assms(1) True U unfolding rw_ok_def by simp
next
  case False
  then have "\<not> got" "m' = m\<lparr>reader_queue := reader_queue m @ [t]\<rparr>"
    using assms(3) by (auto simp: rwsem_read_turn_def sleep_add_to_queue_def)
  then show ?thesis using assms(1,2) False unfolding rw_ok_def by auto
qed

lemma write_turn_ok:
  assumes ok: "rw_ok m f RB WB WK" and t: "t \<in> WK" "t \<notin> WB" and turn: "rwsem_write_turn m t = (got, m')"
  shows "rw_ok m' f RB (if got then WB else insert t WB) (WK - {t})"
proof -
  have "WB \<union> WK = insert t (WB \<union> (WK - {t}))" "t \<notin> WB \<union> (WK - {t})" using t by auto
  moreover have "finite (WB \<union> (WK - {t}))" using ok by (simp add: rw_ok_def)
  ultimately have c: "card (WB \<union> WK) = Suc (card (WB \<union> (WK - {t})))" by (metis card_insert_disjoint)
  have "insert t WB \<union> (WK - {t}) = WB \<union> WK" using t by blast
  then have i: "card (insert t WB \<union> (WK - {t})) = card (WB \<union> WK)" by (simp only:)
  show ?thesis
  proof (cases "readers_count m = 0 \<and> writer_active m = None")
    case True
    then have "got" "m' = m\<lparr>waiting_writers_count := waiting_writers_count m - 1, writer_active := Some t, lock_depth := 1\<rparr>"
      using turn by (auto simp: rwsem_write_turn_def)
    then show ?thesis using ok True c unfolding rw_ok_def by simp
  next
    case False
    then have "\<not> got" "m' = m\<lparr>writer_queue := writer_queue m @ [t]\<rparr>"
      using turn by (auto simp: rwsem_write_turn_def sleep_add_to_queue_def)
    then show ?thesis using ok t(2) False i unfolding rw_ok_def by auto
  qed
qed

lemma enter_write_ok:
  assumes "rw_ok m f RB WB WK" "t \<notin> WB \<union> WK"
  shows "rw_ok (m\<lparr>waiting_writers_count := waiting_writers_count m + 1\<rparr>) f RB WB (insert t WK)"
  using assms unfolding rw_ok_def by auto

text \<open>Releasing the last shared hold, or the exclusive one, wakes the first writer or all readers.\<close>

lemma hd_wakeup: "wakeup_queue ts (Suc 0) = (take 1 ts, drop 1 ts)"
  by (simp add: wakeup_some)

lemma wake_first:
  assumes "distinct q" "set q = WB"
  shows "set (drop 1 q) = WB - set (take 1 q)" "set (take 1 q) \<subseteq> WB" "WB \<noteq> {} \<longrightarrow> set (take 1 q) \<noteq> {}"
    "card (WB - set (take 1 q) \<union> (WK \<union> set (take 1 q))) = card (WB \<union> WK)"
proof -
  show "set (drop 1 q) = WB - set (take 1 q)" "WB \<noteq> {} \<longrightarrow> set (take 1 q) \<noteq> {}" using assms by (cases q; auto)+
  show sub: "set (take 1 q) \<subseteq> WB" using assms by (cases q) auto
  then have "WB - set (take 1 q) \<union> (WK \<union> set (take 1 q)) = WB \<union> WK" by blast
  then show "card (WB - set (take 1 q) \<union> (WK \<union> set (take 1 q))) = card (WB \<union> WK)" by (simp only:)
qed

lemma release_read_ok:
  assumes ok: "rw_ok m f RB WB WK" and f: "f t > 0" and rel: "rwsem_release_read m t = Inr (ts, m')"
  shows "set ts \<subseteq> WB \<and> rw_ok m' (f(t := f t - 1)) RB (WB - set ts) (WK \<union> set ts)"
proof -
  have "finite {t. f t > 0}" using ok by (simp add: rw_ok_def)
  note U = total_dec [OF this f]
  have pos: "0 < total f" using ok f total_ge by (auto simp: rw_ok_def)
  then have na: "writer_active m = None" "readers_count m = total f" using ok by (auto simp: rw_ok_def)
  show ?thesis
  proof (cases "total f = 1")
    case False
    then have "ts = []" "m' = m\<lparr>readers_count := readers_count m - 1\<rparr>" using rel na pos by (simp_all add: rwsem_release_read_def)
    then show ?thesis using ok U f pos False na unfolding rw_ok_def by auto
  next
    case True
    then have ts: "ts = take 1 (writer_queue m)" "m' = m\<lparr>readers_count := 0, writer_queue := drop 1 (writer_queue m)\<rparr>"
      using rel na by (simp_all add: rwsem_release_read_def hd_wakeup)
    have D: "distinct (writer_queue m)" "set (writer_queue m) = WB" using ok by (auto simp: rw_ok_def)
    show ?thesis using ok U True na wake_first [OF D] unfolding rw_ok_def ts by (auto simp: distinct_drop)
  qed
qed

lemma release_write_ok:
  assumes ok: "rw_ok m f RB WB WK" and dis: "RB \<inter> WB = {}" and rel: "rwsem_release_write m t = Inr (ts, m')"
  shows "set ts \<subseteq> RB \<union> WB \<and> rw_ok m' f (RB - set ts) (WB - set ts) (WK \<union> (set ts \<inter> WB))"
proof -
  have w: "writer_active m = Some t" "lock_depth m > 0" using rel by (auto simp: rwsem_release_write_def split: if_splits)
  then have r0: "readers_count m = 0" using ok by (auto simp: rw_ok_def)
  consider (nested) "lock_depth m > 1" | (writers) "lock_depth m = 1" "waiting_writers_count m > 0"
    | (all) "lock_depth m = 1" "waiting_writers_count m = 0" using w(2) by linarith
  then show ?thesis
  proof cases
    case nested
    then have "ts = []" "m' = m\<lparr>lock_depth := lock_depth m - 1\<rparr>" using rel w by (auto simp: rwsem_release_write_def)
    then show ?thesis using ok nested unfolding rw_ok_def by auto
  next
    case writers
    then have ts: "ts = take 1 (writer_queue m)" "m' = m\<lparr>lock_depth := 0, writer_active := None, writer_queue := drop 1 (writer_queue m)\<rparr>"
      using rel w by (auto simp: rwsem_release_write_def hd_wakeup)
    have D: "distinct (writer_queue m)" "set (writer_queue m) = WB" using ok by (auto simp: rw_ok_def)
    have "RB - set ts = RB" "set ts \<inter> WB = set ts" using wake_first(2) [OF D] dis ts(1) by auto
    then show ?thesis using ok writers r0 wake_first [OF D] unfolding rw_ok_def ts by (auto simp: distinct_drop)
  next
    case all
    then have ts: "ts = reader_queue m" "m' = m\<lparr>lock_depth := 0, writer_active := None, reader_queue := []\<rparr>"
      using rel w by (auto simp: rwsem_release_write_def wakeup_all)
    have "set ts = RB" "set ts \<inter> WB = {}" "WB - set ts = WB" "WB = {}"
      using ok dis ts(1) all(2) by (auto simp: rw_ok_def)
    then show ?thesis using ok all r0 unfolding rw_ok_def ts by auto
  qed
qed

text \<open>The sets of blocked and woken tasks after a step.\<close>

lemma at_upd:
  "at (s\<lparr>sem := m, pc := (pc s)(t := q), reads := f\<rparr>) r = (if r = q then insert t (at s r) else at s r - {t})"
  by (auto simp: at_def)

lemma at_wake:
  assumes "set ts \<subseteq> at s RBlocked \<union> at s WBlocked" "pc s' = wake ts (pc s)"
  shows "at s' RBlocked = at s RBlocked - set ts" "at s' WBlocked = at s WBlocked - set ts"
    "at s' WWoken = at s WWoken \<union> (set ts \<inter> at s WBlocked)"
proof -
  have "unblocked q \<noteq> RBlocked" "unblocked q \<noteq> WBlocked" "unblocked q = WWoken \<longleftrightarrow> q \<in> {WBlocked, WWoken}" for q
    by (cases q; simp)+
  then show "at s' RBlocked = at s RBlocked - set ts" "at s' WBlocked = at s WBlocked - set ts"
    "at s' WWoken = at s WWoken \<union> (set ts \<inter> at s WBlocked)"
    using assms(2) by (auto simp: at_def wake_def)
qed

lemma at_disjoint: "q \<noteq> r \<Longrightarrow> at s q \<inter> at s r = {}"
  by (auto simp: at_def)

lemma not_at: "pc s t = q \<Longrightarrow> q \<noteq> r \<Longrightarrow> at s r - {t} = at s r"
  by (auto simp: at_def)

lemma at_upd2: "at (s\<lparr>sem := m, pc := (pc s)(t := q)\<rparr>) r = (if r = q then insert t (at s r) else at s r - {t})"
  by (auto simp: at_def)

lemmas at_upds = at_upd at_upd2

lemma read_step_inv:
  assumes inv: "rw_inv s" and t: "pc s t = p" "p \<in> {Running, RWoken}" and turn: "rwsem_read_turn (sem s) t = (got, m)"
  shows "rw_inv (s\<lparr>sem := m, pc := (pc s)(t := if got then Running else RBlocked),
      reads := (if got then (reads s)(t := reads s t + 1) else reads s)\<rparr>)"
proof -
  have "t \<notin> at s RBlocked" using t by (auto simp: at_def)
  from read_turn_ok [OF inv [unfolded rw_inv_def] this turn] show ?thesis
    using t not_at [of s t p] by (cases got) (auto simp: rw_inv_def at_upds)
qed

lemma rw_step_inv:
  assumes "rw_step s s'" "rw_inv s"
  shows "rw_inv s'"
  using assms
proof (induction rule: rw_step.induct)
  case (acquire_read s t got m)
  show ?case
  proof (cases "writer_active (sem s) = Some t")
    case True
    then have "got" "m = (sem s)\<lparr>lock_depth := lock_depth (sem s) + 1\<rparr>"
      using acquire_read.hyps(2) by (auto simp: rwsem_acquire_read_def)
    then show ?thesis using acquire_read.prems acquire_read.hyps(1) True not_at [of s t Running]
      by (auto simp: rw_inv_def at_upds rw_ok_def)
  next
    case False
    then have "rwsem_read_turn (sem s) t = (got, m)" using acquire_read.hyps(2) by (simp add: rwsem_acquire_read_def)
    from read_step_inv [OF acquire_read.prems acquire_read.hyps(1) _ this] show ?thesis using False by simp
  qed
next
  case (retry_read s t got m)
  show ?case by (rule read_step_inv [OF retry_read.prems retry_read.hyps(1) _ retry_read.hyps(2)]) simp
next
  case (acquire_write s t got m)
  show ?case
  proof (cases "writer_active (sem s) = Some t")
    case True
    then have "got" "m = (sem s)\<lparr>lock_depth := lock_depth (sem s) + 1\<rparr>"
      using acquire_write.hyps(3) by (auto simp: rwsem_acquire_write_def)
    then show ?thesis using acquire_write.prems acquire_write.hyps(1) True not_at [of s t Running]
      by (auto simp: rw_inv_def at_upds rw_ok_def)
  next
    case False
    let ?m = "(sem s)\<lparr>waiting_writers_count := waiting_writers_count (sem s) + 1\<rparr>"
    have t: "t \<notin> at s WBlocked \<union> at s WWoken" using acquire_write.hyps(1) by (auto simp: at_def)
    have turn: "rwsem_write_turn ?m t = (got, m)" using acquire_write.hyps(3) False by (simp add: rwsem_acquire_write_def)
    have "rw_ok ?m (reads s) (at s RBlocked) (at s WBlocked) (insert t (at s WWoken))"
      by (rule enter_write_ok [OF acquire_write.prems [unfolded rw_inv_def] t])
    from write_turn_ok [OF this _ _ turn] t show ?thesis
      using not_at [of s t Running] acquire_write.hyps(1) by (cases got) (auto simp: rw_inv_def at_upds)
  qed
next
  case (retry_write s t got m)
  have "t \<in> at s WWoken" "t \<notin> at s WBlocked" using retry_write.hyps(1) by (auto simp: at_def)
  from write_turn_ok [OF retry_write.prems [unfolded rw_inv_def] this retry_write.hyps(2)] show ?case
    using not_at [of s t WWoken] retry_write.hyps(1) by (cases got) (auto simp: rw_inv_def at_upds)
next
  case (release_read s t woken m)
  note R = release_read_ok [OF release_read.prems [unfolded rw_inv_def] release_read.hyps(2,3)]
  then have "at s RBlocked - set woken = at s RBlocked" "set woken \<inter> at s WBlocked = set woken"
    "set woken \<subseteq> at s RBlocked \<union> at s WBlocked" using at_disjoint [of RBlocked WBlocked s] by auto
  then show ?case
    using R at_wake [of woken s "s\<lparr>sem := m, pc := wake woken (pc s), reads := (reads s)(t := reads s t - 1)\<rparr>"]
    by (simp add: rw_inv_def)
next
  case (release_nested s t woken m)
  then have "woken = []" "m = (sem s)\<lparr>lock_depth := lock_depth (sem s) - 1\<rparr>"
    by (auto simp: rwsem_release_read_def)
  then show ?case using release_nested by (auto simp: rw_inv_def rw_ok_def wake_def at_def)
next
  case (release_write s t woken m)
  note R = release_write_ok [OF release_write.prems [unfolded rw_inv_def] at_disjoint release_write.hyps(2)]
  show ?case using R at_wake [of woken s "s\<lparr>sem := m, pc := wake woken (pc s)\<rparr>"] by (simp add: rw_inv_def)
qed

lemma rw_reachable_inv: "rw_reachable s \<Longrightarrow> rw_inv s"
  by (induction rule: rw_reachable.induct) (auto intro: rw_start rw_step_inv)

subsection \<open>Properties\<close>

text \<open>C10: Mutual exclusion of the read-write lock, in every state reachable by any interleaving of any
  number of tasks. While a writer holds the lock no task holds a shared side, and the assertions of
  the release functions hold for every holder: a holder's release never panics.\<close>

theorem rwsem_exclusion:
  assumes "rw_reachable s"
  shows "(writer_active (sem s) \<noteq> None \<longrightarrow> (\<forall>t. reads s t = 0)) \<and>
    (\<forall>t. reads s t > 0 \<longrightarrow> (\<exists>r. rwsem_release_read (sem s) t = Inr r)) \<and>
    (\<forall>t. writer_active (sem s) = Some t \<longrightarrow> (\<exists>r. rwsem_release_write (sem s) t = Inr r))"
proof -
  have ok: "rw_ok (sem s) (reads s) (at s RBlocked) (at s WBlocked) (at s WWoken)"
    using rw_reachable_inv [OF assms] by (simp add: rw_inv_def)
  have 1: "reads s t = 0" if "writer_active (sem s) \<noteq> None" for t
    using ok that total_zero [of "reads s" t] by (auto simp: rw_ok_def)
  moreover have "\<exists>r. rwsem_release_read (sem s) t = Inr r" if "reads s t > 0" for t
    using 1 [of t] that ok total_ge [of "reads s" t]
    by (auto simp: rw_ok_def rwsem_release_read_def Let_def split: prod.split)
  moreover have "\<exists>r. rwsem_release_write (sem s) t = Inr r" if "writer_active (sem s) = Some t" for t
    using that ok by (auto simp: rw_ok_def rwsem_release_write_def Let_def split: prod.split)
  ultimately show ?thesis by blast
qed

text \<open>C11: No wake-up is lost: in every reachable state in which tasks wait for the lock and nobody holds
  it, one of the waiting tasks is awake and its next turn acquires the lock.\<close>

theorem rwsem_no_lost_wakeup:
  assumes "rw_reachable s" "pc s t \<noteq> Running" "writer_active (sem s) = None" "readers_count (sem s) = 0"
  shows "\<exists>u s'. pc s u \<in> {RWoken, WWoken} \<and> rw_step s s' \<and> pc s' u = Running"
proof -
  have ok: "rw_ok (sem s) (reads s) (at s RBlocked) (at s WBlocked) (at s WWoken)"
    using rw_reachable_inv [OF assms(1)] by (simp add: rw_inv_def)
  show ?thesis
  proof (cases "at s WBlocked \<union> at s WWoken = {}")
    case False
    then obtain u where u: "pc s u = WWoken" using ok assms(3,4) by (auto simp: rw_ok_def at_def)
    obtain got m where turn: "rwsem_write_turn (sem s) u = (got, m)" by fastforce
    then have "got" using assms(3,4) by (simp add: rwsem_write_turn_def)
    then show ?thesis using rw_step.retry_write [OF u turn] u by fastforce
  next
    case True
    then have w: "waiting_writers_count (sem s) = 0" using ok by (auto simp: rw_ok_def)
    then have "at s RBlocked = {}" using ok assms(3) by (auto simp: rw_ok_def)
    then have t: "pc s t = RWoken" using True assms(2) by (cases "pc s t") (auto simp: at_def)
    obtain got m where turn: "rwsem_read_turn (sem s) t = (got, m)" by fastforce
    then have "got" using assms(3) w by (simp add: rwsem_read_turn_def)
    then show ?thesis using rw_step.retry_read [OF t turn] t by fastforce
  qed
qed

definition rw0 :: rw_sys where
  "rw0 = \<lparr>sem = rwsem_init, pc = (\<lambda>_. Running), reads = (\<lambda>_. 0)\<rparr>"

text \<open>Task 1 reads, task 2 asks to write and sleeps, task 1 releases and wakes it.\<close>

definition rw1 :: rw_sys where
  "rw1 = rw0\<lparr>sem := rwsem_init\<lparr>readers_count := 1\<rparr>, reads := (\<lambda>_. 0)(1 := 1)\<rparr>"

definition rw2 :: rw_sys where
  "rw2 = rw1\<lparr>sem := rwsem_init\<lparr>readers_count := 1, waiting_writers_count := 1, writer_queue := [2]\<rparr>,
     pc := (\<lambda>_. Running)(2 := WBlocked)\<rparr>"

definition rw3 :: rw_sys where
  "rw3 = rw2\<lparr>sem := rwsem_init\<lparr>waiting_writers_count := 1\<rparr>, pc := (\<lambda>_. Running)(2 := WWoken), reads := (\<lambda>_. 0)\<rparr>"

lemma rw_example: "rw_reachable rw1" "rw_reachable rw3"
proof -
  have 0: "rw_reachable rw0" unfolding rw0_def by (rule rw_reachable.start)
  have "rw_step rw0 rw1"
    using rw_step.acquire_read [of rw0 1 True "rwsem_init\<lparr>readers_count := 1\<rparr>"]
    by (simp add: rw0_def rw1_def rwsem_acquire_read_def rwsem_read_turn_def rwsem_init_def fun_upd_idem)
  then show 1: "rw_reachable rw1" using 0 rw_reachable.step by blast
  have "rw_step rw1 rw2"
    using rw_step.acquire_write [of rw1 2 False "sem rw2"]
    by (simp add: rw0_def rw1_def rw2_def rwsem_acquire_write_def rwsem_write_turn_def rwsem_init_def sleep_add_to_queue_def)
  moreover have "wake [2] (pc rw2) = pc rw3" by (auto simp: wake_def rw2_def rw3_def)
  then have "rw_step rw2 rw3"
    using rw_step.release_read [of rw2 1 "[2]" "sem rw3"]
    by (simp add: rw0_def rw1_def rw2_def rw3_def rwsem_release_read_def rwsem_init_def fun_upd_idem)
  ultimately show "rw_reachable rw3" using 1 rw_reachable.step by blast
qed

theorem rwsem_exclusion_witness:
  "rw_reachable rw1 \<and> reads rw1 1 > 0 \<and> (\<exists>r. rwsem_release_read (sem rw1) 1 = Inr r)"
  using rwsem_exclusion [OF rw_example(1)] rw_example(1) by (simp add: rw1_def)

theorem rwsem_no_lost_wakeup_witness:
  "rw_reachable rw3 \<and> pc rw3 2 \<noteq> Running \<and> (\<exists>u s'. pc rw3 u \<in> {RWoken, WWoken} \<and> rw_step rw3 s' \<and> pc s' u = Running)"
  using rwsem_no_lost_wakeup [OF rw_example(2), of 2] rw_example(2) by (simp add: rw3_def rw2_def rw1_def rw0_def rwsem_init_def)

end
