(* ===== verification/Pipe.thy ===== *)
theory Pipe
  imports Ringbuf Locks
begin

section \<open>Pipes\<close>

text \<open>
  Models \<^verbatim>\<open>kernel/fs/pipe.c\<close>: a ring buffer with a queue of readers and a queue of writers. Every
  operation runs under the spinlock of the pipe except while it sleeps; what happens meanwhile is the
  schedule of \<open>sleep_on_queue_lock_interruptible\<close>. A negative return value keeps its number, since
  the writing loop does arithmetic on it: the values of the error codes, which the ABI headers
  define, are the parameter \<open>val\<close>.
\<close>

record pipe =
  isbroken :: bool
  ring :: ringbuffer
  reader_queue :: "task list"
  writer_queue :: "task list"

definition PIPE_SIZE :: nat where
  "PIPE_SIZE = 4096"

definition wake_readers :: "pipe \<Rightarrow> pipe" where
  "wake_readers p = p\<lparr>reader_queue := snd (wakeup_queue (reader_queue p) 0)\<rparr>"

definition wake_writers :: "pipe \<Rightarrow> pipe" where
  "wake_writers p = p\<lparr>writer_queue := snd (wakeup_queue (writer_queue p) 0)\<rparr>"

definition queue_reader :: "task \<Rightarrow> pipe \<Rightarrow> pipe" where
  "queue_reader t p = p\<lparr>reader_queue := sleep_add_to_queue (reader_queue p) t\<rparr>"

definition unqueue_reader :: "task \<Rightarrow> pipe \<Rightarrow> pipe" where
  "unqueue_reader t p = p\<lparr>reader_queue := sleep_remove_from_queue (reader_queue p) t\<rparr>"

definition queue_writer :: "task \<Rightarrow> pipe \<Rightarrow> pipe" where
  "queue_writer t p = p\<lparr>writer_queue := sleep_add_to_queue (writer_queue p) t\<rparr>"

definition unqueue_writer :: "task \<Rightarrow> pipe \<Rightarrow> pipe" where
  "unqueue_writer t p = p\<lparr>writer_queue := sleep_remove_from_queue (writer_queue p) t\<rparr>"

subsection \<open>Reading\<close>

definition pipe_read_ring :: "pipe \<Rightarrow> umem \<Rightarrow> nat \<Rightarrow> nat \<Rightarrow> (errno + nat) \<times> pipe \<times> umem" where
  "pipe_read_ring p mem buffer count =
     (case ringbuffer_read (ring p) mem buffer count of
        (ret, r, mem') \<Rightarrow> (ret, wake_writers (p\<lparr>ring := r\<rparr>), mem'))"

definition pipe_raw_read ::
    "task \<Rightarrow> bool \<Rightarrow> pipe schedule \<Rightarrow> pipe \<Rightarrow> umem \<Rightarrow> nat \<Rightarrow> nat
      \<Rightarrow> ((errno + nat) \<times> pipe \<times> umem) option" where
  "pipe_raw_read t nonblock evs p mem buffer count =
     (if ringbuffer_read_available (ring p) = 0
      then (if isbroken p then Some (Inr 0, p, mem)
            else if nonblock then Some (Inl EAGAIN, p, mem)
            else (case sleep_on_queue_lock_interruptible
                         (\<lambda>p. ringbuffer_read_available (ring p) > 0 \<or> isbroken p)
                         (queue_reader t) (unqueue_reader t) evs p of
                    None \<Rightarrow> None
                  | Some (False, p1, _) \<Rightarrow> Some (Inl EINTR, p1, mem)
                  | Some (True, p1, _) \<Rightarrow>
                      (if isbroken p1 \<and> ringbuffer_read_available (ring p1) = 0 then Some (Inr 0, p1, mem)
                       else Some (pipe_read_ring p1 mem buffer count))))
      else Some (pipe_read_ring p mem buffer count))"

subsection \<open>Writing\<close>

text \<open>The result of \<^verbatim>\<open>ringbuffer_write\<close> as the \<^verbatim>\<open>ssize_t\<close> the loop adds and subtracts.\<close>

definition ssize :: "(errno \<Rightarrow> nat) \<Rightarrow> errno + nat \<Rightarrow> int" where
  "ssize val r = (case r of Inl e \<Rightarrow> - int (val e) | Inr n \<Rightarrow> int n)"

definition pipe_finish :: "int \<Rightarrow> int \<Rightarrow> int" where
  "pipe_finish ret tot = (if ret < 0 \<and> tot = 0 then ret else tot)"

definition pipe_write_ring :: "pipe \<Rightarrow> umem \<Rightarrow> u64 \<Rightarrow> u64 \<Rightarrow> (errno + nat) \<times> pipe" where
  "pipe_write_ring p mem buffer count =
     (case ringbuffer_write (ring p) mem (unat buffer) (unat count) of
        (ret, r) \<Rightarrow> (ret, wake_readers (p\<lparr>ring := r\<rparr>)))"

definition minimum_write :: "u64 \<Rightarrow> nat" where
  "minimum_write count = (if unat count < 4096 then unat count else 4096)"

text \<open>Waiting for room: the error with which the loop ends, or the pipe to write to.\<close>

definition pipe_write_wait ::
    "task \<Rightarrow> bool \<Rightarrow> pipe schedule \<Rightarrow> pipe \<Rightarrow> u64 \<Rightarrow> ((errno \<times> pipe) + (pipe \<times> pipe schedule)) option" where
  "pipe_write_wait t nonblock evs p count =
     (if ringbuffer_write_available (ring p) < minimum_write count
      then (if nonblock then Some (Inl (EAGAIN, p))
            else (case sleep_on_queue_lock_interruptible
                         (\<lambda>p. ringbuffer_write_available (ring p) \<ge> minimum_write count \<or> isbroken p)
                         (queue_writer t) (unqueue_writer t) evs p of
                    None \<Rightarrow> None
                  | Some (False, p1, _) \<Rightarrow> Some (Inl (EINTR, p1))
                  | Some (True, p1, evs1) \<Rightarrow>
                      (if isbroken p1 then Some (Inl (EPIPE, p1)) else Some (Inr (p1, evs1)))))
      else Some (Inr (p, evs)))"

text \<open>The loop of \<^verbatim>\<open>pipe_raw_write\<close>. It returns \<open>None\<close> when it sleeps or loops forever.\<close>

partial_function (option) pipe_write_loop ::
    "(errno \<Rightarrow> nat) \<Rightarrow> task \<Rightarrow> bool \<Rightarrow> umem \<Rightarrow> pipe schedule \<Rightarrow> pipe \<Rightarrow> u64 \<Rightarrow> u64 \<Rightarrow> int \<Rightarrow> (int \<times> pipe) option" where
  "pipe_write_loop val t nonblock mem evs p buffer count tot =
     (if count = 0 then Some (pipe_finish 0 tot, p)
      else (case pipe_write_wait t nonblock evs p count of
              None \<Rightarrow> None
            | Some (Inl (e, p1)) \<Rightarrow> Some (pipe_finish (- int (val e)) tot, p1)
            | Some (Inr (p1, evs1)) \<Rightarrow>
                (case pipe_write_ring p1 mem buffer count of
                   (r, p2) \<Rightarrow>
                     pipe_write_loop val t nonblock mem evs1 p2 (buffer + word_of_int (ssize val r))
                       (count - word_of_int (ssize val r)) (tot + ssize val r))))"

definition pipe_raw_write ::
    "(errno \<Rightarrow> nat) \<Rightarrow> task \<Rightarrow> bool \<Rightarrow> umem \<Rightarrow> pipe schedule \<Rightarrow> pipe \<Rightarrow> u64 \<Rightarrow> u64 \<Rightarrow> (int \<times> pipe) option" where
  "pipe_raw_write val t nonblock mem evs p buffer count =
     (if isbroken p then Some (- int (val EPIPE), p)
      else pipe_write_loop val t nonblock mem evs p buffer count 0)"

subsection \<open>Polling, closing and creating\<close>

definition pipe_poll_add :: "bool \<Rightarrow> task \<Rightarrow> pipe \<Rightarrow> pipe" where
  "pipe_poll_add rd t p =
     (if \<not> isbroken p then (if rd then queue_reader t p else queue_writer t p) else p)"

definition pipe_poll_remove :: "bool \<Rightarrow> task \<Rightarrow> pipe \<Rightarrow> pipe" where
  "pipe_poll_remove rd t p = (if rd then unqueue_reader t p else unqueue_writer t p)"

text \<open>The two ends differ in the operations they have: \<open>rd\<close> says which one it is.\<close>

definition pipe_poll_get :: "bool \<Rightarrow> pipe \<Rightarrow> poll_flag set \<Rightarrow> poll_flag set" where
  "pipe_poll_get rd p revents =
     revents \<union> (if isbroken p then {POLLHUP} else {})
       \<union> (if rd \<and> ringbuffer_read_available (ring p) > 0 then {POLLIN} else {})
       \<union> (if \<not> rd \<and> ringbuffer_write_available (ring p) > 0 then {POLLOUT} else {})"

text \<open>Closing an end: the second one frees the pipe (\<open>None\<close>).\<close>

definition pipe_close :: "pipe \<Rightarrow> pipe option" where
  "pipe_close p =
     (if isbroken p then None
      else Some (wake_writers (wake_readers (p\<lparr>isbroken := True\<rparr>))))"

text \<open>Creation, with the three allocations as parameters. The blocks an error path leaves allocated
  are part of the result.\<close>

datatype pipe_block = PipeStruct | PipeRing

definition pipe_create ::
    "bool \<Rightarrow> (nat \<Rightarrow> byte list option) \<Rightarrow> bool \<Rightarrow> bool \<Rightarrow> (errno + pipe) \<times> pipe_block set" where
  "pipe_create kmalloc_ok kmalloc read_ok write_ok =
     (if \<not> kmalloc_ok then (Inl ENOMEM, {})
      else (case ringbuffer_init kmalloc PIPE_SIZE of
              Inl e \<Rightarrow> (Inl e, {PipeStruct})
            | Inr r \<Rightarrow>
                (if \<not> read_ok then (Inl ENOMEM, {PipeRing})
                 else if \<not> write_ok then (Inl ENOMEM, {PipeRing})
                 else (Inr \<lparr>isbroken = False, ring = r, reader_queue = [], writer_queue = []\<rparr>,
                       {PipeStruct, PipeRing}))))"

subsection \<open>What the operations do\<close>

definition pipe_ok :: "pipe \<Rightarrow> bool" where
  "pipe_ok p \<longleftrightarrow> rb_ok (ring p) \<and> rb_buffer_size (ring p) = PIPE_SIZE"

definition pipe_contents :: "pipe \<Rightarrow> byte list" where
  "pipe_contents p = rb_contents (ring p)"

definition pipe_room :: "pipe \<Rightarrow> nat" where
  "pipe_room p = PIPE_SIZE - length (pipe_contents p)"

definition pipe_env_ok :: "pipe schedule \<Rightarrow> bool" where
  "pipe_env_ok evs \<longleftrightarrow> (\<forall>ev \<in> set evs. \<forall>p. pipe_ok p \<longrightarrow> pipe_ok (snd ev p))"

lemma pipe_queue_frame [simp, frame_simps]:
  "ring (wake_readers p) = ring p" "ring (wake_writers p) = ring p"
  "ring (queue_reader t p) = ring p" "ring (unqueue_reader t p) = ring p"
  "ring (queue_writer t p) = ring p" "ring (unqueue_writer t p) = ring p"
  "isbroken (wake_readers p) = isbroken p" "isbroken (wake_writers p) = isbroken p"
  "isbroken (queue_reader t p) = isbroken p" "isbroken (unqueue_reader t p) = isbroken p"
  "isbroken (queue_writer t p) = isbroken p" "isbroken (unqueue_writer t p) = isbroken p"
  by (simp_all add: wake_readers_def wake_writers_def queue_reader_def unqueue_reader_def queue_writer_def
      unqueue_writer_def)

lemma pipe_ok_frame: "ring p = ring q \<Longrightarrow> pipe_ok p = pipe_ok q"
  by (simp add: pipe_ok_def)

lemma pipe_contents_frame: "ring p = ring q \<Longrightarrow> pipe_contents p = pipe_contents q"
  by (simp add: pipe_contents_def)

lemma pipe_room_available: "pipe_ok p \<Longrightarrow> ringbuffer_write_available (ring p) = pipe_room p"
  by (simp add: ringbuffer_write_available_def ringbuffer_read_available_def pipe_room_def pipe_ok_def
      pipe_contents_def)

lemma pipe_env_state:
  assumes "pipe_env_ok (pre @ suf)" and "pipe_ok p"
  shows "pipe_ok (schedule_state (queue_writer t) pre p)" and "pipe_ok (schedule_state (queue_reader t) pre p)"
  using assms by (auto intro!: schedule_state_invariant [where ok = pipe_ok]
      simp: pipe_env_ok_def pipe_ok_frame [of "queue_writer _ _"] pipe_ok_frame [of "queue_reader _ _"])

text \<open>Waiting succeeds only in a state the schedule leads to and that has room; it fails with the
  contents as the schedule left them.\<close>

lemma pipe_wait_outcome:
  assumes "pipe_write_wait t nonblock evs p count = Some res"
  shows "\<exists>pre suf. evs = pre @ suf \<and>
    (case res of
       Inr (p1, evs1) \<Rightarrow> p1 = schedule_state (queue_writer t) pre p \<and> evs1 = suf \<and>
         minimum_write count \<le> ringbuffer_write_available (ring p1)
     | Inl (e, p1) \<Rightarrow> e \<in> {EAGAIN, EINTR, EPIPE} \<and> ring p1 = ring (schedule_state (queue_writer t) pre p))"
proof (cases "ringbuffer_write_available (ring p) < minimum_write count \<and> \<not> nonblock")
  case False
  then show ?thesis
    using assms by - (rule exI [of _ "[]"], rule exI [of _ evs], auto simp: pipe_write_wait_def split: if_splits)
next
  case True
  let ?c = "\<lambda>p. ringbuffer_write_available (ring p) \<ge> minimum_write count \<or> isbroken p"
  obtain ok p1 evs1 where s:
    "sleep_on_queue_lock_interruptible ?c (queue_writer t) (unqueue_writer t) evs p = Some (ok, p1, evs1)"
    using assms True by (auto simp: pipe_write_wait_def split: option.splits)
  from sleep_ends [OF s] obtain pre where pre: "evs = pre @ evs1"
    "if ok then p1 = schedule_state (queue_writer t) pre p \<and> ?c p1
     else p1 = unqueue_writer t (schedule_state (queue_writer t) pre p)"
    by auto
  with assms True s show ?thesis
    by (intro exI [of _ pre] exI [of _ evs1]) (auto simp: pipe_write_wait_def split: if_splits bool.splits)
qed

lemma pipe_write_ring_fits:
  assumes "pipe_ok p" and "unat count \<le> pipe_room p" and "readable mem (unat buffer) (unat count)"
    and "pipe_write_ring p mem buffer count = (r, p')"
  shows "r = Inr (unat count) \<and> pipe_ok p' \<and> isbroken p' = isbroken p \<and>
     pipe_contents p' = pipe_contents p @ ubytes mem (unat buffer) (unat count)"
proof -
  obtain res r' where w: "ringbuffer_write (ring p) mem (unat buffer) (unat count) = (res, r')" by fastforce
  have "min (unat count) (rb_buffer_size (ring p) - rb_read_available (ring p)) = unat count"
    using assms(1,2) by (simp add: pipe_room_def pipe_ok_def pipe_contents_def)
  with ringbuffer_write_spec [OF _ refl w] assms w show ?thesis
    by (auto simp: pipe_write_ring_def pipe_ok_def pipe_contents_def)
qed

lemma pipe_loop_done: "pipe_write_loop val t nonblock mem evs p buffer 0 tot = Some (tot, p)"
  by (simp add: pipe_write_loop.simps pipe_finish_def)

lemma pipe_small_write:
  assumes "pipe_ok p" and "count \<noteq> 0" and "unat count \<le> PIPE_SIZE"
    and "readable mem (unat buffer) (unat count)" and "pipe_env_ok evs"
  shows "pipe_write_loop val t nonblock mem evs p buffer count 0 =
    (case pipe_write_wait t nonblock evs p count of
       None \<Rightarrow> None
     | Some (Inl (e, p1)) \<Rightarrow> Some (- int (val e), p1)
     | Some (Inr (p1, evs1)) \<Rightarrow> Some (int (unat count), snd (pipe_write_ring p1 mem buffer count)))"
proof (cases "pipe_write_wait t nonblock evs p count")
  case None
  with assms(2) show ?thesis by (subst pipe_write_loop.simps) simp
next
  case (Some res)
  show ?thesis
  proof (cases res)
    case (Inl ep)
    with Some assms(2) show ?thesis
      by (subst pipe_write_loop.simps) (auto simp: pipe_finish_def split: prod.splits)
  next
    case (Inr pe)
    obtain p1 evs1 where pe: "pe = (p1, evs1)" by (cases pe)
    obtain r p2 where w: "pipe_write_ring p1 mem buffer count = (r, p2)" by fastforce
    from pipe_wait_outcome [OF Some] Inr pe obtain pre where
      p1: "p1 = schedule_state (queue_writer t) pre p" "evs = pre @ evs1"
        "minimum_write count \<le> ringbuffer_write_available (ring p1)"
      by auto
    have ok1: "pipe_ok p1" using p1 assms(1,5) pipe_env_state(1) by metis
    have "unat count \<le> pipe_room p1"
      using p1(3) pipe_room_available [OF ok1] assms(3) by (auto simp: minimum_write_def PIPE_SIZE_def split: if_splits)
    from pipe_write_ring_fits [OF ok1 this assms(4) w] have r: "ssize val r = int (unat count)"
      by (simp add: ssize_def)
    have "pipe_write_loop val t nonblock mem evs p buffer count 0 =
        pipe_write_loop val t nonblock mem evs1 p2 (buffer + count) 0 (int (unat count))"
      using assms(2) Some Inr pe w r by (subst pipe_write_loop.simps) simp
    with Some Inr pe w show ?thesis by (simp add: pipe_loop_done)
  qed
qed

lemma pipe_write_returned:
  assumes "pipe_ok p" and "count \<noteq> 0" and "unat count \<le> PIPE_SIZE"
    and "readable mem (unat buffer) (unat count)" and "pipe_env_ok evs"
    and w: "pipe_write_wait t nonblock evs p count = Some res"
    and r: "(case res of Inl (e, p1) \<Rightarrow> (- int (val e), p1)
      | Inr (p1, evs1) \<Rightarrow> (int (unat count), snd (pipe_write_ring p1 mem buffer count))) = (ret, p')"
  shows "\<exists>pre suf q. evs = pre @ suf \<and> q = schedule_state (queue_writer t) pre p \<and>
         (ret = int (unat count) \<and> pipe_contents p' = pipe_contents q @ ubytes mem (unat buffer) (unat count) \<or>
          (\<exists>e \<in> {EAGAIN, EINTR, EPIPE}. ret = - int (val e)) \<and> pipe_contents p' = pipe_contents q)"
proof -
  from pipe_wait_outcome [OF w] obtain pre suf where pre: "evs = pre @ suf" and
    res: "case res of
       Inr (p1, evs1) \<Rightarrow> p1 = schedule_state (queue_writer t) pre p \<and> evs1 = suf \<and>
         minimum_write count \<le> ringbuffer_write_available (ring p1)
     | Inl (e, p1) \<Rightarrow> e \<in> {EAGAIN, EINTR, EPIPE} \<and> ring p1 = ring (schedule_state (queue_writer t) pre p)"
    by auto
  show ?thesis
  proof (cases res)
    case (Inl ep)
    with pre res r show ?thesis
      by - (rule exI [of _ pre], rule exI [of _ suf], auto simp: pipe_contents_def split: prod.splits)
  next
    case (Inr pe)
    then obtain p1 where pe: "res = Inr (p1, suf)" "p1 = schedule_state (queue_writer t) pre p"
      "minimum_write count \<le> ringbuffer_write_available (ring p1)"
      using res by (cases pe) auto
    have ok1: "pipe_ok p1" using pe pre assms(1,5) pipe_env_state(1) by metis
    have "unat count \<le> pipe_room p1"
      using pe(3) pipe_room_available [OF ok1] assms(3) by (auto simp: minimum_write_def PIPE_SIZE_def split: if_splits)
    from pipe_write_ring_fits [OF ok1 this assms(4), of "fst (pipe_write_ring p1 mem buffer count)"] pre pe r
    show ?thesis by - (rule exI [of _ pre], rule exI [of _ suf], auto)
  qed
qed

lemma pipe_write_wakes:
  assumes "pipe_ok p" and "unat count \<le> PIPE_SIZE" and "pipe_env_ok evs"
    and "nonblock \<or> (\<exists>pre suf q. evs = pre @ suf \<and> (\<forall>ev \<in> set pre. \<not> fst ev) \<and>
        q = schedule_state (queue_writer t) pre p \<and> (unat count \<le> pipe_room q \<or> isbroken q))"
  shows "pipe_write_wait t nonblock evs p count \<noteq> None"
proof (cases nonblock)
  case True
  then show ?thesis by (simp add: pipe_write_wait_def)
next
  case False
  let ?c = "\<lambda>p. ringbuffer_write_available (ring p) \<ge> minimum_write count \<or> isbroken p"
  obtain pre suf q where q: "evs = pre @ suf" "\<forall>ev \<in> set pre. \<not> fst ev" "q = schedule_state (queue_writer t) pre p"
    "unat count \<le> pipe_room q \<or> isbroken q"
    using assms(4) False by blast
  have "pipe_ok q" using q assms(1,3) pipe_env_state(1) by metis
  then have "?c q" using q(4) pipe_room_available [of q] by (auto simp: minimum_write_def)
  with q have "sleep_on_queue_lock_interruptible ?c (queue_writer t) (unqueue_writer t) evs p \<noteq> None"
    using sleep_returns [of pre ?c "queue_writer t" p "unqueue_writer t" suf] by simp
  then show ?thesis by (auto simp: pipe_write_wait_def split: option.splits bool.splits)
qed

text \<open>C7: a write of at most \<^verbatim>\<open>PIPE_SIZE\<close> bytes is atomic, whatever other tasks do while it sleeps.
  When it returns, either all its bytes were appended in one piece to what the other tasks had left in
  the pipe and the count is returned, or nothing was written and the error is \<^verbatim>\<open>EAGAIN\<close>,
  \<^verbatim>\<open>EINTR\<close> or \<^verbatim>\<open>EPIPE\<close>. It does return when it may not block, and
  whenever the other tasks make room or close the other end without a signal before.\<close>

theorem pipe_write_atomic:
  assumes "pipe_ok p" and "count \<noteq> 0" and "unat count \<le> PIPE_SIZE"
    and "readable mem (unat buffer) (unat count)" and "pipe_env_ok evs"
  shows "(\<forall>ret p'. pipe_raw_write val t nonblock mem evs p buffer count = Some (ret, p') \<longrightarrow>
      (\<exists>pre suf q. evs = pre @ suf \<and> q = schedule_state (queue_writer t) pre p \<and>
         (ret = int (unat count) \<and> pipe_contents p' = pipe_contents q @ ubytes mem (unat buffer) (unat count) \<or>
          (\<exists>e \<in> {EAGAIN, EINTR, EPIPE}. ret = - int (val e)) \<and> pipe_contents p' = pipe_contents q))) \<and>
    (nonblock \<or> (\<exists>pre suf q. evs = pre @ suf \<and> (\<forall>ev \<in> set pre. \<not> fst ev) \<and>
        q = schedule_state (queue_writer t) pre p \<and> (unat count \<le> pipe_room q \<or> isbroken q)) \<longrightarrow>
      pipe_raw_write val t nonblock mem evs p buffer count \<noteq> None)"
    (is "?outcome \<and> ?returns")
proof
  note loop = pipe_small_write [OF assms, of val t nonblock]
  show ?outcome
  proof (intro allI impI)
    fix ret p' assume r: "pipe_raw_write val t nonblock mem evs p buffer count = Some (ret, p')"
    show "\<exists>pre suf q. evs = pre @ suf \<and> q = schedule_state (queue_writer t) pre p \<and>
         (ret = int (unat count) \<and> pipe_contents p' = pipe_contents q @ ubytes mem (unat buffer) (unat count) \<or>
          (\<exists>e \<in> {EAGAIN, EINTR, EPIPE}. ret = - int (val e)) \<and> pipe_contents p' = pipe_contents q)"
    proof (cases "isbroken p")
      case True
      with r show ?thesis by - (rule exI [of _ "[]"], rule exI [of _ evs], auto simp: pipe_raw_write_def)
    next
      case False
      with r loop obtain res where w: "pipe_write_wait t nonblock evs p count = Some res"
        by (auto simp: pipe_raw_write_def split: option.splits)
      show ?thesis
        by (rule pipe_write_returned [OF assms w]) (use False r loop w in \<open>auto simp: pipe_raw_write_def split: sum.splits prod.splits\<close>)
    qed
  qed
  show ?returns
    by (rule impI, frule pipe_write_wakes [OF assms(1,3,5)])
      (use loop in \<open>auto simp: pipe_raw_write_def split: option.splits sum.splits\<close>)
qed

definition ex_pipe :: pipe where
  "ex_pipe = \<lparr>isbroken = False,
     ring = \<lparr>rb_buffer = replicate 4096 0, rb_write_offset = 0, rb_read_offset = 0, rb_buffer_size = 4096,
             rb_read_available = 0\<rparr>,
     reader_queue = [], writer_queue = []\<rparr>"

lemma ex_pipe_facts: "pipe_ok ex_pipe" "pipe_contents ex_pipe = []"
  by (simp_all add: ex_pipe_def pipe_ok_def rb_ok_def PIPE_SIZE_def pipe_contents_def rb_contents_def window_def)

theorem pipe_write_atomic_witness:
  "\<exists>ret p'. pipe_raw_write (\<lambda>_. 1) 7 True (mem_of [5, 6, 7]) [] ex_pipe 0 3 = Some (ret, p') \<and>
     (ret = 3 \<and> pipe_contents p' = [5, 6, 7] \<or> ret = -1 \<and> pipe_contents p' = [])"
proof -
  have l: "unat (3 :: u64) = length [5, 6, 7 :: byte]" by simp
  have r: "readable (mem_of [5, 6, 7]) (unat (0 :: u64)) (unat (3 :: u64))"
    "ubytes (mem_of [5, 6, 7]) (unat (0 :: u64)) (unat (3 :: u64)) = [5, 6, 7]"
    by (simp_all only: l unsigned_0 readable_mem_of ubytes_mem_of)
  have "pipe_env_ok []" by (simp add: pipe_env_ok_def)
  from pipe_write_atomic [OF ex_pipe_facts(1) _ _ r(1) this, where val = "\<lambda>_. 1" and t = 7 and nonblock = True]
  show ?thesis using r(2) ex_pipe_facts(2) by (simp add: PIPE_SIZE_def) blast
qed

text \<open>A longer write that may not block fills the pipe as far as it goes: all or nothing up to the size
  of the pipe, and a prefix beyond it.\<close>

lemma pipe_write_ring_takes:
  assumes "pipe_ok p" and n: "n = min (unat count) (pipe_room p)" and "readable mem (unat buffer) (unat count)"
    and "pipe_write_ring p mem buffer count = (r, p')"
  shows "r = Inr n \<and> pipe_ok p' \<and> pipe_contents p' = pipe_contents p @ ubytes mem (unat buffer) n"
proof -
  have room: "pipe_room p = rb_buffer_size (ring p) - rb_read_available (ring p)"
    using assms(1) by (simp add: pipe_room_def pipe_ok_def pipe_contents_def)
  obtain res r' where w: "ringbuffer_write (ring p) mem (unat buffer) (unat count) = (res, r')" by fastforce
  show ?thesis
    using ringbuffer_write_spec [OF _ refl w] readable_mono [OF assms(3), of n] room assms(1,4) w n
    by (auto simp: pipe_ok_def pipe_contents_def pipe_write_ring_def)
qed

lemma pipe_loop_full:
  assumes "pipe_ok p" and "pipe_room p = 0" and "count \<noteq> 0" and "tot > 0"
  shows "pipe_write_loop val t True mem evs p buffer count tot = Some (tot, p)"
  using assms pipe_room_available [OF assms(1)]
  by (subst pipe_write_loop.simps) (simp add: pipe_write_wait_def pipe_finish_def minimum_write_def unsigned_eq_0_iff)

lemma word_of_nat_le: "unat (word_of_nat k :: u64) \<le> k"
  by (simp add: unsigned_of_nat take_bit_nat_less_eq_self)

lemma pipe_write_nonblocking:
  assumes "pipe_ok p" and "\<not> isbroken p" and "count \<noteq> 0" and "readable mem (unat buffer) (unat count)"
    and n: "n = min (unat count) (pipe_room p)"
  shows "\<exists>p'. pipe_raw_write val t True mem evs p buffer count =
     (if pipe_room p < minimum_write count then Some (- int (val EAGAIN), p) else Some (int n, p')) \<and>
     pipe_contents p' = pipe_contents p @ ubytes mem (unat buffer) n"
proof -
  obtain r p' where w: "pipe_write_ring p mem buffer count = (r, p')" by fastforce
  note p' = pipe_write_ring_takes [OF assms(1) n assms(4) w]
  have loop: "pipe_raw_write val t True mem evs p buffer count =
     (if pipe_room p < minimum_write count then Some (- int (val EAGAIN), p)
      else pipe_write_loop val t True mem evs p' (buffer + word_of_nat n) (count - word_of_nat n) (int n))"
    using assms(2,3) p' w pipe_room_available [OF assms(1)]
    by (simp add: pipe_raw_write_def pipe_write_loop.simps [of _ _ _ _ _ p] pipe_write_wait_def pipe_finish_def
        ssize_def)
  have "pipe_write_loop val t True mem evs p' (buffer + word_of_nat n) (count - word_of_nat n) (int n) = Some (int n, p')"
    if "\<not> pipe_room p < minimum_write count"
  proof (cases "unat count \<le> pipe_room p")
    case True
    then show ?thesis using n by (simp add: pipe_loop_done)
  next
    case False
    then have "n = pipe_room p" using n by simp
    moreover have "count \<noteq> word_of_nat n" using word_of_nat_le [of n] False \<open>n = pipe_room p\<close> by auto
    moreover have "n > 0" using that False \<open>n = pipe_room p\<close> by (auto simp: minimum_write_def split: if_splits)
    ultimately show ?thesis using p' by (intro pipe_loop_full) (auto simp: pipe_room_def)
  qed
  with loop p' show ?thesis by auto
qed

text \<open>A read that finds bytes takes them from the front; a read of an empty pipe reports the end of a
  broken one and never returns without bytes otherwise, except by an error.\<close>

lemma pipe_read_ring_takes:
  assumes "pipe_ok p" and "n = min count (length (pipe_contents p))" and "readable mem buffer n"
    and "pipe_read_ring p mem buffer count = (ret, p', mem')"
  shows "ret = Inr n \<and> pipe_ok p' \<and> pipe_contents p = ubytes mem' buffer n @ pipe_contents p'"
proof -
  obtain res r' m where r: "ringbuffer_read (ring p) mem buffer count = (res, r', m)" by (metis prod_cases3)
  show ?thesis
    using ringbuffer_read_spec [OF _ refl r] assms r
    by (auto simp: pipe_read_ring_def pipe_ok_def pipe_contents_def)
qed

definition pipe_read_result :: "bool \<Rightarrow> pipe \<Rightarrow> nat \<Rightarrow> nat \<Rightarrow> errno + nat \<Rightarrow> pipe \<Rightarrow> umem \<Rightarrow> bool" where
  "pipe_read_result nonblock q buffer count ret p' mem' \<longleftrightarrow>
     (case ret of
        Inr n \<Rightarrow> n = min count (length (pipe_contents q)) \<and>
          pipe_contents q = ubytes mem' buffer n @ pipe_contents p' \<and> (pipe_contents q = [] \<longrightarrow> isbroken q)
      | Inl e \<Rightarrow> (e = EAGAIN \<and> nonblock \<or> e = EINTR) \<and> pipe_contents p' = pipe_contents q)"

lemma pipe_read_ring_result:
  assumes "pipe_read_ring q mem buffer count = (ret, p', mem')" and "pipe_ok q" and "pipe_contents q \<noteq> []"
    and "readable mem buffer count"
  shows "pipe_read_result nonblock q buffer count ret p' mem'"
proof -
  have "readable mem buffer (min count (length (pipe_contents q)))" using readable_mono [OF assms(4)] by simp
  from pipe_read_ring_takes [OF assms(2) refl this assms(1)] assms(3) show ?thesis
    unfolding pipe_read_result_def by (elim conjE) (simp only: sum.case, blast)
qed

lemma pipe_read_available: "ringbuffer_read_available (ring q) = length (pipe_contents q)"
  by (simp add: ringbuffer_read_available_def pipe_contents_def)

lemma pipe_read_outcome:
  assumes "pipe_raw_read t nonblock evs p mem buffer count = Some (ret, p', mem')"
    and "pipe_ok p" and "pipe_env_ok evs" and "readable mem buffer count"
  shows "\<exists>pre suf q. evs = pre @ suf \<and> q = schedule_state (queue_reader t) pre p \<and> pipe_ok q \<and>
     pipe_read_result nonblock q buffer count ret p' mem'"
proof (cases "pipe_contents p = [] \<and> \<not> isbroken p \<and> \<not> nonblock")
  case False
  then have "pipe_contents p \<noteq> [] \<and> pipe_read_ring p mem buffer count = (ret, p', mem') \<or>
      pipe_contents p = [] \<and> (ret, p', mem') = (if isbroken p then (Inr 0, p, mem) else (Inl EAGAIN, p, mem))"
    using assms(1) by (auto simp: pipe_raw_read_def pipe_read_available split: if_splits)
  then have "pipe_read_result nonblock p buffer count ret p' mem'"
    using pipe_read_ring_result [OF _ assms(2) _ assms(4)] False
    by (auto simp: pipe_read_result_def split: if_splits)
  with assms(2) show ?thesis by - (rule exI [of _ "[]"], rule exI [of _ evs], rule exI [of _ p], simp)
next
  case True
  let ?c = "\<lambda>p. ringbuffer_read_available (ring p) > 0 \<or> isbroken p"
  obtain ok q evs1 where s:
    "sleep_on_queue_lock_interruptible ?c (queue_reader t) (unqueue_reader t) evs p = Some (ok, q, evs1)"
    using assms(1) True by (auto simp: pipe_raw_read_def pipe_read_available split: option.splits)
  from sleep_ends [OF s] obtain pre q' where pre: "evs = pre @ evs1" "q' = schedule_state (queue_reader t) pre p"
    "if ok then q = q' \<and> ?c q else q = unqueue_reader t q'" by auto
  have ok1: "pipe_ok q'" using pre(1,2) assms(2,3) pipe_env_state(2) by metis
  have res: "(if \<not> ok then (Inl EINTR, q, mem)
       else if isbroken q \<and> pipe_contents q = [] then (Inr 0, q, mem)
       else pipe_read_ring q mem buffer count) = (ret, p', mem')"
    using assms(1) True s by (auto simp: pipe_raw_read_def pipe_read_available)
  have "pipe_read_result nonblock q' buffer count ret p' mem'"
  proof (cases "ok \<and> pipe_contents q \<noteq> []")
    case True
    then show ?thesis using res pre(3) ok1 pipe_read_ring_result [of q' mem buffer count ret p' mem'] assms(4) by simp
  next
    case False
    then show ?thesis
      using res pre(3) pipe_contents_frame [of "unqueue_reader t q'" q']
      by (auto simp: pipe_read_result_def pipe_read_available split: if_splits)
  qed
  with pre ok1 show ?thesis by blast
qed

text \<open>A buffer that cannot be read makes the loop go backwards: the error is subtracted from the count
  and added to the buffer. When no address near it can be read either, the loop never ends.\<close>

lemma unat_add_mod_even:
  fixes c :: u64
  shows "even n \<Longrightarrow> even (unat (c + word_of_nat n)) = even (unat c)"
  by (simp add: unat_word_ariths dvd_mod_iff unsigned_of_nat even_take_bit_eq)

lemma ringbuffer_write_unmapped:
  assumes "rb_ok r" and "rb_read_available r < rb_buffer_size r" and "count > 0"
  shows "ringbuffer_write r (\<lambda>_. None) buf count = (Inl EFAULT, r)"
proof -
  obtain n where n: "n > 0" "n = (if count > ringbuffer_write_available r then ringbuffer_write_available r else count)"
    using assms by (auto simp: ringbuffer_write_available_def ringbuffer_read_available_def)
  obtain k where "n = Suc k" using n(1) by (cases n) auto
  moreover obtain j where "rb_buffer_size r - rb_write_offset r = Suc j"
    using assms(1) by (metis Suc_diff_Suc rb_ok_def)
  ultimately show ?thesis
    unfolding ringbuffer_write_def n(2) [symmetric] by (simp add: Let_def)
qed

definition unmapped_write :: "(errno \<Rightarrow> nat) \<Rightarrow> umem \<Rightarrow> pipe \<Rightarrow> u64 \<Rightarrow> bool" where
  "unmapped_write val mem q c \<longleftrightarrow>
     mem = (\<lambda>_. None) \<and> pipe_ok q \<and> pipe_contents q = [] \<and> odd (unat c) \<and> even (val EFAULT)"

lemma unmapped_write_step:
  assumes "unmapped_write val mem q c"
  shows "c \<noteq> 0" and "pipe_write_wait t nonblock evs q c = Some (Inr (q, evs))"
    and "pipe_write_ring q mem buf c = (Inl EFAULT, wake_readers q)"
    and "unmapped_write val mem (wake_readers q) (c + word_of_nat (val EFAULT))"
proof -
  note a = assms [unfolded unmapped_write_def]
  show "c \<noteq> 0" using a by auto
  show "pipe_write_wait t nonblock evs q c = Some (Inr (q, evs))"
    using a pipe_room_available [of q] by (simp add: pipe_write_wait_def pipe_room_def PIPE_SIZE_def minimum_write_def)
  have "rb_read_available (ring q) = 0"
    using a length_rb_contents [of "ring q"] by (simp add: pipe_contents_def)
  then show "pipe_write_ring q mem buf c = (Inl EFAULT, wake_readers q)"
    using a ringbuffer_write_unmapped [of "ring q" "unat c" "unat buf"]
    by (simp add: pipe_write_ring_def pipe_ok_def PIPE_SIZE_def odd_pos)
  show "unmapped_write val mem (wake_readers q) (c + word_of_nat (val EFAULT))"
    using a by (simp add: unmapped_write_def pipe_ok_def pipe_contents_def unat_add_mod_even)
qed

lemma unmapped_write_never_returns:
  assumes "pipe_write_loop val t nonblock mem evs q buf c tot = Some y"
  shows "\<not> unmapped_write val mem q c"
proof (rule pipe_write_loop.raw_induct [where P = "\<lambda>val t nonblock mem evs q buf c tot y. \<not> unmapped_write val mem q c",
      OF _ assms], rule notI)
  fix loop val t nonblock mem evs q buf c tot y
  assume IH: "\<And>val t nonblock mem evs q buf c tot y. loop val t nonblock mem evs q buf c tot = Some y \<Longrightarrow>
      \<not> unmapped_write val mem q c"
    and body: "(if c = 0 then Some (pipe_finish 0 tot, q)
      else (case pipe_write_wait t nonblock evs q c of
              None \<Rightarrow> None
            | Some (Inl (e, p1)) \<Rightarrow> Some (pipe_finish (- int (val e)) tot, p1)
            | Some (Inr (p1, evs1)) \<Rightarrow>
                (case pipe_write_ring p1 mem buf c of
                   (r, p2) \<Rightarrow>
                     loop val t nonblock mem evs1 p2 (buf + word_of_int (ssize val r))
                       (c - word_of_int (ssize val r)) (tot + ssize val r)))) = Some y"
    and a: "unmapped_write val mem q c"
  note st = unmapped_write_step [OF a]
  show False
    using body st IH by (simp add: ssize_def)
qed

lemma pipe_write_fault_hangs:
  assumes "pipe_ok p" and "pipe_contents p = []" and "\<not> isbroken p" and "odd (unat count)" and "even (val EFAULT)"
  shows "pipe_raw_write val t nonblock (\<lambda>_. None) evs p buffer count = None"
proof (rule ccontr)
  assume "pipe_raw_write val t nonblock (\<lambda>_. None) evs p buffer count \<noteq> None"
  then obtain y where "pipe_write_loop val t nonblock (\<lambda>_. None) evs p buffer count 0 = Some y"
    using assms(3) by (auto simp: pipe_raw_write_def)
  from unmapped_write_never_returns [OF this] assms show False by (simp add: unmapped_write_def)
qed

text \<open>A failing creation leaks: the structure when there is no ring buffer, the ring buffer when there
  is no descriptor.\<close>

lemma pipe_create_leaks:
  "pipe_create True (\<lambda>_. None) rd wr = (Inl ENOMEM, {PipeStruct})"
  "pipe_create True (\<lambda>n. Some (replicate n 0)) False wr = (Inl ENOMEM, {PipeRing})"
  by (simp_all add: pipe_create_def ringbuffer_init_def)

lemma pipe_create_ok:
  assumes "pipe_create True kmalloc True True = (Inr p, blocks)" and "\<And>n xs. kmalloc n = Some xs \<Longrightarrow> length xs = n"
  shows "pipe_ok p \<and> pipe_contents p = [] \<and> \<not> isbroken p"
  using assms by (auto simp: pipe_create_def ringbuffer_init_def pipe_ok_def rb_ok_def pipe_contents_def
      rb_contents_def window_def PIPE_SIZE_def split: option.splits)

end
