(* ===== verification/Tty.thy ===== *)
theory Tty
  imports Ringbuf Locks
begin

section \<open>Terminals\<close>

text \<open>
  Models \<^verbatim>\<open>kernel/drivers/tty.c\<close>: output processing, the line discipline, reading and writing, the
  settings and the control of sessions. The flag words of \<^verbatim>\<open>struct termios\<close> are sets of named flags
  (their bits are constants of the ABI headers) and a control character is the value it is promoted to
  when the code compares it with a \<^verbatim>\<open>char\<close>. The driver below is a record of functions over a
  state of its own. Every operation holds the lock of the terminal; where it lets go of it to send a
  signal it keeps nothing of the state, so that the other tasks run as if before or after it.
\<close>

datatype iflag = INLCR | IGNCR | ICRNL | IUCLC | ISTRIP | IMAXBEL
datatype oflag = OPOST | OLCUC | ONLCR | OCRNL | ONOCR | ONLRET
datatype lflag = ISIG | ICANON | ECHO | ECHOE | ECHOK | ECHONL | ECHOCTL | IEXTEN
datatype cflag = CS8
datatype cc = VEOF | VEOL | VERASE | VINTR | VKILL | VQUIT | VSUSP | VMIN
datatype tty_signal = SIGINT | SIGQUIT | SIGTSTP | SIGWINCH | SIGCONT | SIGHUP

record termios =
  c_iflag :: "iflag set"
  c_oflag :: "oflag set"
  c_lflag :: "lflag set"
  c_cflag :: "cflag set"
  c_cc :: "cc \<Rightarrow> int"

text \<open>The terminal; \<open>dev\<close> is the state of its driver and \<open>sent\<close> the signals sent to groups so far.\<close>

record 'd tty =
  input_buffer :: ringbuffer
  reader_queue :: "task list"
  writer_queue :: "task list"
  canon_buf :: "byte list"
  termios :: termios
  winsize :: "byte list"
  column :: u64
  canon_index :: nat
  fg_group :: "nat option"
  session :: "nat option"
  lines_count :: nat
  lines_len :: "nat list"
  unplugged :: bool
  dev :: 'd
  sent :: "(nat option \<times> tty_signal) list"

record 'd tty_ops =
  ops_out :: "'d \<Rightarrow> byte list \<Rightarrow> int \<times> 'd"
  ops_update_termios :: "('d \<Rightarrow> termios \<Rightarrow> int \<times> 'd) option"

subsection \<open>Output\<close>

text \<open>The end of \<^verbatim>\<open>tty_output\<close>, once the character is translated.\<close>

definition tty_emit :: "'d tty_ops \<Rightarrow> 'd tty \<Rightarrow> byte \<Rightarrow> int \<times> 'd tty" where
  "tty_emit ops t c =
     (let fl = c_oflag (termios t) in
      if OPOST \<in> fl \<and> ONOCR \<in> fl \<and> c = 13 \<and> column t = 0 then (0, t)
      else (let t1 = (if c = 13 \<or> (c = 10 \<and> ONLRET \<in> fl) then t\<lparr>column := 0\<rparr> else t\<lparr>column := column t + 1\<rparr>)
            in (case ops_out ops (dev t1) [c] of (ret, d) \<Rightarrow> (ret, t1\<lparr>dev := d\<rparr>))))"

function tty_output :: "'d tty_ops \<Rightarrow> 'd tty \<Rightarrow> byte \<Rightarrow> int \<times> 'd tty" where
  "tty_output ops t c0 =
     (let fl = c_oflag (termios t); post = OPOST \<in> fl;
          c1 = (if post \<and> OLCUC \<in> fl \<and> 97 \<le> sint c0 \<and> sint c0 \<le> 122 then c0 + (65 - 97) else c0);
          t1 = (if post \<and> ONLCR \<in> fl \<and> c1 = 10 then snd (tty_output ops t 13) else t);
          c2 = (if post \<and> OCRNL \<in> fl \<and> c1 = 13 then 10 else c1)
      in tty_emit ops t1 c2)"
  by pat_completeness auto
termination
proof (relation "measure (\<lambda>(ops, t, c). if c = 10 then 1 else 0)")
  fix ops :: "'d tty_ops" and t :: "'d tty" and c0 :: byte and fl post c1
  assume c1: "c1 = (if post \<and> OLCUC \<in> fl \<and> 97 \<le> sint c0 \<and> sint c0 \<le> 122 then c0 + (65 - 97) else c0)"
    and nl: "post \<and> ONLCR \<in> fl \<and> c1 = 10"
  have "c0 = 10"
  proof (cases "97 \<le> sint c0 \<and> sint c0 \<le> 122 \<and> c0 + (65 - 97) = 10")
    case True
    then have "c0 = 42" by (simp add: eq_diff_eq [symmetric])
    with True show ?thesis by simp
  qed (use c1 nl in \<open>auto split: if_splits\<close>)
  then show "((ops, t, 13), ops, t, c0) \<in> measure (\<lambda>(ops, t, c). if c = 10 then 1 else 0)" by simp
qed simp

declare tty_output.simps [simp del]

definition tty_max_bell :: "'d tty_ops \<Rightarrow> 'd tty \<Rightarrow> int \<times> 'd tty" where
  "tty_max_bell ops t = (if IMAXBEL \<in> c_iflag (termios t) then tty_output ops t 7 else (0, t))"

subsection \<open>The line discipline\<close>

definition tty_wake_readers :: "'d tty \<Rightarrow> 'd tty" where
  "tty_wake_readers t = t\<lparr>reader_queue := snd (wakeup_queue (reader_queue t) 0)\<rparr>"

definition tty_wake_writers :: "'d tty \<Rightarrow> 'd tty" where
  "tty_wake_writers t = t\<lparr>writer_queue := snd (wakeup_queue (writer_queue t) 0)\<rparr>"

text \<open>\<open>rb_put\<close> is \<^verbatim>\<open>ringbuffer_write\<close> from a kernel buffer, which does not fault.\<close>

definition tty_canon_send_line :: "'d tty_ops \<Rightarrow> 'd tty \<Rightarrow> 'd tty" where
  "tty_canon_send_line ops t =
     (case rb_put (input_buffer t) (take (canon_index t) (canon_buf t)) of
        (ret, r) \<Rightarrow>
          (let t1 = t\<lparr>input_buffer := r\<rparr>;
               t2 = (if ret < canon_index t1 then snd (tty_max_bell ops t1) else t1)
           in if lines_count t2 \<ge> 256 then snd (tty_max_bell ops t2)
              else tty_wake_readers (t2\<lparr>lines_len := (lines_len t2)[lines_count t2 := ret],
                                         lines_count := lines_count t2 + 1, canon_index := 0\<rparr>)))"

definition tty_has_lflag :: "'d tty \<Rightarrow> lflag set \<Rightarrow> bool" where
  "tty_has_lflag t flags \<longleftrightarrow> c_lflag (termios t) \<inter> flags = flags"

text \<open>\<^verbatim>\<open>iscntrl\<close> of the C locale.\<close>

definition iscntrl :: "byte \<Rightarrow> bool" where
  "iscntrl c \<longleftrightarrow> (0 \<le> sint c \<and> sint c < 32) \<or> c = 127"

definition tty_outputs :: "'d tty_ops \<Rightarrow> 'd tty \<Rightarrow> byte list \<Rightarrow> 'd tty" where
  "tty_outputs ops t cs = fold (\<lambda>c t. snd (tty_output ops t c)) cs t"

definition tty_erase :: "'d tty_ops \<Rightarrow> 'd tty \<Rightarrow> byte \<Rightarrow> int \<times> 'd tty" where
  "tty_erase ops t c =
     (let t1 = (if iscntrl c \<and> tty_has_lflag t {ECHOCTL} then tty_outputs ops t [8, 32, 8] else t)
      in (0, tty_outputs ops t1 [8, 32, 8]))"

definition canon_at :: "'d tty \<Rightarrow> nat \<Rightarrow> byte kres" where
  "canon_at t n = (if 0 < n \<and> n \<le> length (canon_buf t) then Inr (canon_buf t ! (n - 1)) else Inl KOutOfBounds)"

definition tty_echo :: "'d tty_ops \<Rightarrow> 'd tty \<Rightarrow> byte \<Rightarrow> (int \<times> 'd tty) kres" where
  "tty_echo ops t c =
     (let cc = c_cc (termios t) in
      if c = 10 \<and> tty_has_lflag t {ECHONL, ICANON} then Inr (tty_output ops t c)
      else if tty_has_lflag t {ECHO}
      then (if c = 10 \<or> c = 9 then Inr (tty_output ops t c)
            else if sint c = cc VERASE \<and> tty_has_lflag t {ECHOE, ICANON}
            then kbind (canon_at t (canon_index t)) (\<lambda>b. Inr (tty_erase ops t b))
            else if sint c = cc VKILL \<and> tty_has_lflag t {ECHOK, ICANON}
            then (if canon_index t > 0 then kbind (canon_at t (canon_index t)) (\<lambda>b. Inr (tty_erase ops t b))
                  else Inr (0, t))
            else if iscntrl c \<and> tty_has_lflag t {ECHOCTL}
            then Inr (tty_output ops (snd (tty_output ops t 94)) (c + 65 - 1))
            else Inr (tty_output ops t c))
      else Inr (0, t))"

text \<open>The translation at the head of \<^verbatim>\<open>tty_input\<close>; \<open>None\<close> is an ignored character.\<close>

definition tty_translate :: "iflag set \<Rightarrow> byte \<Rightarrow> byte option" where
  "tty_translate fl c =
     (let c1 = (if INLCR \<in> fl \<and> c = 10 then 13 else c) in
      if IGNCR \<in> fl \<and> c1 = 13 then None
      else (let c2 = (if ICRNL \<in> fl \<and> c1 = 13 then 10 else c1);
                c3 = (if IUCLC \<in> fl \<and> 65 \<le> sint c2 \<and> sint c2 \<le> 90 then c2 + (97 - 65) else c2)
            in Some (if ISTRIP \<in> fl then and c3 0x7F else c3)))"

definition signal_send_group :: "'d tty \<Rightarrow> tty_signal \<Rightarrow> 'd tty" where
  "signal_send_group t sig = t\<lparr>sent := sent t @ [(fg_group t, sig)]\<rparr>"

definition tty_signal_of :: "'d tty \<Rightarrow> byte \<Rightarrow> tty_signal option" where
  "tty_signal_of t c =
     (let cc = c_cc (termios t) in
      if ISIG \<notin> c_lflag (termios t) then None
      else if sint c = cc VINTR then Some SIGINT
      else if sint c = cc VQUIT then Some SIGQUIT
      else if sint c = cc VSUSP then Some SIGTSTP
      else None)"

definition tty_canon_input :: "'d tty_ops \<Rightarrow> 'd tty \<Rightarrow> byte \<Rightarrow> 'd tty kres" where
  "tty_canon_input ops t c =
     (let cc = c_cc (termios t) in
      if cc VERASE = sint c
      then (if canon_index t > 0
            then kbind (tty_echo ops t c) (\<lambda>(_, t1). Inr (t1\<lparr>canon_index := canon_index t1 - 1\<rparr>))
            else Inr t)
      else if cc VKILL = sint c then kbind (tty_echo ops t c) (\<lambda>(_, t1). Inr (t1\<lparr>canon_index := 0\<rparr>))
      else if cc VEOF = sint c then Inr (tty_canon_send_line ops t)
      else kbind (if canon_index t \<ge> 512 then Inr (tty_max_bell ops t)
                  else tty_echo ops (t\<lparr>canon_buf := (canon_buf t)[canon_index t := c],
                                       canon_index := canon_index t + 1\<rparr>) c)
             (\<lambda>(_, t1). Inr (if c = 10 \<or> sint c = cc VEOL then tty_canon_send_line ops t1 else t1)))"

definition tty_input :: "'d tty_ops \<Rightarrow> 'd tty \<Rightarrow> byte \<Rightarrow> 'd tty kres" where
  "tty_input ops t c0 =
     (case tty_translate (c_iflag (termios t)) c0 of
        None \<Rightarrow> Inr t
      | Some c \<Rightarrow>
          (case tty_signal_of t c of
             Some sig \<Rightarrow> kbind (tty_echo ops t c) (\<lambda>(_, t1). Inr (signal_send_group t1 sig))
           | None \<Rightarrow>
               if ICANON \<in> c_lflag (termios t) then tty_canon_input ops t c
               else kbind (tty_echo ops t c)
                      (\<lambda>(_, t1). case rb_put (input_buffer t1) [c] of
                         (n, r) \<Rightarrow> (let t2 = t1\<lparr>input_buffer := r\<rparr> in
                                    Inr (if n = 0 then snd (tty_max_bell ops t2) else tty_wake_readers t2)))))"

fun tty_raw_add_input :: "'d tty_ops \<Rightarrow> 'd tty \<Rightarrow> byte list \<Rightarrow> (nat \<times> 'd tty) kres" where
  "tty_raw_add_input ops t [] = Inr (0, t)"
| "tty_raw_add_input ops t (c # cs) =
     kbind (tty_input ops t c) (\<lambda>t1. kbind (tty_raw_add_input ops t1 cs) (\<lambda>(n, t2). Inr (n + 1, t2)))"

subsection \<open>Reading, writing and polling\<close>

definition tty_vmin :: "'d tty \<Rightarrow> nat" where
  "tty_vmin t = nat (c_cc (termios t) VMIN mod 2 ^ 64)"

definition tty_end_read_sleep :: "'d tty \<Rightarrow> bool" where
  "tty_end_read_sleep t \<longleftrightarrow>
     unplugged t \<or>
     (if ICANON \<in> c_lflag (termios t) then lines_count t > 0
      else ringbuffer_read_available (input_buffer t) \<ge> tty_vmin t)"

text \<open>\<^verbatim>\<open>memmove\<close> of the remaining line lengths to the front.\<close>

definition lines_shift :: "nat \<Rightarrow> nat list \<Rightarrow> nat list" where
  "lines_shift cnt ls = take cnt (drop 1 ls) @ drop cnt ls"

definition tty_queue_reader :: "task \<Rightarrow> 'd tty \<Rightarrow> 'd tty" where
  "tty_queue_reader k t = t\<lparr>reader_queue := sleep_add_to_queue (reader_queue t) k\<rparr>"

definition tty_unqueue_reader :: "task \<Rightarrow> 'd tty \<Rightarrow> 'd tty" where
  "tty_unqueue_reader k t = t\<lparr>reader_queue := sleep_remove_from_queue (reader_queue t) k\<rparr>"

definition tty_read_line :: "'d tty \<Rightarrow> umem \<Rightarrow> nat \<Rightarrow> nat \<Rightarrow> (errno + nat) \<times> 'd tty \<times> umem" where
  "tty_read_line t mem buffer count0 =
     (let count = (if count0 > lines_len t ! 0 then lines_len t ! 0 else count0) in
      case ringbuffer_read (input_buffer t) mem buffer count of
        (Inl e, r, mem') \<Rightarrow> (Inl e, t\<lparr>input_buffer := r\<rparr>, mem')
      | (Inr ret, r, mem') \<Rightarrow>
          (let t1 = t\<lparr>input_buffer := r, lines_len := (lines_len t)[0 := lines_len t ! 0 - ret]\<rparr>;
               t2 = (if lines_len t1 ! 0 = 0
                     then t1\<lparr>lines_count := lines_count t1 - 1, lines_len := lines_shift (lines_count t1 - 1) (lines_len t1)\<rparr>
                     else t1)
           in (Inr ret, tty_wake_writers t2, mem')))"

definition tty_take_input :: "'d tty \<Rightarrow> umem \<Rightarrow> nat \<Rightarrow> nat \<Rightarrow> (errno + nat) \<times> 'd tty \<times> umem" where
  "tty_take_input t mem buffer count =
     (if ICANON \<in> c_lflag (termios t)
      then (if lines_count t = 0 then (if unplugged t then (Inr 0, t, mem) else (Inl EAGAIN, t, mem))
            else tty_read_line t mem buffer count)
      else (if ringbuffer_read_available (input_buffer t) < tty_vmin t
            then (if unplugged t then (Inr 0, t, mem) else (Inl EAGAIN, t, mem))
            else (case ringbuffer_read (input_buffer t) mem buffer count of
                    (Inl e, r, mem') \<Rightarrow> (Inl e, t\<lparr>input_buffer := r\<rparr>, mem')
                  | (Inr ret, r, mem') \<Rightarrow> (Inr ret, tty_wake_writers (t\<lparr>input_buffer := r\<rparr>), mem'))))"

definition tty_raw_read ::
    "task \<Rightarrow> bool \<Rightarrow> 'd tty schedule \<Rightarrow> 'd tty \<Rightarrow> umem \<Rightarrow> nat \<Rightarrow> nat \<Rightarrow> ((errno + nat) \<times> 'd tty \<times> umem) option" where
  "tty_raw_read k nonblock evs t mem buffer count =
     (if \<not> nonblock
      then (case sleep_on_queue_lock_interruptible tty_end_read_sleep (tty_queue_reader k) (tty_unqueue_reader k) evs t of
              None \<Rightarrow> None
            | Some (False, t1, _) \<Rightarrow> Some (Inl EINTR, t1, mem)
            | Some (True, t1, _) \<Rightarrow> Some (tty_take_input t1 mem buffer count))
      else Some (tty_take_input t mem buffer count))"

text \<open>The inner loop of \<^verbatim>\<open>tty_raw_write\<close> with the last return value.\<close>

fun tty_output_all :: "'d tty_ops \<Rightarrow> 'd tty \<Rightarrow> int \<Rightarrow> byte list \<Rightarrow> int \<times> 'd tty" where
  "tty_output_all ops t ret [] = (ret, t)"
| "tty_output_all ops t ret (c # cs) =
     (case tty_output ops t c of (r, t1) \<Rightarrow> if r < 0 then (r, t1) else tty_output_all ops t1 r cs)"

function tty_write_loop :: "'d tty_ops \<Rightarrow> umem \<Rightarrow> 'd tty \<Rightarrow> nat \<Rightarrow> nat \<Rightarrow> int \<Rightarrow> nat \<Rightarrow> (errno + int) \<times> nat \<times> 'd tty" where
  "tty_write_loop ops mem t buffer count ret tot =
     (if count = 0 then (Inr ret, tot, t)
      else (let w = (if 128 < count then 128 else count) in
            case safe_copy_from (replicate 128 0) 0 mem buffer w of
              (False, _) \<Rightarrow> (Inl EFAULT, tot, t)
            | (True, kbuf) \<Rightarrow>
                (case tty_output_all ops t 0 (take w kbuf) of
                   (ret1, t1) \<Rightarrow> tty_write_loop ops mem t1 (buffer + w) (count - w) ret1 (tot + w))))"
  by pat_completeness auto
termination
  by (relation "measure (\<lambda>(ops, mem, t, buffer, count, ret, tot). count)") auto

declare tty_write_loop.simps [simp del]

definition tty_raw_write :: "'d tty_ops \<Rightarrow> umem \<Rightarrow> 'd tty \<Rightarrow> nat \<Rightarrow> nat \<Rightarrow> (errno + int) \<times> 'd tty" where
  "tty_raw_write ops mem t buffer count =
     (case tty_write_loop ops mem t buffer count 0 0 of
        (Inl e, tot, t') \<Rightarrow> (if tot = 0 then Inl e else Inr (int tot), t')
      | (Inr ret, tot, t') \<Rightarrow> (Inr (if ret < 0 \<and> tot = 0 then ret else int tot), t'))"

definition tty_poll_add :: "task \<Rightarrow> 'd tty \<Rightarrow> 'd tty" where
  "tty_poll_add k t = (if \<not> unplugged t then tty_queue_reader k t else t)"

definition tty_poll_remove :: "task \<Rightarrow> 'd tty \<Rightarrow> 'd tty" where
  "tty_poll_remove k t = tty_unqueue_reader k t"

definition tty_poll_get :: "'d tty \<Rightarrow> poll_flag set \<Rightarrow> poll_flag set" where
  "tty_poll_get t revents =
     revents \<union> (if unplugged t then {POLLHUP} else {})
       \<union> (if ICANON \<in> c_lflag (termios t) then (if lines_count t > 0 then {POLLIN} else {})
          else (if ringbuffer_read_available (input_buffer t) \<ge> tty_vmin t then {POLLIN} else {}))
       \<union> {POLLOUT}"

subsection \<open>Settings\<close>

definition tty_termios_update :: "'d tty_ops \<Rightarrow> 'd tty \<Rightarrow> termios \<Rightarrow> int \<times> 'd tty" where
  "tty_termios_update ops t new =
     (let (ret, t1) = (case ops_update_termios ops of
                         None \<Rightarrow> (0, t)
                       | Some f \<Rightarrow> (case f (dev t) new of (ret, d) \<Rightarrow> (ret, t\<lparr>dev := d\<rparr>)))
      in if ret < 0 then (ret, t1)
         else (let was = ICANON \<in> c_lflag (termios t1); will = ICANON \<in> c_lflag new;
                   t2 = (if will \<and> \<not> was
                         then (if ringbuffer_read_available (input_buffer t1) > 0
                               then t1\<lparr>lines_len := (lines_len t1)[0 := ringbuffer_read_available (input_buffer t1)],
                                       lines_count := 1, canon_index := 0\<rparr>
                               else t1\<lparr>lines_count := 0, canon_index := 0\<rparr>)
                         else t1);
                   t3 = (if \<not> will \<and> was \<and> canon_index t2 > 0 then tty_canon_send_line ops t2 else t2)
               in (0, tty_wake_readers (t3\<lparr>termios := new\<rparr>))))"

definition default_termios :: termios where
  "default_termios =
     \<lparr>c_iflag = {ICRNL, IMAXBEL}, c_oflag = {OPOST, ONLCR},
      c_lflag = {ECHONL, ECHOK, ECHOE, ECHOCTL, ECHO, ICANON, IEXTEN, ISIG}, c_cflag = {CS8},
      c_cc = (\<lambda>k. case k of VEOF \<Rightarrow> 4 | VEOL \<Rightarrow> 0 | VERASE \<Rightarrow> 127 | VINTR \<Rightarrow> 3 | VKILL \<Rightarrow> 21 | VQUIT \<Rightarrow> 28
                  | VSUSP \<Rightarrow> 26 | VMIN \<Rightarrow> 1)\<rparr>"

definition tty_register :: "(nat \<Rightarrow> byte list option) \<Rightarrow> (errno + unit) \<Rightarrow> nat \<Rightarrow> 'd tty \<Rightarrow> (errno + unit) \<times> 'd tty" where
  "tty_register kmalloc registered winsize_len t =
     (case ringbuffer_init kmalloc 4096 of
        Inl e \<Rightarrow> (Inl e, t)
      | Inr r \<Rightarrow>
          (registered, t\<lparr>input_buffer := r, termios := default_termios, winsize := replicate winsize_len 0, canon_index := 0\<rparr>))"

subsection \<open>Sessions and control requests\<close>

text \<open>The terminals by identity, the terminal each session points to, the references to terminals and to
  process groups, and the sessions whose leader was sent \<^verbatim>\<open>SIGHUP\<close>. Releasing the last
  reference, which frees the object, is left to its owner.\<close>

record 'd ttys =
  tty_at :: "nat \<Rightarrow> 'd tty"
  session_tty :: "nat \<Rightarrow> nat option"
  tty_refs :: "nat \<Rightarrow> nat"
  group_refs :: "nat \<Rightarrow> nat"
  hangups :: "nat list"

definition tty_upd :: "'d ttys \<Rightarrow> nat \<Rightarrow> ('d tty \<Rightarrow> 'd tty) \<Rightarrow> 'd ttys" where
  "tty_upd w i f = w\<lparr>tty_at := (tty_at w)(i := f (tty_at w i))\<rparr>"

definition process_group_release :: "'d ttys \<Rightarrow> nat option \<Rightarrow> 'd ttys" where
  "process_group_release w g =
     (case g of None \<Rightarrow> w | Some k \<Rightarrow> w\<lparr>group_refs := (group_refs w)(k := group_refs w k - 1)\<rparr>)"

definition process_group_ref :: "'d ttys \<Rightarrow> nat \<Rightarrow> 'd ttys" where
  "process_group_ref w k = w\<lparr>group_refs := (group_refs w)(k := group_refs w k + 1)\<rparr>"

definition tty_raw_set_session :: "'d ttys \<Rightarrow> nat \<Rightarrow> nat option \<Rightarrow> 'd ttys kres" where
  "tty_raw_set_session w i s =
     (if session (tty_at w i) = s
      then (case s of None \<Rightarrow> Inr w | Some k \<Rightarrow> if session_tty w k = Some i then Inr w else Inl KPanic)
      else (let old = session (tty_at w i);
                w1 = tty_upd w i (\<lambda>t. t\<lparr>session := s\<rparr>);
                w2 = (case s of
                        None \<Rightarrow> w1
                      | Some k \<Rightarrow> w1\<lparr>session_tty := (session_tty w1)(k \<mapsto> i), tty_refs := (tty_refs w1)(i := tty_refs w1 i + 1)\<rparr>)
            in (case old of
                  None \<Rightarrow> Inr w2
                | Some o' \<Rightarrow>
                    (let w3 = tty_upd w2 i (\<lambda>t. signal_send_group (signal_send_group t SIGCONT) SIGHUP)
                     in Inr (w3\<lparr>session_tty := (session_tty w3)(o' := None),
                                tty_refs := (tty_refs w3)(i := tty_refs w3 i - 1)\<rparr>)))))"

definition tty_destroy :: "'d ttys \<Rightarrow> nat \<Rightarrow> 'd ttys kres" where
  "tty_destroy w i =
     (let w1 = (case session (tty_at w i) of None \<Rightarrow> w | Some k \<Rightarrow> w\<lparr>hangups := hangups w @ [k]\<rparr>);
          w2 = tty_upd w1 i (\<lambda>t. t\<lparr>unplugged := True\<rparr>)
      in kbind (tty_raw_set_session w2 i None)
           (\<lambda>w3. let old_group = fg_group (tty_at w3 i);
                     w4 = tty_upd w3 i (\<lambda>t. tty_wake_writers (tty_wake_readers (t\<lparr>fg_group := None\<rparr>)))
                 in Inr (process_group_release w4 old_group)))"

definition tty_set_fg_group :: "'d ttys \<Rightarrow> nat \<Rightarrow> nat option \<Rightarrow> 'd ttys" where
  "tty_set_fg_group w i g =
     (let old = fg_group (tty_at w i); w1 = tty_upd w i (\<lambda>t. t\<lparr>fg_group := g\<rparr>)
      in process_group_release w1 old)"

text \<open>The calling process, and the requests with what their argument points to: \<open>None\<close> is a pointer
  that cannot be read; for \<^verbatim>\<open>TIOCSETA\<close> the second argument is what the uninitialised local
  holds. \<open>group_session\<close> gives the session of a process group.\<close>

record tty_caller =
  cur_pid :: nat
  cur_sid :: nat
  cur_pgid :: nat
  cur_root :: bool

datatype tty_request =
    TIOCGETA bool | TIOCSETA "termios option" termios | TIOCGPGRP bool | TIOCSPGRP "nat option"
  | TIOCSWINSZ nat | TIOCGWINSZ nat | TIOCSCTTY bool | TIOCNOTTY | OtherRequest

datatype tty_reply = Done int | GotTermios termios | GotPgid nat

definition tty_do_raw_ioctl ::
    "'d tty_ops \<Rightarrow> (nat \<Rightarrow> nat option) \<Rightarrow> (errno + int) \<Rightarrow> tty_caller \<Rightarrow> 'd ttys \<Rightarrow> umem \<Rightarrow> nat \<Rightarrow> tty_request
      \<Rightarrow> ((errno + tty_reply) \<times> 'd ttys \<times> umem) kres" where
  "tty_do_raw_ioctl ops group_session other me w mem i req =
     (let t = tty_at w i in
      case req of
        TIOCGETA writable \<Rightarrow> Inr (if writable then Inr (GotTermios (termios t)) else Inl EFAULT, w, mem)
      | TIOCSETA arg garbage \<Rightarrow>
          (let new = (case arg of Some tm \<Rightarrow> tm | None \<Rightarrow> garbage) in
           case tty_termios_update ops t new of (ret, t1) \<Rightarrow> Inr (Inr (Done ret), tty_upd w i (\<lambda>_. t1), mem))
      | TIOCGPGRP writable \<Rightarrow>
          Inr (if writable then Inr (GotPgid (case fg_group t of Some g \<Rightarrow> g | None \<Rightarrow> 1)) else Inl EFAULT, w, mem)
      | TIOCSPGRP arg \<Rightarrow>
          (case arg of
             None \<Rightarrow> Inr (Inl EFAULT, w, mem)
           | Some pgid \<Rightarrow>
               (case group_session pgid of
                  None \<Rightarrow> Inr (Inl ESRCH, w, mem)
                | Some sid \<Rightarrow>
                    (let w1 = process_group_ref w pgid in
                     if Some sid \<noteq> session t then Inr (Inl EPERM, process_group_release w1 (Some pgid), mem)
                     else Inr (Inr (Done 0), tty_set_fg_group w1 i (Some pgid), mem))))
      | TIOCSWINSZ a \<Rightarrow>
          (case safe_copy_from (winsize t) 0 mem a (length (winsize t)) of
             (False, b) \<Rightarrow> Inr (Inl EFAULT, tty_upd w i (\<lambda>t. t\<lparr>winsize := b\<rparr>), mem)
           | (True, b) \<Rightarrow>
               Inr (Inr (Done 0), tty_upd w i (\<lambda>t. signal_send_group (t\<lparr>winsize := b\<rparr>) SIGWINCH), mem))
      | TIOCGWINSZ a \<Rightarrow>
          (case safe_copy_to mem a (winsize t) 0 (length (winsize t)) of
             (False, mem') \<Rightarrow> Inr (Inl EFAULT, w, mem')
           | (True, mem') \<Rightarrow> Inr (Inr (Done 0), w, mem'))
      | TIOCSCTTY steal \<Rightarrow>
          (if cur_pid me \<noteq> cur_sid me \<or> (session t \<noteq> None \<and> (\<not> steal \<or> \<not> cur_root me))
           then Inr (Inl EPERM, w, mem)
           else kbind (tty_raw_set_session w i (Some (cur_sid me)))
                  (\<lambda>w1. Inr (Inr (Done 0), tty_set_fg_group (process_group_ref w1 (cur_pgid me)) i (Some (cur_pgid me)), mem)))
      | TIOCNOTTY \<Rightarrow>
          (if session t \<noteq> Some (cur_sid me) \<and> \<not> cur_root me then Inr (Inl EPERM, w, mem)
           else kbind (tty_raw_set_session w i None) (\<lambda>w1. Inr (Inr (Done 0), w1, mem)))
      | OtherRequest \<Rightarrow>
          Inr (case other of Inl e \<Rightarrow> Inl e | Inr ret \<Rightarrow> Inr (Done ret), w, mem))"

subsection \<open>What output leaves alone\<close>

definition out_frame :: "'d tty \<Rightarrow> 'd tty \<Rightarrow> bool" where
  "out_frame t t' \<longleftrightarrow> t'\<lparr>column := column t, dev := dev t\<rparr> = t"

lemma out_frame_refl [simp]: "out_frame t t"
  by (cases t) (simp add: out_frame_def)

lemma out_frame_if: "(c \<Longrightarrow> out_frame t t') \<Longrightarrow> out_frame t (if c then t' else t)"
  by simp

lemma out_frame_trans: "out_frame t t1 \<Longrightarrow> out_frame t1 t2 \<Longrightarrow> out_frame t t2"
  by (cases t, cases t1, cases t2) (simp add: out_frame_def)

lemma out_frame_fields:
  assumes "out_frame t t'"
  shows "input_buffer t' = input_buffer t" "canon_buf t' = canon_buf t" "termios t' = termios t"
    "canon_index t' = canon_index t" "lines_count t' = lines_count t" "lines_len t' = lines_len t"
    "unplugged t' = unplugged t" "fg_group t' = fg_group t" "session t' = session t" "sent t' = sent t"
    "reader_queue t' = reader_queue t" "writer_queue t' = writer_queue t" "winsize t' = winsize t"
  using assms by (cases t, cases t', simp add: out_frame_def)+

lemma tty_emit_frame: "out_frame t (snd (tty_emit ops t c))"
  by (cases t) (simp add: tty_emit_def out_frame_def Let_def split: prod.splits)

lemma tty_output_frame: "out_frame t (snd (tty_output ops t c))"
proof (induction ops t c rule: tty_output.induct)
  case (1 ops t c0)
  let ?fl = "c_oflag (termios t)"
  let ?c1 = "if OPOST \<in> ?fl \<and> OLCUC \<in> ?fl \<and> 97 \<le> sint c0 \<and> sint c0 \<le> 122 then c0 + (65 - 97) else c0"
  let ?t1 = "if OPOST \<in> ?fl \<and> ONLCR \<in> ?fl \<and> ?c1 = 10 then snd (tty_output ops t 13) else t"
  have "out_frame t (snd (tty_output ops t 13))" if "OPOST \<in> ?fl \<and> ONLCR \<in> ?fl \<and> ?c1 = 10"
    using 1 [OF refl refl refl that] .
  then have "out_frame t ?t1" by (rule out_frame_if)
  then show ?case
    by (subst tty_output.simps) (simp only: Let_def, rule out_frame_trans [OF _ tty_emit_frame])
qed

lemma tty_max_bell_frame: "out_frame t (snd (tty_max_bell ops t))"
  by (simp add: tty_max_bell_def tty_output_frame)

lemma tty_outputs_frame: "out_frame t (tty_outputs ops t cs)"
  unfolding tty_outputs_def
  by (induction cs arbitrary: t) (auto intro: out_frame_trans [OF tty_output_frame])

lemma tty_erase_frame: "out_frame t (snd (tty_erase ops t c))"
  by (auto simp: tty_erase_def Let_def intro: out_frame_trans [OF tty_outputs_frame tty_outputs_frame] tty_outputs_frame)

lemma tty_echo_frame: "tty_echo ops t c = Inr (r, t') \<Longrightarrow> out_frame t t'"
  by (auto simp: tty_echo_def Let_def split: if_splits dest!: arg_cong [where f = snd]
      intro: out_frame_trans [OF tty_output_frame tty_output_frame] tty_output_frame tty_erase_frame)

lemma tty_echo_total:
  assumes "canon_index t \<le> length (canon_buf t)"
    and "canon_index t = 0 \<Longrightarrow> sint c \<noteq> c_cc (termios t) VERASE"
  shows "\<exists>r t'. tty_echo ops t c = Inr (r, t') \<and> out_frame t t'"
proof -
  have "\<exists>x. tty_echo ops t c = Inr x"
    using assms by (auto simp: tty_echo_def canon_at_def Let_def)
  then show ?thesis using tty_echo_frame by fastforce
qed

subsection \<open>The invariant\<close>

text \<open>The indices stay in the arrays.\<close>

definition tty_ok :: "'d tty \<Rightarrow> bool" where
  "tty_ok t \<longleftrightarrow> rb_ok (input_buffer t) \<and> length (canon_buf t) = 512 \<and> canon_index t \<le> 512 \<and>
     length (lines_len t) = 256 \<and> lines_count t \<le> 256"

text \<open>No signal character is also the erase character.\<close>

definition erase_apart :: "termios \<Rightarrow> bool" where
  "erase_apart tm \<longleftrightarrow> (ISIG \<in> c_lflag tm \<longrightarrow> c_cc tm VERASE \<notin> {c_cc tm VINTR, c_cc tm VQUIT, c_cc tm VSUSP})"

lemma tty_ok_frame:
  "out_frame t t' \<Longrightarrow> tty_ok t' = tty_ok t"
  by (simp add: tty_ok_def out_frame_fields)

lemma tty_queue_fields [simp]:
  "tty_ok (tty_wake_readers t) = tty_ok t" "tty_ok (tty_wake_writers t) = tty_ok t"
  "tty_ok (tty_queue_reader k t) = tty_ok t" "tty_ok (tty_unqueue_reader k t) = tty_ok t"
  "tty_ok (signal_send_group t sig) = tty_ok t"
  "termios (tty_wake_readers t) = termios t" "termios (tty_wake_writers t) = termios t"
  "termios (signal_send_group t sig) = termios t"
  by (simp_all add: tty_ok_def tty_wake_readers_def tty_wake_writers_def tty_queue_reader_def
      tty_unqueue_reader_def signal_send_group_def)

text \<open>What sending a line changes.\<close>

lemma send_line_fields:
  fixes t :: "'d tty" and ops :: "'d tty_ops"
  assumes "rb_put (input_buffer t) (take (canon_index t) (canon_buf t)) = (n, r)"
  defines "t' \<equiv> tty_canon_send_line ops t"
  shows "input_buffer t' = r" "canon_buf t' = canon_buf t" "termios t' = termios t"
    "lines_count t' = (if lines_count t \<ge> 256 then lines_count t else lines_count t + 1)"
    "lines_len t' = (if lines_count t \<ge> 256 then lines_len t else (lines_len t)[lines_count t := n])"
    "canon_index t' = (if lines_count t \<ge> 256 then canon_index t else 0)"
    "unplugged t' = unplugged t" "sent t' = sent t"
proof -
  let ?t1 = "t\<lparr>input_buffer := r\<rparr>"
  define t2 where "t2 = (if n < canon_index ?t1 then snd (tty_max_bell ops ?t1) else ?t1)"
  have "out_frame ?t1 t2" by (simp add: t2_def tty_max_bell_frame)
  note f2 = out_frame_fields [OF this]
  note f3 = out_frame_fields [OF tty_max_bell_frame [of t2 ops]]
  have t': "t' = (if lines_count t2 \<ge> 256 then snd (tty_max_bell ops t2)
      else tty_wake_readers (t2\<lparr>lines_len := (lines_len t2)[lines_count t2 := n],
                                 lines_count := lines_count t2 + 1, canon_index := 0\<rparr>))"
    unfolding t'_def tty_canon_send_line_def assms(1) t2_def by (simp only: prod.case Let_def)
  show "input_buffer t' = r" "canon_buf t' = canon_buf t" "termios t' = termios t"
    "lines_count t' = (if lines_count t \<ge> 256 then lines_count t else lines_count t + 1)"
    "lines_len t' = (if lines_count t \<ge> 256 then lines_len t else (lines_len t)[lines_count t := n])"
    "canon_index t' = (if lines_count t \<ge> 256 then canon_index t else 0)"
    "unplugged t' = unplugged t" "sent t' = sent t"
    by (simp_all add: t' f2 f3 tty_wake_readers_def)
qed

lemma sum_take_update:
  fixes ls :: "nat list"
  assumes "k < length ls"
  shows "sum_list (take (Suc k) (ls[k := n])) = sum_list (take k ls) + n"
  using assms by (simp add: take_Suc_conv_app_nth)

lemma tty_send_line_ok:
  assumes "tty_ok t"
  shows "tty_ok (tty_canon_send_line ops t)"
proof -
  obtain n r where p: "rb_put (input_buffer t) (take (canon_index t) (canon_buf t)) = (n, r)" by fastforce
  have rb: "rb_ok (input_buffer t)" using assms by (simp add: tty_ok_def)
  note law = rb_put_law [OF rb p]
  show ?thesis using assms law by (simp add: tty_ok_def send_line_fields [OF p])
qed

lemma tty_send_line_termios [simp]: "termios (tty_canon_send_line ops t) = termios t"
  by (cases "rb_put (input_buffer t) (take (canon_index t) (canon_buf t))") (simp add: send_line_fields)

lemma tty_canon_input_ok:
  assumes ok: "tty_ok t"
  shows "\<exists>t'. tty_canon_input ops t c = Inr t' \<and> tty_ok t' \<and> termios t' = termios t"
proof -
  let ?cc = "c_cc (termios t)"
  let ?t1 = "t\<lparr>canon_buf := (canon_buf t)[canon_index t := c], canon_index := canon_index t + 1\<rparr>"
  have ci: "canon_index t \<le> length (canon_buf t)" using ok by (simp add: tty_ok_def)
  have echo: "\<exists>r t1. tty_echo ops t c = Inr (r, t1) \<and> out_frame t t1 \<and> tty_ok t1"
    if "canon_index t = 0 \<Longrightarrow> sint c \<noteq> ?cc VERASE"
    using tty_echo_total [OF ci that] tty_ok_frame ok by blast
  have shrink: "tty_ok (t1\<lparr>canon_index := k\<rparr>)" if "tty_ok t1" "k \<le> canon_index t1" for t1 :: "'a tty" and k
    using that by (simp add: tty_ok_def)
  consider "?cc VERASE = sint c" | "?cc VERASE \<noteq> sint c" "?cc VKILL = sint c"
    | "?cc VERASE \<noteq> sint c" "?cc VKILL \<noteq> sint c" "?cc VEOF = sint c"
    | "?cc VERASE \<noteq> sint c" "?cc VKILL \<noteq> sint c" "?cc VEOF \<noteq> sint c"
    by blast
  then show ?thesis
  proof cases
    case 4
    have "\<exists>r t2. (if canon_index t \<ge> 512 then Inr (tty_max_bell ops t) else tty_echo ops ?t1 c) = Inr (r, t2) \<and>
        tty_ok t2 \<and> termios t2 = termios t"
    proof (cases "canon_index t \<ge> 512")
      case True
      then show ?thesis
        using tty_max_bell_frame [of t ops] ok tty_ok_frame out_frame_fields(3) by (metis prod.collapse)
    next
      case False
      have ok1: "tty_ok ?t1" using ok False by (simp add: tty_ok_def)
      obtain r t2 where t2: "tty_echo ops ?t1 c = Inr (r, t2)" "out_frame ?t1 t2"
        using tty_echo_total [of ?t1 c ops] ok1 by (auto simp: tty_ok_def)
      have "tty_ok t2" "termios t2 = termios t"
        using ok1 tty_ok_frame [OF t2(2)] out_frame_fields(3) [OF t2(2)] by simp_all
      with False t2(1) show ?thesis by simp
    qed
    then obtain r t2 where x: "(if canon_index t \<ge> 512 then Inr (tty_max_bell ops t) else tty_echo ops ?t1 c) = Inr (r, t2)"
      and t2: "tty_ok t2" "termios t2 = termios t" by blast
    have "tty_canon_input ops t c = Inr (if c = 10 \<or> sint c = ?cc VEOL then tty_canon_send_line ops t2 else t2)"
      using 4 unfolding tty_canon_input_def Let_def x by (simp only: if_False kbind_Inr prod.case)
    with t2 show ?thesis by (simp add: tty_send_line_ok)
  qed (use echo ok in \<open>auto simp: tty_canon_input_def Let_def tty_send_line_ok out_frame_fields intro!: shrink\<close>)
qed

lemma tty_input_ok:
  assumes ok: "tty_ok t" and "erase_apart (termios t)"
  shows "\<exists>t'. tty_input ops t c = Inr t' \<and> tty_ok t' \<and> termios t' = termios t"
proof (cases "tty_translate (c_iflag (termios t)) c")
  case None
  with ok show ?thesis by (simp add: tty_input_def)
next
  case (Some d)
  have ci: "canon_index t \<le> length (canon_buf t)" using ok by (simp add: tty_ok_def)
  show ?thesis
  proof (cases "tty_signal_of t d = None \<and> ICANON \<in> c_lflag (termios t)")
    case True
    with Some tty_canon_input_ok [OF ok] show ?thesis by (simp add: tty_input_def)
  next
    case False
    have echo: "\<exists>r t1. tty_echo ops t d = Inr (r, t1) \<and> out_frame t t1"
    proof (cases "sint d = c_cc (termios t) VERASE")
      case True
      with False assms(2) have "ICANON \<notin> c_lflag (termios t)"
        by (auto simp: tty_signal_of_def erase_apart_def Let_def split: if_splits)
      then have "\<exists>x. tty_echo ops t d = Inr x" by (auto simp: tty_echo_def tty_has_lflag_def Let_def)
      then show ?thesis using tty_echo_frame by fastforce
    qed (use tty_echo_total [OF ci] in blast)
    then obtain r t1 where t1: "tty_echo ops t d = Inr (r, t1)" "out_frame t t1" by blast
    have ok1: "tty_ok t1" "termios t1 = termios t" using t1(2) ok tty_ok_frame out_frame_fields(3) by blast+
    show ?thesis
    proof (cases "tty_signal_of t d")
      case None
      obtain n rb where p: "rb_put (input_buffer t1) [d] = (n, rb)" by fastforce
      let ?t2 = "t1\<lparr>input_buffer := rb\<rparr>"
      have "tty_ok ?t2" using ok1(1) rb_put_law [OF _ p] by (simp add: tty_ok_def)
      then have "tty_ok (snd (tty_max_bell ops ?t2))" "termios (snd (tty_max_bell ops ?t2)) = termios t"
        using tty_ok_frame [OF tty_max_bell_frame [of ?t2 ops]] out_frame_fields(3) [OF tty_max_bell_frame [of ?t2 ops]]
          ok1 by simp_all
      with None Some False t1 p ok1 \<open>tty_ok ?t2\<close> show ?thesis by (simp add: tty_input_def Let_def)
    qed (use Some t1 ok1 in \<open>simp add: tty_input_def\<close>)
  qed
qed

lemma tty_take_input_ok:
  assumes ok: "tty_ok t" and r: "tty_take_input t mem buffer count = (ret, t', mem')"
  shows "tty_ok t' \<and> termios t' = termios t"
proof -
  have rb: "rb_ok (input_buffer t)" and len: "length (lines_len t) = 256" "lines_count t \<le> 256"
    using ok by (simp_all add: tty_ok_def)
  have keeps: "rb_ok r'" if "ringbuffer_read (input_buffer t) mem buffer k = (res, r', m)" for k res r' m
    using ringbuffer_read_spec [OF rb refl that] by simp
  have shift: "length (lines_shift k ls) = length ls" if "k < length ls" for k and ls :: "nat list"
    using that by (simp add: lines_shift_def)
  have line: "tty_ok t' \<and> termios t' = termios t"
    if "tty_read_line t mem buffer count = (ret, t', mem')" "lines_count t > 0"
  proof -
    let ?c = "if count > lines_len t ! 0 then lines_len t ! 0 else count"
    obtain res r' m where rd: "ringbuffer_read (input_buffer t) mem buffer ?c = (res, r', m)" by (metis prod_cases3)
    show ?thesis
      using that ok len shift [of "lines_count t - Suc 0"] keeps [OF rd] unfolding tty_read_line_def Let_def rd
      by (cases res) (auto simp: tty_ok_def tty_wake_writers_def)
  qed
  obtain res r' m where rd: "ringbuffer_read (input_buffer t) mem buffer count = (res, r', m)" by (metis prod_cases3)
  show ?thesis
  proof (cases "ICANON \<in> c_lflag (termios t)")
    case True
    with r line ok show ?thesis by (auto simp: tty_take_input_def split: if_splits)
  next
    case False
    with r ok keeps [OF rd] rd show ?thesis
      by (cases res) (auto simp: tty_take_input_def tty_ok_def tty_wake_writers_def split: if_splits)
  qed
qed

lemma tty_termios_update_ok:
  assumes ok: "tty_ok t" and "tty_termios_update ops t new = (ret, t')"
  shows "tty_ok t' \<and> termios t' = (if ret < 0 then termios t else new)"
proof -
  obtain ret1 t1 where d: "(case ops_update_termios ops of None \<Rightarrow> (0, t)
      | Some f \<Rightarrow> (case f (dev t) new of (ret, d) \<Rightarrow> (ret, t\<lparr>dev := d\<rparr>))) = (ret1, t1)"
    by fastforce
  have ok1: "tty_ok t1" "termios t1 = termios t" using d ok by (auto simp: tty_ok_def split: option.splits prod.splits)
  have set: "tty_ok (tty_wake_readers (t2\<lparr>termios := new\<rparr>))" "termios (tty_wake_readers (t2\<lparr>termios := new\<rparr>)) = new"
    if "tty_ok t2" for t2 :: "'a tty"
    using that by (simp_all add: tty_ok_def tty_wake_readers_def)
  let ?av = "ringbuffer_read_available (input_buffer t1)"
  have enter: "tty_ok (t1\<lparr>lines_len := (lines_len t1)[0 := ?av], lines_count := 1, canon_index := 0\<rparr>)"
    "tty_ok (t1\<lparr>lines_count := 0, canon_index := 0\<rparr>)"
    using ok1(1) by (simp_all add: tty_ok_def)
  define t2 where "t2 = (if ICANON \<in> c_lflag new \<and> ICANON \<notin> c_lflag (termios t1)
      then (if ?av > 0 then t1\<lparr>lines_len := (lines_len t1)[0 := ?av], lines_count := 1, canon_index := 0\<rparr>
            else t1\<lparr>lines_count := 0, canon_index := 0\<rparr>) else t1)"
  define t3 where "t3 = (if ICANON \<notin> c_lflag new \<and> ICANON \<in> c_lflag (termios t1) \<and> canon_index t2 > 0
      then tty_canon_send_line ops t2 else t2)"
  have "tty_ok t2" using enter ok1(1) by (simp add: t2_def)
  then have "tty_ok t3" by (simp add: t3_def tty_send_line_ok)
  have "(ret, t') = (if ret1 < 0 then (ret1, t1) else (0, tty_wake_readers (t3\<lparr>termios := new\<rparr>)))"
    using assms(2) unfolding tty_termios_update_def d t3_def t2_def by (simp only: Let_def prod.case)
  then show ?thesis using set [OF \<open>tty_ok t3\<close>] ok1 by (simp split: if_splits)
qed

text \<open>The operations other tasks and interrupts perform on a terminal, in any order.\<close>

datatype tty_op =
    Typed "byte list" | Taken umem nat nat | Printed umem nat nat | Configured termios | Hung

fun tty_run :: "'d tty_ops \<Rightarrow> 'd tty \<Rightarrow> tty_op list \<Rightarrow> 'd tty kres" where
  "tty_run ops t [] = Inr t"
| "tty_run ops t (Typed cs # xs) = kbind (tty_raw_add_input ops t cs) (\<lambda>(_, t1). tty_run ops t1 xs)"
| "tty_run ops t (Taken mem buffer count # xs) =
     (case tty_take_input t mem buffer count of (_, t1, _) \<Rightarrow> tty_run ops t1 xs)"
| "tty_run ops t (Printed mem buffer count # xs) =
     (case tty_raw_write ops mem t buffer count of (_, t1) \<Rightarrow> tty_run ops t1 xs)"
| "tty_run ops t (Configured tm # xs) = (case tty_termios_update ops t tm of (_, t1) \<Rightarrow> tty_run ops t1 xs)"
| "tty_run ops t (Hung # xs) = tty_run ops (t\<lparr>unplugged := True\<rparr>) xs"

lemma tty_add_input_ok:
  assumes "tty_ok t" and "erase_apart (termios t)"
  shows "\<exists>t'. tty_raw_add_input ops t cs = Inr (length cs, t') \<and> tty_ok t' \<and> termios t' = termios t"
  using assms
proof (induction cs arbitrary: t)
  case (Cons c cs)
  obtain t1 where t1: "tty_input ops t c = Inr t1" "tty_ok t1" "termios t1 = termios t"
    using tty_input_ok [OF Cons.prems] by blast
  with Cons obtain t2 where "tty_raw_add_input ops t1 cs = Inr (length cs, t2)" "tty_ok t2" "termios t2 = termios t"
    by metis
  with t1 show ?case by simp
qed simp

lemma tty_output_all_frame: "out_frame t (snd (tty_output_all ops t ret cs))"
proof (induction cs arbitrary: t ret)
  case (Cons c cs)
  obtain r t1 where o1: "tty_output ops t c = (r, t1)" by fastforce
  then have "out_frame t t1" using tty_output_frame [of t ops c] by simp
  then show ?case using o1 out_frame_trans [OF _ Cons.IH [of t1 r]] by simp
qed simp

lemma tty_write_loop_frame: "out_frame t (snd (snd (tty_write_loop ops mem t buffer count ret tot)))"
proof (induction ops mem t buffer count ret tot rule: tty_write_loop.induct)
  case (1 ops mem t buffer count ret tot)
  show ?case
  proof (cases "count = 0")
    case True
    then show ?thesis by (subst tty_write_loop.simps) simp
  next
    case False
    define w where "w = (if 128 < count then 128 else count)"
    obtain b kbuf where c: "safe_copy_from (replicate 128 0) 0 mem buffer w = (b, kbuf)" by fastforce
    obtain ret1 t1 where o1: "tty_output_all ops t 0 (take w kbuf) = (ret1, t1)" by fastforce
    have t1: "out_frame t t1" using tty_output_all_frame [of t ops 0 "take w kbuf"] o1 by simp
    show ?thesis
    proof (cases b)
      case True
      from 1 [OF False w_def c [symmetric] eqTrueI [OF True] o1 [symmetric]]
      have "out_frame t1 (snd (snd (tty_write_loop ops mem t1 (buffer + w) (count - w) ret1 (tot + w))))" .
      from out_frame_trans [OF t1 this] False True show ?thesis
        by (subst tty_write_loop.simps) (simp only: Let_def c o1 prod.case bool.case if_False flip: w_def)
    next
      case b: False
      with False show ?thesis
        by (subst tty_write_loop.simps) (simp add: Let_def c flip: w_def)
    qed
  qed
qed

lemma tty_raw_write_frame: "out_frame t (snd (tty_raw_write ops mem t buffer count))"
  using tty_write_loop_frame [of t ops mem buffer count 0 0]
  by (auto simp: tty_raw_write_def split: prod.splits sum.splits)

lemma tty_run_ok:
  assumes "tty_ok t" and "erase_apart (termios t)" and "\<forall>tm. Configured tm \<in> set xs \<longrightarrow> erase_apart tm"
  shows "\<exists>t'. tty_run ops t xs = Inr t' \<and> tty_ok t'"
  using assms
proof (induction xs arbitrary: t)
  case (Cons x xs)
  note IH = Cons.IH and ok = Cons.prems(1,2)
  have rest: "\<forall>tm. Configured tm \<in> set xs \<longrightarrow> erase_apart tm" using Cons.prems(3) by simp
  show ?case
  proof (cases x)
    case (Typed cs)
    obtain t1 where "tty_raw_add_input ops t cs = Inr (length cs, t1)" "tty_ok t1" "termios t1 = termios t"
      using tty_add_input_ok [OF ok] by blast
    with Typed IH [of t1] ok rest show ?thesis by simp
  next
    case (Taken mem buffer count)
    obtain ret t1 m where r: "tty_take_input t mem buffer count = (ret, t1, m)" by (metis prod_cases3)
    with tty_take_input_ok [OF ok(1) r] Taken IH [of t1] ok rest show ?thesis by simp
  next
    case (Printed mem buffer count)
    obtain ret t1 where r: "tty_raw_write ops mem t buffer count = (ret, t1)" by fastforce
    have fr: "out_frame t t1" using tty_raw_write_frame [of t ops mem buffer count] r by simp
    with tty_ok_frame [OF fr] out_frame_fields(3) [OF fr] r Printed IH [of t1] ok rest show ?thesis by simp
  next
    case (Configured tm)
    obtain ret t1 where r: "tty_termios_update ops t tm = (ret, t1)" by fastforce
    have "erase_apart tm" using Cons.prems(3) Configured by simp
    with tty_termios_update_ok [OF ok(1) r] r Configured IH [of t1] ok rest show ?thesis by (auto split: if_splits)
  next
    case Hung
    have "tty_ok (t\<lparr>unplugged := True\<rparr>)" using ok(1) by (simp add: tty_ok_def)
    with Hung IH [of "t\<lparr>unplugged := True\<rparr>"] ok rest show ?thesis by simp
  qed
qed simp

subsection \<open>The line discipline as an editor of lines\<close>

text \<open>The abstract state is the line being edited and the lines that wait. It describes the terminal
  exactly as long as the lengths account for all the bytes in the ring buffer.\<close>

fun chop :: "nat list \<Rightarrow> byte list \<Rightarrow> byte list list" where
  "chop [] xs = []"
| "chop (n # ns) xs = take n xs # chop ns (drop n xs)"

definition tty_cur :: "'d tty \<Rightarrow> byte list" where
  "tty_cur t = take (canon_index t) (canon_buf t)"

definition tty_lines :: "'d tty \<Rightarrow> byte list list" where
  "tty_lines t = chop (take (lines_count t) (lines_len t)) (rb_contents (input_buffer t))"

definition tty_exact :: "'d tty \<Rightarrow> bool" where
  "tty_exact t \<longleftrightarrow> sum_list (take (lines_count t) (lines_len t)) = rb_read_available (input_buffer t)"

definition line_step :: "termios \<Rightarrow> byte \<Rightarrow> byte list \<times> byte list list \<Rightarrow> byte list \<times> byte list list" where
  "line_step tm c s =
     (case s of (cur, ls) \<Rightarrow>
        if sint c = c_cc tm VERASE then (butlast cur, ls)
        else if sint c = c_cc tm VKILL then ([], ls)
        else if sint c = c_cc tm VEOF then ([], ls @ [cur])
        else if c = 10 \<or> sint c = c_cc tm VEOL then ([], ls @ [cur @ [c]])
        else (cur @ [c], ls))"

definition signal_char :: "termios \<Rightarrow> byte \<Rightarrow> bool" where
  "signal_char tm c \<longleftrightarrow> ISIG \<in> c_lflag tm \<and> sint c \<in> {c_cc tm VINTR, c_cc tm VQUIT, c_cc tm VSUSP}"

definition line_type :: "termios \<Rightarrow> byte list \<times> byte list list \<Rightarrow> byte \<Rightarrow> byte list \<times> byte list list" where
  "line_type tm s c0 =
     (case tty_translate (c_iflag tm) c0 of
        None \<Rightarrow> s
      | Some c \<Rightarrow> if signal_char tm c then s else line_step tm c s)"

text \<open>There is room for \<open>k\<close> more characters.\<close>

definition tty_room :: "'d tty \<Rightarrow> nat \<Rightarrow> bool" where
  "tty_room t k \<longleftrightarrow> canon_index t + k \<le> 512 \<and> lines_count t + k \<le> 256 \<and>
     rb_read_available (input_buffer t) + canon_index t + k \<le> rb_buffer_size (input_buffer t)"

lemma chop_append: "sum_list ns = length xs \<Longrightarrow> chop (ns @ ms) (xs @ ys) = chop ns xs @ chop ms ys"
  by (induction ns arbitrary: xs) auto

lemma concat_chop: "sum_list ns = length xs \<Longrightarrow> concat (chop ns xs) = xs"
  by (induction ns arbitrary: xs) auto

definition same_lines :: "'d tty \<Rightarrow> 'd tty \<Rightarrow> bool" where
  "same_lines t t' \<longleftrightarrow> input_buffer t' = input_buffer t \<and> lines_count t' = lines_count t \<and> lines_len t' = lines_len t \<and>
     canon_index t' = canon_index t \<and> canon_buf t' = canon_buf t"

lemma same_lines_abs:
  "same_lines t t' \<Longrightarrow> tty_cur t' = tty_cur t \<and> tty_lines t' = tty_lines t \<and> tty_exact t' = tty_exact t \<and>
     tty_room t' = tty_room t"
  by (simp add: same_lines_def tty_cur_def tty_lines_def tty_exact_def tty_room_def fun_eq_iff)

lemma out_frame_same_lines: "out_frame t t' \<Longrightarrow> same_lines t t'"
  by (simp add: same_lines_def out_frame_fields)

lemma tty_send_line_refines:
  fixes t :: "'d tty" and ops :: "'d tty_ops"
  assumes ok: "tty_ok t" and ex: "tty_exact t" and lc: "lines_count t < 256"
    and room: "rb_read_available (input_buffer t) + canon_index t \<le> rb_buffer_size (input_buffer t)"
  defines "t' \<equiv> tty_canon_send_line ops t"
  shows "tty_cur t' = []" and "tty_lines t' = tty_lines t @ [tty_cur t]" and "tty_exact t'"
    and "lines_count t' = lines_count t + 1" and "canon_index t' = 0"
    and "rb_read_available (input_buffer t') = rb_read_available (input_buffer t) + canon_index t"
    and "rb_buffer_size (input_buffer t') = rb_buffer_size (input_buffer t)"
proof -
  obtain n r where p: "rb_put (input_buffer t) (take (canon_index t) (canon_buf t)) = (n, r)" by fastforce
  have rb: "rb_ok (input_buffer t)" and ci: "length (tty_cur t) = canon_index t"
    and ll: "lines_count t < length (lines_len t)"
    using ok lc by (simp_all add: tty_ok_def tty_cur_def)
  note law = rb_put_law [OF rb p [folded tty_cur_def]]
  have n: "n = canon_index t" using law ci room by simp
  have c: "rb_contents r = rb_contents (input_buffer t) @ tty_cur t" using law n ci by simp
  note f = send_line_fields [OF p, of ops, folded t'_def]
  have pre: "take (lines_count t + 1) ((lines_len t)[lines_count t := n]) = take (lines_count t) (lines_len t) @ [n]"
    using ll by (simp add: take_Suc_conv_app_nth)
  show "tty_cur t' = []" "lines_count t' = lines_count t + 1" "canon_index t' = 0"
    "rb_buffer_size (input_buffer t') = rb_buffer_size (input_buffer t)"
    using f lc law by (simp_all add: tty_cur_def)
  show av: "rb_read_available (input_buffer t') = rb_read_available (input_buffer t) + canon_index t"
    using rb_put_available [OF rb p] n f by simp
  show "tty_lines t' = tty_lines t @ [tty_cur t]"
    using f lc pre c ex n ci by (simp add: tty_lines_def tty_exact_def chop_append)
  show "tty_exact t'" using f lc pre ex av n by (simp add: tty_exact_def)
qed

lemma tty_send_line_room:
  assumes "tty_ok t" and "tty_exact t" and "lines_count t + k < 256"
    and "rb_read_available (input_buffer t) + canon_index t + k \<le> rb_buffer_size (input_buffer t)"
  shows "(tty_cur (tty_canon_send_line ops t), tty_lines (tty_canon_send_line ops t)) = ([], tty_lines t @ [tty_cur t]) \<and>
    tty_exact (tty_canon_send_line ops t) \<and> (k \<le> 512 \<longrightarrow> tty_room (tty_canon_send_line ops t) k)"
  using tty_send_line_refines [of t ops] assms by (simp add: tty_room_def)

lemma tty_edit_refines:
  assumes "tty_ok t" and "tty_exact t" and "tty_room t k" and "j \<le> canon_index t" and "same_lines t t1"
  shows "tty_cur (t1\<lparr>canon_index := j\<rparr>) = take j (tty_cur t) \<and> tty_lines (t1\<lparr>canon_index := j\<rparr>) = tty_lines t \<and>
    tty_exact (t1\<lparr>canon_index := j\<rparr>) \<and> tty_room (t1\<lparr>canon_index := j\<rparr>) k"
  using assms by (simp add: same_lines_def tty_cur_def tty_lines_def tty_exact_def tty_room_def min_def)

lemma tty_canon_char_refines:
  assumes ok: "tty_ok t" and ex: "tty_exact t" and room: "tty_room t (Suc k)"
    and inp: "tty_canon_input ops t c = Inr t'"
    and c: "c_cc (termios t) VERASE \<noteq> sint c" "c_cc (termios t) VKILL \<noteq> sint c" "c_cc (termios t) VEOF \<noteq> sint c"
  shows "(tty_cur t', tty_lines t') = line_step (termios t) c (tty_cur t, tty_lines t) \<and> tty_exact t' \<and> tty_room t' k"
proof -
  let ?t1 = "t\<lparr>canon_buf := (canon_buf t)[canon_index t := c], canon_index := canon_index t + 1\<rparr>"
  have ci: "canon_index t < 512" "canon_index t < length (canon_buf t)"
    using room ok by (simp_all add: tty_room_def tty_ok_def)
  have t1: "tty_ok ?t1" "tty_exact ?t1" "tty_cur ?t1 = tty_cur t @ [c]" "tty_lines ?t1 = tty_lines t"
    "tty_room ?t1 k"
    using ok ex ci room by (simp_all add: tty_ok_def tty_exact_def tty_cur_def tty_lines_def tty_room_def
        take_Suc_conv_app_nth)
  obtain r t2 where e: "tty_echo ops ?t1 c = Inr (r, t2)"
    and t': "t' = (if c = 10 \<or> sint c = c_cc (termios t) VEOL then tty_canon_send_line ops t2 else t2)"
    using inp c ci(1) unfolding tty_canon_input_def Let_def by auto
  have fr: "out_frame ?t1 t2" using tty_echo_frame [OF e] .
  note s2 = same_lines_abs [OF out_frame_same_lines [OF fr]] and ok2 = tty_ok_frame [OF fr]
  have send: "(tty_cur (tty_canon_send_line ops t2), tty_lines (tty_canon_send_line ops t2)) = ([], tty_lines t2 @ [tty_cur t2]) \<and>
    tty_exact (tty_canon_send_line ops t2) \<and> (k \<le> 512 \<longrightarrow> tty_room (tty_canon_send_line ops t2) k)"
    by (rule tty_send_line_room) (use s2 ok2 t1 room out_frame_fields [OF fr] in \<open>simp_all add: tty_room_def\<close>)
  have "k \<le> 512" using room by (simp add: tty_room_def)
  then show ?thesis using c t' s2 send t1 by (simp add: line_step_def)
qed

lemma tty_canon_input_refines:
  assumes ok: "tty_ok t" and ex: "tty_exact t" and room: "tty_room t (Suc k)"
    and inp: "tty_canon_input ops t c = Inr t'"
  shows "(tty_cur t', tty_lines t') = line_step (termios t) c (tty_cur t, tty_lines t) \<and> tty_exact t' \<and> tty_room t' k"
proof -
  let ?cc = "c_cc (termios t)"
  have roomk: "tty_room t k" using room by (simp add: tty_room_def)
  have len: "length (tty_cur t) = canon_index t" using ok by (simp add: tty_cur_def tty_ok_def)
  have echo: "\<exists>r t1. t' = t1\<lparr>canon_index := j t1\<rparr> \<and> same_lines t t1"
    if "kbind (tty_echo ops t c) (\<lambda>(_, t1). Inr (t1\<lparr>canon_index := j t1\<rparr>)) = Inr t'" for j
    using that tty_echo_frame out_frame_same_lines by fastforce
  consider "?cc VERASE = sint c" "canon_index t = 0" | "?cc VERASE = sint c" "canon_index t > 0"
    | "?cc VERASE \<noteq> sint c" "?cc VKILL = sint c"
    | "?cc VERASE \<noteq> sint c" "?cc VKILL \<noteq> sint c" "?cc VEOF = sint c"
    | "?cc VERASE \<noteq> sint c" "?cc VKILL \<noteq> sint c" "?cc VEOF \<noteq> sint c"
    by blast
  then show ?thesis
  proof cases
    case 1
    with inp ex roomk len show ?thesis by (simp add: tty_canon_input_def Let_def line_step_def)
  next
    case 2
    then obtain t1 where "t' = t1\<lparr>canon_index := canon_index t1 - 1\<rparr>" "same_lines t t1"
      using inp echo [of "\<lambda>t1. canon_index t1 - 1"] by (auto simp: tty_canon_input_def Let_def)
    with 2 tty_edit_refines [OF ok ex roomk, of "canon_index t - 1" t1] len show ?thesis
      by (simp add: line_step_def same_lines_def butlast_conv_take)
  next
    case 3
    then obtain t1 where "t' = t1\<lparr>canon_index := 0\<rparr>" "same_lines t t1"
      using inp echo [of "\<lambda>_. 0"] by (auto simp: tty_canon_input_def Let_def)
    with 3 tty_edit_refines [OF ok ex roomk, of 0 t1] show ?thesis by (simp add: line_step_def)
  next
    case 4
    then have "t' = tty_canon_send_line ops t" using inp by (simp add: tty_canon_input_def Let_def)
    with 4 tty_send_line_room [OF ok ex, of k ops] room show ?thesis by (simp add: line_step_def tty_room_def)
  next
    case 5
    then show ?thesis using tty_canon_char_refines [OF ok ex room inp] by blast
  qed
qed

lemma signal_char_iff: "tty_signal_of t c = None \<longleftrightarrow> \<not> signal_char (termios t) c"
  by (auto simp: tty_signal_of_def signal_char_def Let_def)

lemma tty_input_refines:
  assumes ok: "tty_ok t" and ex: "tty_exact t" and room: "tty_room t (Suc k)"
    and canon: "ICANON \<in> c_lflag (termios t)" and inp: "tty_input ops t c0 = Inr t'"
  shows "(tty_cur t', tty_lines t') = line_type (termios t) (tty_cur t, tty_lines t) c0 \<and> tty_exact t' \<and> tty_room t' k"
proof -
  have roomk: "tty_room t k" using room by (simp add: tty_room_def)
  show ?thesis
  proof (cases "tty_translate (c_iflag (termios t)) c0")
    case None
    with inp ex roomk show ?thesis by (simp add: tty_input_def line_type_def)
  next
    case (Some c)
    show ?thesis
    proof (cases "tty_signal_of t c")
      case None
      with Some canon inp have "tty_canon_input ops t c = Inr t'" by (simp add: tty_input_def)
      from tty_canon_input_refines [OF ok ex room this] Some None show ?thesis
        by (simp add: line_type_def signal_char_iff)
    next
      case (Some sig)
      then obtain r t1 where t1: "tty_echo ops t c = Inr (r, t1)" "t' = signal_send_group t1 sig"
        using \<open>tty_translate (c_iflag (termios t)) c0 = Some c\<close> inp by (auto simp: tty_input_def)
      have "same_lines t t'"
        using out_frame_same_lines [OF tty_echo_frame [OF t1(1)]] t1(2) by (simp add: same_lines_def signal_send_group_def)
      moreover have "signal_char (termios t) c" using signal_char_iff [of t c] Some by simp
      ultimately show ?thesis
        using same_lines_abs [of t t'] ex roomk \<open>tty_translate (c_iflag (termios t)) c0 = Some c\<close>
        by (simp add: line_type_def)
    qed
  qed
qed

lemma tty_typing_refines:
  assumes "tty_ok t" and "tty_exact t" and "tty_room t (length cs)" and "ICANON \<in> c_lflag (termios t)"
    and "erase_apart (termios t)"
  shows "\<exists>t'. tty_raw_add_input ops t cs = Inr (length cs, t') \<and> tty_ok t' \<and> tty_exact t' \<and> termios t' = termios t \<and>
    (tty_cur t', tty_lines t') = foldl (line_type (termios t)) (tty_cur t, tty_lines t) cs"
  using assms
proof (induction cs arbitrary: t)
  case (Cons c cs)
  obtain t1 where t1: "tty_input ops t c = Inr t1" "tty_ok t1" "termios t1 = termios t"
    using tty_input_ok [OF Cons.prems(1,5)] by blast
  have r: "(tty_cur t1, tty_lines t1) = line_type (termios t) (tty_cur t, tty_lines t) c \<and> tty_exact t1 \<and> tty_room t1 (length cs)"
    by (rule tty_input_refines [OF Cons.prems(1,2) _ Cons.prems(4) t1(1)]) (use Cons.prems(3) in simp)
  obtain t2 where "tty_raw_add_input ops t1 cs = Inr (length cs, t2)" "tty_ok t2" "tty_exact t2" "termios t2 = termios t"
    "(tty_cur t2, tty_lines t2) = foldl (line_type (termios t)) (tty_cur t1, tty_lines t1) cs"
    using Cons.IH [of t1] t1 r Cons.prems by metis
  with t1 r show ?case by simp
qed simp

text \<open>Reading takes the first line, or the front of it.\<close>

lemma tty_read_line_step:
  assumes ll: "lines_len t = n # xs" "lines_count t = Suc k" "k \<le> length xs"
    and rr: "ringbuffer_read (input_buffer t) mem buffer (min count n) = (Inr m, r', mm)"
    and rd: "tty_read_line t mem buffer count = (ret, t', mem')"
  shows "ret = Inr m \<and> mem' = mm \<and> input_buffer t' = r' \<and>
    take (lines_count t') (lines_len t') = (if n - m = 0 then take k xs else (n - m) # take k xs)"
proof -
  have c: "(if count > lines_len t ! 0 then lines_len t ! 0 else count) = min count n" using ll(1) by simp
  show ?thesis
    using rd ll unfolding tty_read_line_def c Let_def rr
    by (cases "n - m = 0") (auto simp: tty_wake_writers_def lines_shift_def)
qed

lemma tty_read_refines:
  assumes ok: "tty_ok t" and ex: "tty_exact t" and canon: "ICANON \<in> c_lflag (termios t)"
    and lines: "tty_lines t = l # ls" and rd: "readable mem buffer (min count (length l))"
    and r: "tty_take_input t mem buffer count = (ret, t', mem')"
  shows "ret = Inr (min count (length l)) \<and> ubytes mem' buffer (min count (length l)) = take count l \<and>
    tty_exact t' \<and> tty_lines t' = (if length l \<le> count then ls else drop count l # ls)"
proof -
  let ?c = "rb_contents (input_buffer t)"
  obtain k where k: "lines_count t = Suc k" using lines by (cases "lines_count t") (simp_all add: tty_lines_def)
  obtain n xs where nx: "lines_len t = n # xs" using ok by (cases "lines_len t") (auto simp: tty_ok_def)
  have kl: "k \<le> length xs" using ok k nx by (simp add: tty_ok_def)
  have sum: "n + sum_list (take k xs) = length ?c" using ex k nx by (simp add: tty_exact_def)
  have l: "l = take n ?c" "ls = chop (take k xs) (drop n ?c)" using lines k nx by (simp_all add: tty_lines_def)
  have len: "length l = n" using l sum by simp
  define m where "m = min count n"
  have line: "tty_read_line t mem buffer count = (ret, t', mem')" using r canon k by (simp add: tty_take_input_def)
  obtain res r' mm where rr: "ringbuffer_read (input_buffer t) mem buffer m = (res, r', mm)" by (metis prod_cases3)
  have mn: "m = min m (rb_read_available (input_buffer t))" using sum by (simp add: m_def)
  have spec: "res = Inr m" "rb_contents r' = drop m ?c" "ubytes mm buffer m = take m ?c"
    using ringbuffer_read_spec [OF _ mn rr] ok rd len by (auto simp: tty_ok_def m_def)
  have av: "rb_read_available r' = length ?c - m" using length_rb_contents [of r'] spec(2) by simp
  note out = tty_read_line_step [OF nx k kl rr [unfolded m_def spec(1)] line]
  have take_l: "take count l = take m ?c" using l len by (simp add: m_def min_def)
  show ?thesis
  proof (cases "n \<le> count")
    case True
    then have "m = n" by (simp add: m_def)
    with out spec len take_l l av sum True show ?thesis by (simp add: tty_exact_def tty_lines_def)
  next
    case False
    then have "m = count" "n - m \<noteq> 0" by (simp_all add: m_def)
    with out spec len take_l l av sum False show ?thesis
      by (simp add: tty_exact_def tty_lines_def drop_take)
  qed
qed

subsection \<open>Properties\<close>


definition ex_tty :: "unit tty" where
  "ex_tty = \<lparr>input_buffer = \<lparr>rb_buffer = replicate 4096 0, rb_write_offset = 0, rb_read_offset = 0,
       rb_buffer_size = 4096, rb_read_available = 0\<rparr>,
     reader_queue = [], writer_queue = [], canon_buf = replicate 512 0, termios = default_termios, winsize = [],
     column = 0, canon_index = 0, fg_group = None, session = None, lines_count = 0, lines_len = replicate 256 0,
     unplugged = False, dev = (), sent = []\<rparr>"

definition ex_tty_ops :: "unit tty_ops" where
  "ex_tty_ops = \<lparr>ops_out = (\<lambda>d _. (1, d)), ops_update_termios = None\<rparr>"

lemma ex_tty_facts: "tty_ok ex_tty" "tty_exact ex_tty" "tty_room ex_tty 3" "erase_apart (termios ex_tty)"
  "ICANON \<in> c_lflag (termios ex_tty)" "tty_cur ex_tty = []" "tty_lines ex_tty = []" "termios ex_tty = default_termios"
  by (simp_all add: ex_tty_def tty_ok_def rb_ok_def tty_exact_def tty_room_def erase_apart_def default_termios_def
      tty_cur_def tty_lines_def)


text \<open>C8: in canonical mode the terminal is an editor of lines. While there is room, typing any
  characters transforms the line being edited and the lines that wait exactly as the translation, the
  signal, erase, kill, end-of-file and end-of-line characters say; and a read with enough space then
  returns the first waiting line, whole and alone.\<close>

theorem tty_line_discipline:
  assumes "tty_ok t" and "tty_exact t" and "tty_room t (length cs)" and "ICANON \<in> c_lflag (termios t)"
    and "erase_apart (termios t)"
  shows "\<exists>t'. tty_raw_add_input ops t cs = Inr (length cs, t') \<and>
    (tty_cur t', tty_lines t') = foldl (line_type (termios t)) (tty_cur t, tty_lines t) cs \<and>
    (\<forall>l ls mem buffer count ret t'' mem'.
       tty_lines t' = l # ls \<and> length l \<le> count \<and> readable mem buffer (length l) \<and>
       tty_take_input t' mem buffer count = (ret, t'', mem') \<longrightarrow>
       ret = Inr (length l) \<and> ubytes mem' buffer (length l) = l \<and> tty_lines t'' = ls)"
proof -
  obtain t' where t': "tty_raw_add_input ops t cs = Inr (length cs, t')" "tty_ok t'" "tty_exact t'"
    "termios t' = termios t" "(tty_cur t', tty_lines t') = foldl (line_type (termios t)) (tty_cur t, tty_lines t) cs"
    using tty_typing_refines [OF assms] by blast
  have "ret = Inr (length l) \<and> ubytes mem' buffer (length l) = l \<and> tty_lines t'' = ls"
    if "tty_lines t' = l # ls" "length l \<le> count" "readable mem buffer (length l)"
      "tty_take_input t' mem buffer count = (ret, t'', mem')" for l ls mem buffer count ret t'' mem'
    using tty_read_refines [OF t'(2,3) _ that(1) _ that(4)] that(2,3) assms(4) t'(4) by (simp add: min.absorb2)
  with t' show ?thesis by blast
qed

theorem tty_line_discipline_witness:
  "\<exists>t'. tty_raw_add_input ex_tty_ops ex_tty [104, 127, 13] = Inr (3, t') \<and> tty_lines t' = [[10]]"
proof -
  have "foldl (line_type default_termios) ([], []) [104, 127, 13] = ([], [[10]])"
    by (simp add: line_type_def line_step_def tty_translate_def signal_char_def default_termios_def Let_def)
  moreover have "length [104, 127, 13 :: byte] = 3" by simp
  ultimately show ?thesis
    using tty_line_discipline [OF ex_tty_facts(1,2) _ ex_tty_facts(5,4), of "[104, 127, 13]" ex_tty_ops] ex_tty_facts(3,6-8)
    by (simp only: ) (metis prod.inject)
qed

subsection \<open>Where the code departs from what it means\<close>

text \<open>A signal character that is also the erase character, at the start of a line, reads before the line
  buffer.\<close>

lemma tty_echo_before_buffer:
  assumes "{ISIG, ICANON, ECHO, ECHOE} \<subseteq> c_lflag (termios t)" and "c_iflag (termios t) = {}"
    and "c_cc (termios t) VINTR = sint c" "c_cc (termios t) VERASE = sint c" and "canon_index t = 0"
    and "c \<noteq> 10" "c \<noteq> 9"
  shows "tty_input ops t c = Inl KOutOfBounds"
proof -
  have "tty_translate (c_iflag (termios t)) c = Some c" using assms(2) by (simp add: tty_translate_def)
  moreover have "tty_signal_of t c = Some SIGINT" using assms by (simp add: tty_signal_of_def)
  moreover have "tty_has_lflag t {ECHO}" "tty_has_lflag t {ECHOE, ICANON}"
    using assms(1) by (auto simp: tty_has_lflag_def)
  ultimately show ?thesis using assms by (simp add: tty_input_def tty_echo_def canon_at_def Let_def)
qed

text \<open>The kill character clears the line but erases only its last character from the screen.\<close>

lemma tty_kill_echo_one:
  assumes "{ICANON, ECHO, ECHOK} \<subseteq> c_lflag (termios t)" and "c_cc (termios t) VKILL = sint c"
    and "c_cc (termios t) VERASE \<noteq> sint c" and "c \<noteq> 10" "c \<noteq> 9" and "0 < canon_index t" "canon_index t \<le> length (canon_buf t)"
  shows "tty_echo ops t c = Inr (tty_erase ops t (canon_buf t ! (canon_index t - 1)))"
proof -
  have "tty_has_lflag t {ECHO}" "tty_has_lflag t {ECHOK, ICANON}" using assms(1) by (auto simp: tty_has_lflag_def)
  then show ?thesis using assms by (simp add: tty_echo_def canon_at_def Let_def)
qed

text \<open>When 256 lines wait, a completed line enters the ring buffer without an entry in the table and stays
  in the line buffer, so that its bytes are sent again with the next line.\<close>

lemma tty_table_full_repeats:
  assumes "tty_ok t" and "lines_count t = 256"
    and "rb_read_available (input_buffer t) + canon_index t \<le> rb_buffer_size (input_buffer t)"
  shows "rb_contents (input_buffer (tty_canon_send_line ops t)) = rb_contents (input_buffer t) @ tty_cur t \<and>
    tty_cur (tty_canon_send_line ops t) = tty_cur t \<and> lines_count (tty_canon_send_line ops t) = 256"
proof -
  obtain n r where p: "rb_put (input_buffer t) (take (canon_index t) (canon_buf t)) = (n, r)" by fastforce
  have "rb_ok (input_buffer t)" "canon_index t \<le> length (canon_buf t)" using assms(1) by (simp_all add: tty_ok_def)
  with rb_put_law [OF _ p] send_line_fields [OF p, of ops] assms show ?thesis by (simp add: tty_cur_def)
qed

text \<open>Taking a second controlling terminal overwrites the pointer of the session without releasing the
  first one, and asking for the first one again fails an assertion.\<close>

lemma tty_second_terminal_panics:
  assumes "i \<noteq> j" and "session (tty_at w i) = None" and "session (tty_at w j) = None"
    and "cur_pid me = cur_sid me" and "cur_root me"
    and "tty_do_raw_ioctl ops gs other me w mem i (TIOCSCTTY True) = Inr (r1, w1, m1)"
    and "tty_do_raw_ioctl ops gs other me w1 m1 j (TIOCSCTTY True) = Inr (r2, w2, m2)"
  shows "tty_do_raw_ioctl ops gs other me w2 m2 i (TIOCSCTTY True) = Inl KPanic"
proof -
  have w1: "session (tty_at w1 i) = Some (cur_sid me)" "session (tty_at w1 j) = None"
    using assms by (auto simp: tty_do_raw_ioctl_def tty_raw_set_session_def tty_upd_def tty_set_fg_group_def
        process_group_release_def process_group_ref_def Let_def split: option.splits)
  have "session (tty_at w2 i) = Some (cur_sid me)" "session_tty w2 (cur_sid me) = Some j"
    using assms(1,4,5,7) w1 by (auto simp: tty_do_raw_ioctl_def tty_raw_set_session_def tty_upd_def tty_set_fg_group_def
        process_group_release_def process_group_ref_def Let_def split: option.splits)
  then show ?thesis using assms(1,4,5) by (simp add: tty_do_raw_ioctl_def tty_raw_set_session_def Let_def)
qed

end
