(* ===== verification/Resource.thy ===== *)
theory Resource
  imports Prelude
begin

section \<open>Bus resources\<close>

text \<open>
  Models \<^verbatim>\<open>kernel/drivers/resource.c\<close>: the resource manager, which keeps the regions of an address space
  as a list of segments, each free or owned by a device node. The list operations are those of
  \<^verbatim>\<open>klib/list.c\<close> on the elements in order (theory \<open>Klist\<close> shows that the pointers
  implement them); a segment is known by its address. Addresses and sizes are 64-bit words. The mutex
  makes each operation one step. What \<^verbatim>\<open>slab_alloc\<close> returns is a parameter.
\<close>

record rman_seg =
  seg_id :: nat
  seg_devnode :: "nat option"
  seg_start :: u64
  seg_size :: u64

record resource_request =
  req_start :: u64
  req_end :: u64
  req_size :: u64
  req_align :: u64
  req_flags :: u32

record resource =
  res_private :: nat
  res_start :: u64
  res_size :: u64
  res_flags :: u32
  res_rid :: int

record rman =
  segs :: "rman_seg list"
  rman_type :: u32
  resources :: "nat \<Rightarrow> resource list"

definition RESOURCE_TYPE :: u32 where
  "RESOURCE_TYPE = 0xff"

definition RESOURCE_IRQ :: u32 where
  "RESOURCE_IRQ = 1"

definition RID_NONE :: int where
  "RID_NONE = -1"

definition RESOURCE_ANY_SIZE :: u64 where
  "RESOURCE_ANY_SIZE = 0"

definition RESOURCE_ANY_ALIGN :: u64 where
  "RESOURCE_ANY_ALIGN = 0"

subsection \<open>Resources\<close>

definition resource_allocate ::
    "bool \<Rightarrow> (nat \<Rightarrow> resource list) \<Rightarrow> nat \<Rightarrow> nat \<Rightarrow> u64 \<Rightarrow> u64 \<Rightarrow> u32 \<Rightarrow> int \<Rightarrow> resource option \<times> (nat \<Rightarrow> resource list)" where
  "resource_allocate slab_ok att node private start sz flags rid =
     (if \<not> slab_ok then (None, att)
      else (let r = \<lparr>res_private = private, res_start = start, res_size = sz, res_flags = flags, res_rid = rid\<rparr>
            in (Some r, att(node := att node @ [r]))))"

definition resource_free :: "(nat \<Rightarrow> resource list) \<Rightarrow> nat \<Rightarrow> resource \<Rightarrow> (nat \<Rightarrow> resource list)" where
  "resource_free att node r = att(node := remove1 r (att node))"

text \<open>The interrupt number of a line of an interrupt resource; \<open>None\<close> stands for a missing resource.\<close>

definition resource_get_irq :: "resource option \<Rightarrow> u64 \<Rightarrow> u64 option kres" where
  "resource_get_irq res index =
     (case res of
        None \<Rightarrow> Inr None
      | Some r \<Rightarrow>
          if and (res_flags r) RESOURCE_TYPE \<noteq> RESOURCE_IRQ \<or> \<not> index < res_size r then Inl KPanic
          else Inr (Some (res_start r + index)))"

subsection \<open>Lists of segments\<close>

fun seg_prev :: "rman_seg list \<Rightarrow> nat \<Rightarrow> rman_seg option" where
  "seg_prev (a # b # ss) i = (if seg_id b = i then Some a else seg_prev (b # ss) i)"
| "seg_prev _ i = None"

fun seg_next :: "rman_seg list \<Rightarrow> nat \<Rightarrow> rman_seg option" where
  "seg_next (a # ss) i = (if seg_id a = i then (case ss of [] \<Rightarrow> None | b # _ \<Rightarrow> Some b) else seg_next ss i)"
| "seg_next [] i = None"

definition seg_find :: "rman_seg list \<Rightarrow> nat \<Rightarrow> rman_seg option" where
  "seg_find ss i = find (\<lambda>s. seg_id s = i) ss"

definition seg_remove :: "rman_seg list \<Rightarrow> nat \<Rightarrow> rman_seg list" where
  "seg_remove ss i = filter (\<lambda>s. seg_id s \<noteq> i) ss"

definition seg_update :: "rman_seg list \<Rightarrow> nat \<Rightarrow> (rman_seg \<Rightarrow> rman_seg) \<Rightarrow> rman_seg list" where
  "seg_update ss i f = map (\<lambda>s. if seg_id s = i then f s else s) ss"

fun seg_add_after :: "rman_seg list \<Rightarrow> nat \<Rightarrow> rman_seg \<Rightarrow> rman_seg list" where
  "seg_add_after [] i n = []"
| "seg_add_after (s # ss) i n = (if seg_id s = i then s # n # ss else s # seg_add_after ss i n)"

fun seg_add_before :: "rman_seg list \<Rightarrow> nat \<Rightarrow> rman_seg \<Rightarrow> rman_seg list" where
  "seg_add_before [] i n = []"
| "seg_add_before (s # ss) i n = (if seg_id s = i then n # s # ss else s # seg_add_before ss i n)"

subsection \<open>The manager\<close>

definition rman_allocate_seg :: "nat option \<Rightarrow> u64 \<Rightarrow> u64 \<Rightarrow> rman_seg option" where
  "rman_allocate_seg slab start sz =
     (case slab of
        None \<Rightarrow> None
      | Some i \<Rightarrow> Some \<lparr>seg_id = i, seg_devnode = None, seg_start = start, seg_size = sz\<rparr>)"

fun rman_before_loop :: "rman_seg option \<Rightarrow> rman_seg list \<Rightarrow> u64 \<Rightarrow> rman_seg option" where
  "rman_before_loop prev [] addr = prev"
| "rman_before_loop prev (s # ss) addr = (if seg_start s \<ge> addr then prev else rman_before_loop (Some s) ss addr)"

definition rman_get_seg_before :: "rman_seg list \<Rightarrow> u64 \<Rightarrow> rman_seg option" where
  "rman_get_seg_before ss addr = rman_before_loop None ss addr"

definition rman_seg_is_allocated :: "rman_seg \<Rightarrow> bool" where
  "rman_seg_is_allocated s \<longleftrightarrow> seg_devnode s \<noteq> None"

definition rman_init :: "u32 \<Rightarrow> (nat \<Rightarrow> resource list) \<Rightarrow> rman" where
  "rman_init type att = \<lparr>segs = [], rman_type = type, resources = att\<rparr>"

fun rman_destroy :: "rman_seg list \<Rightarrow> rman_seg list kres" where
  "rman_destroy [] = Inr []"
| "rman_destroy (s # ss) = (if rman_seg_is_allocated s then Inl KPanic else rman_destroy ss)"

definition rman_merge_prev :: "rman_seg list \<Rightarrow> nat \<Rightarrow> rman_seg list" where
  "rman_merge_prev ss i =
     (case seg_prev ss i of
        None \<Rightarrow> ss
      | Some p \<Rightarrow>
          (case seg_find ss i of
             None \<Rightarrow> ss
           | Some s \<Rightarrow>
               if seg_start p + seg_size p = seg_start s \<and> \<not> rman_seg_is_allocated p
               then seg_update (seg_remove ss (seg_id p)) i
                      (\<lambda>s. s\<lparr>seg_start := seg_start p, seg_size := seg_size s + seg_size p\<rparr>)
               else ss))"

definition rman_merge_next :: "rman_seg list \<Rightarrow> nat \<Rightarrow> rman_seg list" where
  "rman_merge_next ss i =
     (case seg_next ss i of
        None \<Rightarrow> ss
      | Some n \<Rightarrow>
          (case seg_find ss i of
             None \<Rightarrow> ss
           | Some s \<Rightarrow>
               if seg_start s + seg_size s = seg_start n \<and> \<not> rman_seg_is_allocated n
               then seg_update (seg_remove ss (seg_id n)) i (\<lambda>s. s\<lparr>seg_size := seg_size s + seg_size n\<rparr>)
               else ss))"

definition rman_merge :: "rman_seg list \<Rightarrow> nat \<Rightarrow> rman_seg list" where
  "rman_merge ss i = rman_merge_next (rman_merge_prev ss i) i"

definition rman_raw_add_region :: "nat option \<Rightarrow> rman_seg list \<Rightarrow> u64 \<Rightarrow> u64 \<Rightarrow> errno + rman_seg list" where
  "rman_raw_add_region slab ss start sz =
     (let before = rman_get_seg_before ss start;
          after = (case before of Some b \<Rightarrow> seg_next ss (seg_id b) | None \<Rightarrow> (case ss of [] \<Rightarrow> None | s # _ \<Rightarrow> Some s))
      in if (case before of Some b \<Rightarrow> seg_start b + seg_size b > start | None \<Rightarrow> False) then Inl EINVAL
         else if ss \<noteq> [] \<and> (case after of Some a \<Rightarrow> seg_start a < start + sz | None \<Rightarrow> False) then Inl EINVAL
         else (case rman_allocate_seg slab start sz of
                 None \<Rightarrow> Inl ENOMEM
               | Some seg \<Rightarrow>
                   Inr (rman_merge (case before of Some b \<Rightarrow> seg_add_after ss (seg_id b) seg | None \<Rightarrow> seg # ss) (seg_id seg))))"

text \<open>One turn of the search: where in a free segment the request fits.\<close>

definition rman_seg_fit :: "resource_request \<Rightarrow> u64 \<Rightarrow> u64 \<Rightarrow> rman_seg \<Rightarrow> u64 option" where
  "rman_seg_fit rq sz align s =
     (let (st1, cnt1) = (if seg_start s < req_start rq
                         then (req_start rq, seg_size s - (req_start rq - seg_start s))
                         else (seg_start s, seg_size s));
          cnt2 = (if st1 + cnt1 > req_end rq then req_end rq - st1 else cnt1);
          to_add = (if st1 mod align \<noteq> 0 then align - st1 mod align else 0)
      in if cnt2 < to_add then None
         else if cnt2 - to_add < sz then None
         else Some (st1 + to_add))"

fun rman_search :: "resource_request \<Rightarrow> u64 \<Rightarrow> u64 \<Rightarrow> rman_seg list \<Rightarrow> (rman_seg \<times> u64) option" where
  "rman_search rq sz align [] = None"
| "rman_search rq sz align (s # ss) =
     (if seg_start s + seg_size s \<le> req_start rq then rman_search rq sz align ss
      else if seg_start s \<ge> req_end rq then None
      else if rman_seg_is_allocated s then rman_search rq sz align ss
      else (case rman_seg_fit rq sz align s of
              None \<Rightarrow> rman_search rq sz align ss
            | Some start \<Rightarrow> Some (s, start)))"

text \<open>The two splits; \<open>Inl\<close> is the list an allocation failure leaves.\<close>

definition rman_split_before :: "nat option \<Rightarrow> rman_seg list \<Rightarrow> rman_seg \<Rightarrow> u64 \<Rightarrow> rman_seg list option" where
  "rman_split_before slab ss s start =
     (if seg_start s < start
      then (case rman_allocate_seg slab (seg_start s) (start - seg_start s) of
              None \<Rightarrow> None
            | Some n \<Rightarrow>
                Some (seg_add_before (seg_update ss (seg_id s)
                        (\<lambda>s. s\<lparr>seg_size := seg_size s - seg_size n, seg_start := seg_start s + seg_size n\<rparr>)) (seg_id s) n))
      else Some ss)"

definition rman_split_after :: "nat option \<Rightarrow> rman_seg list \<Rightarrow> rman_seg \<Rightarrow> u64 \<Rightarrow> u64 \<Rightarrow> rman_seg list option" where
  "rman_split_after slab ss s start sz =
     (if seg_size s > sz
      then (case rman_allocate_seg slab (start + sz) (seg_size s - sz) of
              None \<Rightarrow> None
            | Some n \<Rightarrow>
                Some (seg_add_after (seg_update ss (seg_id s) (\<lambda>s. s\<lparr>seg_size := seg_size s - seg_size n\<rparr>)) (seg_id s) n))
      else Some ss)"

definition rman_raw_allocate ::
    "nat option \<Rightarrow> nat option \<Rightarrow> bool \<Rightarrow> rman \<Rightarrow> nat \<Rightarrow> resource_request \<Rightarrow> (errno + resource) \<times> rman" where
  "rman_raw_allocate slab1 slab2 slab3 m node rq =
     (let sz = (if req_size rq = RESOURCE_ANY_SIZE then 1 else req_size rq);
          align = (if req_align rq = RESOURCE_ANY_ALIGN then 1 else req_align rq)
      in if req_start rq mod align \<noteq> 0 then (Inl EINVAL, m)
         else (case rman_search rq sz align (segs m) of
                 None \<Rightarrow> (Inl ENOMEM, m)
               | Some (s, start) \<Rightarrow>
                   (case rman_split_before slab1 (segs m) s start of
                      None \<Rightarrow> (Inl ENOMEM, m)
                    | Some ss1 \<Rightarrow>
                        (let s1 = the (seg_find ss1 (seg_id s)) in
                         case rman_split_after slab2 ss1 s1 start sz of
                           None \<Rightarrow> (Inl ENOMEM, m\<lparr>segs := ss1\<rparr>)
                         | Some ss2 \<Rightarrow>
                             (let s2 = the (seg_find ss2 (seg_id s)) in
                              case resource_allocate slab3 (resources m) node (seg_id s) (seg_start s2) (seg_size s2)
                                     (or (req_flags rq) (rman_type m)) RID_NONE of
                                (None, _) \<Rightarrow> (Inl ENOMEM, m\<lparr>segs := ss2\<rparr>)
                              | (Some r, att) \<Rightarrow>
                                  (Inr r, m\<lparr>segs := seg_update ss2 (seg_id s) (\<lambda>s. s\<lparr>seg_devnode := Some node\<rparr>),
                                            resources := att\<rparr>))))))"

definition rman_raw_free :: "rman \<Rightarrow> nat \<Rightarrow> resource option \<Rightarrow> rman kres" where
  "rman_raw_free m node res =
     (case res of
        None \<Rightarrow> Inr m
      | Some r \<Rightarrow>
          (case seg_find (segs m) (res_private r) of
             None \<Rightarrow> Inl KNullDeref
           | Some s \<Rightarrow>
               if seg_devnode s \<noteq> Some node then Inl KPanic
               else (let ss = seg_update (segs m) (seg_id s) (\<lambda>s. s\<lparr>seg_devnode := None\<rparr>)
                     in Inr (m\<lparr>segs := rman_merge ss (seg_id s), resources := resource_free (resources m) node r\<rparr>))))"

subsection \<open>The address space a list of segments describes\<close>

definition lo :: "rman_seg \<Rightarrow> nat" where
  "lo s = unat (seg_start s)"

definition hi :: "rman_seg \<Rightarrow> nat" where
  "hi s = unat (seg_start s) + unat (seg_size s)"

definition seg_wf :: "rman_seg \<Rightarrow> bool" where
  "seg_wf s \<longleftrightarrow> seg_size s \<noteq> 0 \<and> hi s < 2 ^ 64"

definition ordered :: "rman_seg list \<Rightarrow> bool" where
  "ordered ss \<longleftrightarrow> distinct (map seg_id ss) \<and> (\<forall>s \<in> set ss. seg_wf s) \<and> sorted_wrt (\<lambda>a b. hi a \<le> lo b) ss"

definition coalesced :: "rman_seg list \<Rightarrow> bool" where
  "coalesced ss \<longleftrightarrow> sorted_wrt (\<lambda>a b. hi a = lo b \<longrightarrow> rman_seg_is_allocated a \<or> rman_seg_is_allocated b) ss"

definition rman_ok :: "rman_seg list \<Rightarrow> bool" where
  "rman_ok ss \<longleftrightarrow> ordered ss \<and> coalesced ss"

definition free_addrs :: "rman_seg list \<Rightarrow> nat set" where
  "free_addrs ss = (\<Union>s \<in> {s \<in> set ss. \<not> rman_seg_is_allocated s}. {lo s..<hi s})"

definition owned :: "rman_seg list \<Rightarrow> (nat \<times> nat \<times> nat \<times> nat) set" where
  "owned ss = {(seg_id s, n, lo s, hi s) | s n. s \<in> set ss \<and> seg_devnode s = Some n}"

definition addrs :: "rman_seg list \<Rightarrow> nat set" where
  "addrs ss = (\<Union>s \<in> set ss. {lo s..<hi s})"

lemma unat_add_below: "unat a + unat b < 2 ^ 64 \<Longrightarrow> unat (a + b :: u64) = unat a + unat b"
  using unat_add_lem [of a b] by simp

lemma seg_wf_end: "seg_wf s \<Longrightarrow> unat (seg_start s + seg_size s) = hi s"
  by (simp add: seg_wf_def hi_def unat_add_below)

lemma seg_wf_nonempty: "seg_wf s \<Longrightarrow> lo s < hi s"
  by (simp add: seg_wf_def lo_def hi_def unat_gt_0)

lemma seg_meets: "seg_wf a \<Longrightarrow> seg_start a + seg_size a = seg_start b \<longleftrightarrow> hi a = lo b"
  by (metis lo_def seg_wf_end unsigned_word_eqI)

lemma free_addrs_simps [simp]:
  "free_addrs [] = {}" "free_addrs (xs @ ys) = free_addrs xs \<union> free_addrs ys"
  "free_addrs (s # xs) = (if rman_seg_is_allocated s then free_addrs xs else {lo s..<hi s} \<union> free_addrs xs)"
  by (auto simp: free_addrs_def)

lemma owned_simps [simp]:
  "owned [] = {}" "owned (xs @ ys) = owned xs \<union> owned ys"
  "owned (s # xs) = (case seg_devnode s of None \<Rightarrow> {} | Some n \<Rightarrow> {(seg_id s, n, lo s, hi s)}) \<union> owned xs"
  by (auto simp: owned_def split: option.splits)

lemma addrs_simps [simp]:
  "addrs [] = {}" "addrs (xs @ ys) = addrs xs \<union> addrs ys" "addrs (s # xs) = {lo s..<hi s} \<union> addrs xs"
  by (auto simp: addrs_def)

lemma ordered_split:
  "ordered (pre @ s # post) \<longleftrightarrow>
     ordered pre \<and> ordered post \<and> seg_wf s \<and> seg_id s \<notin> seg_id ` set pre \<and> seg_id s \<notin> seg_id ` set post \<and>
     seg_id ` set pre \<inter> seg_id ` set post = {} \<and>
     (\<forall>a \<in> set pre. hi a \<le> lo s) \<and> (\<forall>b \<in> set post. hi s \<le> lo b)"
  if "seg_wf s"
proof -
  have "hi a \<le> lo b" if "hi a \<le> lo s" "hi s \<le> lo b" for a b
    using that seg_wf_nonempty [OF \<open>seg_wf s\<close>] by simp
  then show ?thesis unfolding ordered_def by (auto simp: sorted_wrt_append)
qed

lemma coalesced_split:
  assumes "ordered (pre @ s # post)"
  shows "coalesced (pre @ s # post) \<longleftrightarrow> coalesced pre \<and> coalesced post \<and>
     (rman_seg_is_allocated s \<or> (\<forall>a \<in> set pre. hi a = lo s \<longrightarrow> rman_seg_is_allocated a) \<and>
        (\<forall>b \<in> set post. hi s = lo b \<longrightarrow> rman_seg_is_allocated b))"
proof -
  have wf: "seg_wf s" using assms by (simp add: ordered_def)
  have "hi a \<noteq> lo b" if "a \<in> set pre" "b \<in> set post" for a b
    using that assms seg_wf_nonempty [OF wf] unfolding ordered_split [OF wf] by fastforce
  then show ?thesis unfolding coalesced_def by (auto simp: sorted_wrt_append)
qed

text \<open>The list operations at a position.\<close>

lemma seg_find_split: "seg_id s \<notin> seg_id ` set pre \<Longrightarrow> seg_find (pre @ s # post) (seg_id s) = Some s"
  by (induction pre) (auto simp: seg_find_def)

lemma seg_prev_split:
  "seg_id s \<notin> seg_id ` set (pre @ [p]) \<Longrightarrow> seg_prev (pre @ p # s # post) (seg_id s) = Some p"
proof (induction pre)
  case (Cons a pre)
  then show ?case by (cases pre) auto
qed simp

lemma seg_prev_first: "i \<notin> seg_id ` set post \<Longrightarrow> seg_prev (s # post) i = None"
proof (induction post arbitrary: s)
  case (Cons a post)
  then show ?case by simp
qed simp

lemma seg_next_split:
  "seg_id s \<notin> seg_id ` set pre \<Longrightarrow>
     seg_next (pre @ s # post) (seg_id s) = (case post of [] \<Rightarrow> None | b # _ \<Rightarrow> Some b)"
  by (induction pre) auto

lemma seg_remove_id: "i \<notin> seg_id ` set ss \<Longrightarrow> seg_remove ss i = ss"
  by (induction ss) (auto simp: seg_remove_def)

lemma seg_update_id: "i \<notin> seg_id ` set ss \<Longrightarrow> seg_update ss i f = ss"
  by (induction ss) (auto simp: seg_update_def)

lemma seg_append:
  "seg_remove (xs @ ys) i = seg_remove xs i @ seg_remove ys i"
  "seg_update (xs @ ys) i f = seg_update xs i f @ seg_update ys i f"
  "seg_remove (s # ys) i = (if seg_id s = i then seg_remove ys i else s # seg_remove ys i)"
  "seg_update (s # ys) i f = (if seg_id s = i then f s else s) # seg_update ys i f"
  by (simp_all add: seg_remove_def seg_update_def)

lemma seg_remove_split:
  "seg_id p \<notin> seg_id ` set pre \<Longrightarrow> seg_id p \<notin> seg_id ` set post \<Longrightarrow> seg_remove (pre @ p # post) (seg_id p) = pre @ post"
  by (simp add: seg_append seg_remove_id)

lemma seg_update_split:
  "seg_id s \<notin> seg_id ` set pre \<Longrightarrow> seg_id s \<notin> seg_id ` set post \<Longrightarrow>
     seg_update (pre @ s # post) (seg_id s) f = pre @ f s # post"
  by (simp add: seg_append seg_update_id)

lemma seg_add_after_split:
  "seg_id s \<notin> seg_id ` set pre \<Longrightarrow> seg_add_after (pre @ s # post) (seg_id s) n = pre @ s # n # post"
  by (induction pre) auto

lemma seg_add_before_split:
  "seg_id s \<notin> seg_id ` set pre \<Longrightarrow> seg_add_before (pre @ s # post) (seg_id s) n = pre @ n # s # post"
  by (induction pre) auto

text \<open>Merging around a free segment whose surroundings are in order.\<close>

lemma size_join:
  assumes "seg_wf a" and "seg_wf b" and "hi a = lo b"
  shows "unat (seg_size a + seg_size b) = unat (seg_size a) + unat (seg_size b) \<and> seg_size a + seg_size b \<noteq> 0"
proof -
  have s: "unat (seg_size a + seg_size b) = unat (seg_size a) + unat (seg_size b)"
    using assms by (intro unat_add_below) (simp add: seg_wf_def lo_def hi_def)
  moreover have "unat (seg_size a) \<noteq> 0" using assms(1) by (simp add: seg_wf_def unsigned_eq_0_iff)
  ultimately show ?thesis by (metis add_is_0 unsigned_0)
qed

lemma rman_merge_prev_ok:
  assumes ord: "ordered (pre @ s # post)" and pre: "coalesced pre" and fr: "\<not> rman_seg_is_allocated s"
  shows "\<exists>pre' s'. rman_merge_prev (pre @ s # post) (seg_id s) = pre' @ s' # post \<and> seg_id s' = seg_id s \<and>
     \<not> rman_seg_is_allocated s' \<and> ordered (pre' @ s' # post) \<and> coalesced (pre' @ [s']) \<and>
     free_addrs (pre' @ s' # post) = free_addrs (pre @ s # post) \<and> owned (pre' @ s' # post) = owned (pre @ s # post)"
proof (cases pre rule: rev_cases)
  case Nil
  have "coalesced [s]" by (simp add: coalesced_def)
  moreover have "seg_prev (s # post) (seg_id s) = None"
    by (rule seg_prev_first) (use ord in \<open>auto simp: ordered_def\<close>)
  ultimately show ?thesis
    using ord fr Nil by (intro exI [of _ "[]"] exI [of _ s]) (simp add: rman_merge_prev_def)
next
  case (snoc pre1 p)
  have wf: "seg_wf s" "seg_wf p" using ord snoc by (simp_all add: ordered_def)
  have ord1: "ordered (pre1 @ p # s # post)" using ord snoc by simp
  have ids: "seg_id p \<notin> seg_id ` set pre1" "seg_id p \<notin> seg_id ` set (s # post)" "seg_id s \<notin> seg_id ` set (pre1 @ [p])"
    "seg_id s \<notin> seg_id ` set post"
    using ord1 by (auto simp: ordered_def)
  have look: "seg_prev (pre @ s # post) (seg_id s) = Some p" "seg_find (pre @ s # post) (seg_id s) = Some s"
    using seg_prev_split [OF ids(3), of post] seg_find_split [OF ids(3), of post] snoc by simp_all
  let ?s = "s\<lparr>seg_start := seg_start p, seg_size := seg_size s + seg_size p\<rparr>"
  show ?thesis
  proof (cases "hi p = lo s \<and> \<not> rman_seg_is_allocated p")
    case True
    note size = size_join [OF wf(2,1)]
    have s': "lo ?s = lo p" "hi ?s = hi s" "seg_devnode ?s = None" "\<not> rman_seg_is_allocated ?s"
      using True size fr by (simp_all add: lo_def hi_def rman_seg_is_allocated_def add.commute)
    have wf': "seg_wf ?s" using wf(1) s' size True by (simp add: seg_wf_def add.commute)
    have res: "rman_merge_prev (pre @ s # post) (seg_id s) = pre1 @ ?s # post"
      using True look ids snoc by (simp add: rman_merge_prev_def seg_meets [OF wf(2)] seg_append seg_remove_id seg_update_id)
    have ord': "ordered (pre1 @ ?s # post)"
      using ord1 s' wf' wf ids unfolding ordered_split [OF wf(2)] ordered_split [OF wf']
      by (auto simp: ordered_def)
    have co: "coalesced (pre1 @ [?s])"
      using pre s' True unfolding snoc coalesced_def by (auto simp: sorted_wrt_append)
    have "{lo p..<hi s} = {lo p..<hi p} \<union> {lo s..<hi s}"
      using True seg_wf_nonempty [OF wf(1)] seg_wf_nonempty [OF wf(2)] by auto
    then show ?thesis
      using res ord' co s' fr True snoc by (intro exI [of _ pre1] exI [of _ ?s]) (auto simp: rman_seg_is_allocated_def)
  next
    case False
    have "rman_merge_prev (pre @ s # post) (seg_id s) = pre @ s # post"
      using False look by (auto simp: rman_merge_prev_def seg_meets [OF wf(2)])
    moreover have "coalesced (pre @ [s])"
    proof -
      have "rman_seg_is_allocated a" if "a \<in> set pre" "hi a = lo s" for a
      proof (cases "a = p")
        case True
        then show ?thesis using that False by blast
      next
        case neq: False
        then have "hi a \<le> lo p" "hi p \<le> lo s"
          using that ord1 snoc by (auto simp: ordered_def sorted_wrt_append)
        then show ?thesis using that seg_wf_nonempty [OF wf(2)] by simp
      qed
      then show ?thesis using pre by (auto simp: coalesced_def sorted_wrt_append)
    qed
    ultimately show ?thesis using ord fr by (intro exI [of _ pre] exI [of _ s]) simp
  qed
qed

lemma rman_merge_next_ok:
  assumes ord: "ordered (pre @ s # post)" and pre: "coalesced (pre @ [s])" and post: "coalesced post"
    and fr: "\<not> rman_seg_is_allocated s"
  shows "\<exists>ss. rman_merge_next (pre @ s # post) (seg_id s) = ss \<and> rman_ok ss \<and>
     free_addrs ss = free_addrs (pre @ s # post) \<and> owned ss = owned (pre @ s # post)"
proof -
  have wf: "seg_wf s" using ord by (simp add: ordered_def)
  have ids: "seg_id s \<notin> seg_id ` set pre" "seg_id s \<notin> seg_id ` set post" using ord by (auto simp: ordered_def)
  note find = seg_find_split [OF ids(1), of post]
  have pre': "coalesced pre" "\<forall>a \<in> set pre. hi a = lo s \<longrightarrow> rman_seg_is_allocated a"
    using pre fr by (auto simp: coalesced_def sorted_wrt_append)
  show ?thesis
  proof (cases post)
    case Nil
    then show ?thesis
      using ord pre seg_next_split [OF ids(1), of post] by (simp add: rman_merge_next_def rman_ok_def)
  next
    case (Cons n post1)
    have nxt: "seg_next (pre @ s # post) (seg_id s) = Some n" using seg_next_split [OF ids(1), of post] Cons by simp
    have wfn: "seg_wf n" using ord Cons by (simp add: ordered_def)
    have ord1: "ordered ((pre @ [s]) @ n # post1)" using ord Cons by simp
    let ?s = "s\<lparr>seg_size := seg_size s + seg_size n\<rparr>"
    show ?thesis
    proof (cases "hi s = lo n \<and> \<not> rman_seg_is_allocated n")
      case True
      note size = size_join [OF wf wfn]
      have s': "lo ?s = lo s" "hi ?s = hi n" "seg_devnode ?s = None" "\<not> rman_seg_is_allocated ?s"
        using True size fr by (simp_all add: lo_def hi_def rman_seg_is_allocated_def)
      have wf': "seg_wf ?s" using wfn s' size True by (simp add: seg_wf_def)
      have idn: "seg_id n \<notin> seg_id ` set (pre @ [s])" "seg_id n \<notin> seg_id ` set post1"
        using ord1 by (auto simp: ordered_def)
      have res: "rman_merge_next (pre @ s # post) (seg_id s) = pre @ ?s # post1"
        using True nxt find ids idn Cons
        by (simp add: rman_merge_next_def seg_meets [OF wf] seg_append seg_remove_id seg_update_id)
      have ord': "ordered (pre @ ?s # post1)"
        using ord1 s' wf' wf ids Cons unfolding ordered_split [OF wfn] ordered_split [OF wf']
        by (auto simp: ordered_def sorted_wrt_append)
      have "\<forall>b \<in> set post1. hi n = lo b \<longrightarrow> rman_seg_is_allocated b" "coalesced post1"
        using post True Cons by (auto simp: coalesced_def)
      then have "coalesced (pre @ ?s # post1)" unfolding coalesced_split [OF ord'] using pre' s' by simp
      moreover have "{lo s..<hi n} = {lo s..<hi s} \<union> {lo n..<hi n}"
        using True seg_wf_nonempty [OF wf] seg_wf_nonempty [OF wfn] by auto
      ultimately show ?thesis
        using res ord' s' fr True Cons by (auto simp: rman_ok_def rman_seg_is_allocated_def)
    next
      case False
      have res: "rman_merge_next (pre @ s # post) (seg_id s) = pre @ s # post"
        using False nxt find by (auto simp: rman_merge_next_def seg_meets [OF wf])
      have "rman_seg_is_allocated b" if "b \<in> set post" "hi s = lo b" for b
      proof (cases "b = n")
        case True
        then show ?thesis using that False by blast
      next
        case neq: False
        then have "hi n \<le> lo b" "hi s \<le> lo n" using that ord1 Cons by (auto simp: ordered_def sorted_wrt_append)
        then show ?thesis using that seg_wf_nonempty [OF wfn] by simp
      qed
      then have "coalesced (pre @ s # post)" unfolding coalesced_split [OF ord] using pre' post by simp
      then show ?thesis using res ord by (simp add: rman_ok_def)
    qed
  qed
qed

lemma rman_merge_ok:
  assumes "ordered (pre @ s # post)" and "coalesced pre" and "coalesced post" and "\<not> rman_seg_is_allocated s"
  shows "rman_ok (rman_merge (pre @ s # post) (seg_id s)) \<and>
     free_addrs (rman_merge (pre @ s # post) (seg_id s)) = free_addrs (pre @ s # post) \<and>
     owned (rman_merge (pre @ s # post) (seg_id s)) = owned (pre @ s # post)"
proof -
  obtain pre' s' where p: "rman_merge_prev (pre @ s # post) (seg_id s) = pre' @ s' # post" "seg_id s' = seg_id s"
    "\<not> rman_seg_is_allocated s'" "ordered (pre' @ s' # post)" "coalesced (pre' @ [s'])"
    "free_addrs (pre' @ s' # post) = free_addrs (pre @ s # post)" "owned (pre' @ s' # post) = owned (pre @ s # post)"
    using rman_merge_prev_ok [OF assms(1,2,4)] by blast
  from rman_merge_next_ok [OF p(4,5) assms(3) p(3)] p(1,2,6,7) show ?thesis by (simp add: rman_merge_def)
qed

subsection \<open>Adding a region\<close>

lemma rman_before_loop_split:
  "rman_before_loop prev ss addr =
     (if takeWhile (\<lambda>s. seg_start s < addr) ss = [] then prev else Some (last (takeWhile (\<lambda>s. seg_start s < addr) ss)))"
  by (induction prev ss addr rule: rman_before_loop.induct) (auto simp: not_less)

lemma rman_add_split:
  fixes pre post :: "rman_seg list"
  assumes "distinct (map seg_id (pre @ post))" and "\<forall>s \<in> set pre. seg_start s < start"
    and "post = [] \<or> \<not> seg_start (hd post) < start"
  shows "rman_raw_add_region slab (pre @ post) start sz =
     (if pre \<noteq> [] \<and> seg_start (last pre) + seg_size (last pre) > start then Inl EINVAL
      else if post \<noteq> [] \<and> seg_start (hd post) < start + sz then Inl EINVAL
      else (case rman_allocate_seg slab start sz of
              None \<Rightarrow> Inl ENOMEM
            | Some seg \<Rightarrow> Inr (rman_merge (pre @ seg # post) (seg_id seg))))"
proof -
  have tw: "takeWhile (\<lambda>s. seg_start s < start) (pre @ post) = pre"
    using assms(2,3) by (cases post) (auto simp: takeWhile_append2)
  show ?thesis
  proof (cases pre rule: rev_cases)
    case Nil
    then show ?thesis using tw
      by (cases post) (auto simp: rman_raw_add_region_def rman_get_seg_before_def rman_before_loop_split Let_def
          split: option.splits if_splits)
  next
    case (snoc pre1 b)
    have id: "seg_id b \<notin> seg_id ` set pre1" using assms(1) snoc by auto
    have "seg_next (pre @ post) (seg_id b) = (case post of [] \<Rightarrow> None | x # _ \<Rightarrow> Some x)"
      using seg_next_split [OF id, of post] snoc by simp
    moreover have "seg_add_after (pre @ post) (seg_id b) seg = pre @ seg # post" for seg
      using seg_add_after_split [OF id, of post seg] snoc by simp
    ultimately show ?thesis
      using tw snoc by (cases post; cases "rman_allocate_seg slab start sz")
        (simp_all add: rman_raw_add_region_def rman_get_seg_before_def rman_before_loop_split Let_def)
  qed
qed

lemma rman_below_last:
  assumes "a \<in> set pre" and "\<not> (pre \<noteq> [] \<and> hi (last pre) > k)" and "sorted_wrt (\<lambda>a b. hi a \<le> lo b) (pre @ post)"
    and "\<forall>s \<in> set (pre @ post). seg_wf s"
  shows "hi a \<le> k"
proof (cases pre rule: rev_cases)
  case (snoc pre1 p)
  then have "hi p \<le> k" "a = p \<or> hi a \<le> lo p" "lo p < hi p"
    using assms seg_wf_nonempty [of p] by (auto simp: sorted_wrt_append)
  then show ?thesis by auto
qed (use assms in simp)

lemma rman_above_first:
  assumes "b \<in> set post" and "\<not> (post \<noteq> [] \<and> lo (hd post) < k)" and "sorted_wrt (\<lambda>a b. hi a \<le> lo b) (pre @ post)"
    and "\<forall>s \<in> set (pre @ post). seg_wf s"
  shows "k \<le> lo b"
proof (cases post)
  case (Cons p post1)
  then have "k \<le> lo p" "b = p \<or> hi p \<le> lo b" "lo p < hi p"
    using assms seg_wf_nonempty [of p] by (auto simp: sorted_wrt_append)
  then show ?thesis by auto
qed (use assms in simp)

lemma rman_add_region_ok:
  assumes ok: "rman_ok ss" and sz: "sz \<noteq> 0" "unat start + unat sz < 2 ^ 64" and i: "i \<notin> seg_id ` set ss"
  shows "case rman_raw_add_region (Some i) ss start sz of
      Inr ss' \<Rightarrow> rman_ok ss' \<and> {unat start..<unat start + unat sz} \<inter> addrs ss = {} \<and>
        free_addrs ss' = free_addrs ss \<union> {unat start..<unat start + unat sz} \<and> owned ss' = owned ss
    | Inl e \<Rightarrow> e = EINVAL \<and> {unat start..<unat start + unat sz} \<inter> addrs ss \<noteq> {}"
proof -
  define pre where "pre = takeWhile (\<lambda>s. seg_start s < start) ss"
  define post where "post = dropWhile (\<lambda>s. seg_start s < start) ss"
  let ?seg = "\<lparr>seg_id = i, seg_devnode = None, seg_start = start, seg_size = sz\<rparr>"
  let ?R = "{unat start..<unat start + unat sz}"
  have ss: "ss = pre @ post" by (simp add: pre_def post_def)
  have pre: "\<forall>s \<in> set pre. seg_start s < start" by (auto simp: pre_def dest: set_takeWhileD)
  have post: "post = [] \<or> \<not> seg_start (hd post) < start"
    using hd_dropWhile [of "\<lambda>s. seg_start s < start" ss] by (auto simp: post_def)
  have ord: "ordered (pre @ post)" and co: "coalesced pre" "coalesced post"
    using ok ss by (auto simp: rman_ok_def coalesced_def sorted_wrt_append)
  have wf: "\<forall>s \<in> set (pre @ post). seg_wf s" and srt: "sorted_wrt (\<lambda>a b. hi a \<le> lo b) (pre @ post)"
    using ord by (auto simp: ordered_def)
  have seg: "seg_wf ?seg" "lo ?seg = unat start" "hi ?seg = unat start + unat sz" "\<not> rman_seg_is_allocated ?seg"
    using sz by (simp_all add: seg_wf_def lo_def hi_def rman_seg_is_allocated_def)
  have R: "unat start \<in> ?R" using sz by (simp add: unat_gt_0)
  have eq: "rman_raw_add_region (Some i) ss start sz =
     (if pre \<noteq> [] \<and> hi (last pre) > unat start then Inl EINVAL
      else if post \<noteq> [] \<and> lo (hd post) < unat start + unat sz then Inl EINVAL
      else Inr (rman_merge (pre @ ?seg # post) i))"
  proof -
    have "unat (start + sz) = unat start + unat sz" by (rule unat_add_below [OF sz(2)])
    moreover have "unat (seg_start (last pre) + seg_size (last pre)) = hi (last pre)" if "pre \<noteq> []"
      using that wf by (intro seg_wf_end) simp
    moreover have "distinct (map seg_id (pre @ post))" using ord by (simp add: ordered_def)
    ultimately show ?thesis
      using rman_add_split [OF _ pre post, of "Some i" sz] ss
      by (cases "pre = []") (simp_all add: rman_allocate_seg_def word_less_nat_alt lo_def)
  qed
  show ?thesis
  proof (cases "pre \<noteq> [] \<and> hi (last pre) > unat start")
    case True
    then have "unat start \<in> {lo (last pre)..<hi (last pre)}" "last pre \<in> set ss"
      using pre ss by (auto simp: lo_def word_less_nat_alt less_imp_le)
    then have "unat start \<in> ?R \<inter> addrs ss" using R by (auto simp: addrs_def)
    then have "?R \<inter> addrs ss \<noteq> {}" by blast
    then show ?thesis using eq True by simp
  next
    case noprev: False
    show ?thesis
    proof (cases "post \<noteq> [] \<and> lo (hd post) < unat start + unat sz")
      case True
      then have "lo (hd post) \<in> ?R" "hd post \<in> set ss" "seg_wf (hd post)"
        using post ss wf by (auto simp: lo_def word_less_nat_alt)
      then have "lo (hd post) \<in> ?R \<inter> addrs ss" using seg_wf_nonempty by (auto simp: addrs_def)
      then have "?R \<inter> addrs ss \<noteq> {}" by blast
      then show ?thesis using eq True noprev by simp
    next
      case False
      have below: "hi a \<le> unat start" if "a \<in> set pre" for a
        using that noprev srt wf by (rule rman_below_last)
      have above: "unat start + unat sz \<le> lo b" if "b \<in> set post" for b
        using that False srt wf by (rule rman_above_first)
      have "ordered (pre @ ?seg # post)"
        unfolding ordered_split [OF seg(1)] using ord seg below above i ss by (auto simp: ordered_def sorted_wrt_append)
      from rman_merge_ok [OF this co seg(4)] eq noprev False seg ss
      have "rman_ok (rman_merge (pre @ ?seg # post) i) \<and>
          free_addrs (rman_merge (pre @ ?seg # post) i) = free_addrs ss \<union> ?R \<and>
          owned (rman_merge (pre @ ?seg # post) i) = owned ss"
        by auto
      moreover have "?R \<inter> addrs ss = {}"
        using below above ss by (fastforce simp: addrs_def)
      ultimately show ?thesis using eq noprev False by simp
    qed
  qed
qed

subsection \<open>Allocating\<close>

definition round_up :: "nat \<Rightarrow> nat \<Rightarrow> nat" where
  "round_up b al = b + (if b mod al = 0 then 0 else al - b mod al)"

lemma round_up_ge: "b \<le> round_up b al"
  by (simp add: round_up_def)

lemma round_up_dvd:
  assumes "0 < al"
  shows "al dvd round_up b al"
proof (cases "b mod al = 0")
  case False
  have "b + (al - b mod al) = b div al * al + al"
    using assms div_mult_mod_eq [of b al] mod_less_divisor [OF assms, of b] by linarith
  with False show ?thesis by (simp add: round_up_def)
qed (simp add: round_up_def dvd_eq_mod_eq_0)

lemma round_up_least:
  assumes "0 < al" and "b \<le> a" and "al dvd a"
  shows "round_up b al \<le> a"
proof (cases "b mod al = 0")
  case False
  then have "b div al * al < b" using div_mult_mod_eq [of b al] by linarith
  moreover obtain k where a: "a = al * k" using assms(3) by blast
  ultimately have "b div al < k" using assms(2) by (metis less_le_trans mult.commute nat_mult_less_cancel_disj)
  then have "b div al * al + al \<le> a" using a by (metis Suc_leI mult.commute mult_Suc_right mult_le_mono2 add.commute)
  moreover have "round_up b al = b + (al - b mod al)" using False by (simp add: round_up_def)
  ultimately show ?thesis
    using div_mult_mod_eq [of b al] mod_less_divisor [OF assms(1), of b] by linarith
qed (use assms in \<open>simp add: round_up_def\<close>)

definition fit_low :: "resource_request \<Rightarrow> rman_seg \<Rightarrow> nat" where
  "fit_low rq s = max (lo s) (unat (req_start rq))"

definition fit_high :: "resource_request \<Rightarrow> rman_seg \<Rightarrow> nat" where
  "fit_high rq s = min (hi s) (unat (req_end rq))"

text \<open>The part of the segment that the request allows, and the padding that aligns its start.\<close>

lemma fit_clip:
  assumes wf: "seg_wf s" and meets: "lo s < unat (req_end rq)" "unat (req_start rq) < hi s" and rq: "req_start rq \<le> req_end rq"
  defines "st1 \<equiv> if seg_start s < req_start rq then req_start rq else seg_start s"
  defines "cnt1 \<equiv> if seg_start s < req_start rq then seg_size s - (req_start rq - seg_start s) else seg_size s"
  shows "unat st1 = fit_low rq s"
    and "unat (if st1 + cnt1 > req_end rq then req_end rq - st1 else cnt1) = fit_high rq s - fit_low rq s"
    and "fit_low rq s \<le> fit_high rq s"
proof -
  let ?b = "fit_low rq s"
  show st1: "unat st1 = ?b"
    by (simp add: st1_def fit_low_def lo_def max_def word_less_nat_alt)
  have cnt1: "unat cnt1 = hi s - ?b"
  proof (cases "seg_start s < req_start rq")
    case True
    then have d: "unat (req_start rq - seg_start s) = unat (req_start rq) - lo s"
      by (simp add: unat_sub lo_def less_imp_le)
    moreover have "req_start rq - seg_start s \<le> seg_size s"
      using d meets(2) by (simp add: word_le_nat_alt hi_def lo_def)
    ultimately have "unat cnt1 = unat (seg_size s) - (unat (req_start rq) - lo s)"
      using True d by (simp only: cnt1_def if_True unat_sub)
    moreover have "?b = unat (req_start rq)" "lo s < unat (req_start rq)" "hi s = lo s + unat (seg_size s)"
      using True by (simp_all add: fit_low_def hi_def lo_def word_less_nat_alt)
    ultimately show ?thesis using meets(2) by linarith
  qed (simp add: cnt1_def fit_low_def hi_def lo_def max_def word_less_nat_alt)
  have b: "?b < hi s" "?b \<le> unat (req_end rq)"
    using meets rq seg_wf_nonempty [OF wf] by (auto simp: fit_low_def word_le_nat_alt)
  then show "?b \<le> fit_high rq s" by (simp add: fit_high_def)
  have "unat (st1 + cnt1) = hi s"
    using unat_add_below [of st1 cnt1] st1 cnt1 b wf by (simp add: seg_wf_def)
  then show "unat (if st1 + cnt1 > req_end rq then req_end rq - st1 else cnt1) = fit_high rq s - ?b"
    using st1 cnt1 b by (auto simp: fit_high_def word_less_nat_alt word_le_nat_alt unat_sub)
qed

lemma fit_padding:
  fixes st align :: u64
  assumes "align \<noteq> 0"
  shows "unat st + unat (if st mod align \<noteq> 0 then align - st mod align else 0) = round_up (unat st) (unat align)"
proof -
  have md: "unat (st mod align) = unat st mod unat align" by (simp add: unat_mod_distrib)
  have lt: "unat st mod unat align < unat align" using assms by (simp add: unat_gt_0)
  show ?thesis
  proof (cases "unat st mod unat align = 0")
    case True
    then have "st mod align = 0" using md by (metis unsigned_eq_0_iff)
    then show ?thesis using True by (simp add: round_up_def)
  next
    case False
    then have nz: "st mod align \<noteq> 0" using md by (metis unsigned_0)
    have "st mod align \<le> align" using md lt by (simp add: word_le_nat_alt)
    then have "unat (align - st mod align) = unat align - unat st mod unat align" using md by (simp only: unat_sub)
    then show ?thesis using False nz by (simp only: round_up_def if_False if_True not_False_eq_True simp_thms)
  qed
qed

lemma rman_seg_fit_spec:
  assumes wf: "seg_wf s" and al: "align \<noteq> 0"
    and meets: "lo s < unat (req_end rq)" "unat (req_start rq) < hi s" and rq: "req_start rq \<le> req_end rq"
  shows "rman_seg_fit rq sz align s =
     (if round_up (fit_low rq s) (unat align) + unat sz \<le> fit_high rq s
      then Some (word_of_nat (round_up (fit_low rq s) (unat align))) else None)"
proof -
  let ?b = "fit_low rq s" and ?e = "fit_high rq s" and ?al = "unat align"
  define st1 where "st1 = (if seg_start s < req_start rq then req_start rq else seg_start s)"
  define cnt1 where "cnt1 = (if seg_start s < req_start rq then seg_size s - (req_start rq - seg_start s) else seg_size s)"
  define cnt2 where "cnt2 = (if st1 + cnt1 > req_end rq then req_end rq - st1 else cnt1)"
  define to_add where "to_add = (if st1 mod align \<noteq> 0 then align - st1 mod align else 0)"
  have st1: "unat st1 = ?b" and cnt2: "unat cnt2 = ?e - ?b" and b: "?b \<le> ?e"
    using fit_clip [OF wf meets rq] by (simp_all only: st1_def cnt1_def cnt2_def)
  have to_add: "?b + unat to_add = round_up ?b ?al"
    using fit_padding [OF al, of st1] st1 by (simp only: to_add_def)
  have "rman_seg_fit rq sz align s =
      (if cnt2 < to_add then None else if cnt2 - to_add < sz then None else Some (st1 + to_add))"
    unfolding rman_seg_fit_def cnt2_def to_add_def cnt1_def st1_def by (simp add: Let_def)
  moreover have "cnt2 - to_add < sz \<longleftrightarrow> ?e - round_up ?b ?al < unat sz" if "\<not> cnt2 < to_add"
    using that cnt2 to_add by (simp add: word_less_nat_alt word_le_nat_alt unat_sub)
  moreover have "cnt2 < to_add \<longleftrightarrow> ?e < round_up ?b ?al"
    using cnt2 to_add b by (auto simp: word_less_nat_alt)
  moreover have "word_of_nat (unat st1 + unat to_add) = st1 + to_add" by simp
  ultimately show ?thesis using st1 to_add by auto
qed

text \<open>What a request asks of an address.\<close>

definition fits :: "resource_request \<Rightarrow> u64 \<Rightarrow> u64 \<Rightarrow> nat \<Rightarrow> bool" where
  "fits rq sz align a \<longleftrightarrow> unat align dvd a \<and> unat (req_start rq) \<le> a \<and> a + unat sz \<le> unat (req_end rq)"

lemma unat_of_nat_below: "n < 2 ^ 64 \<Longrightarrow> unat (word_of_nat n :: u64) = n"
  by (simp add: unsigned_of_nat take_bit_nat_eq_self)

lemma rman_search_sound:
  assumes "rman_search rq sz align ss = Some (s, st)" and "\<forall>s \<in> set ss. seg_wf s" and "align \<noteq> 0"
    and "req_start rq \<le> req_end rq"
  shows "s \<in> set ss \<and> \<not> rman_seg_is_allocated s \<and> fits rq sz align (unat st) \<and> lo s \<le> unat st \<and> unat st + unat sz \<le> hi s"
  using assms
proof (induction ss)
  case (Cons x ss)
  show ?case
  proof (cases "hi x \<le> unat (req_start rq) \<or> unat (req_end rq) \<le> lo x \<or> rman_seg_is_allocated x \<or>
      rman_seg_fit rq sz align x = None")
    case True
    then show ?thesis using Cons seg_wf_end [of x] by (auto simp: word_le_nat_alt lo_def split: if_splits)
  next
    case False
    then have x: "s = x" "rman_seg_fit rq sz align x = Some st"
      using Cons.prems seg_wf_end [of x] by (auto simp: word_le_nat_alt lo_def split: if_splits)
    let ?a = "round_up (fit_low rq x) (unat align)"
    have fit: "?a + unat sz \<le> fit_high rq x" "st = word_of_nat ?a"
      using rman_seg_fit_spec [of x align rq sz] x(2) False Cons.prems(2-4) by (auto split: if_splits)
    have "?a < 2 ^ 64" using fit(1) Cons.prems(2) by (simp add: fit_high_def seg_wf_def)
    then have "unat st = ?a" using fit(2) unat_of_nat_below by simp
    then show ?thesis
      using x(1) False fit(1) round_up_ge [of "fit_low rq x" "unat align"] round_up_dvd [of "unat align" "fit_low rq x"] Cons.prems(3)
      by (simp add: fits_def fit_low_def fit_high_def unat_gt_0)
  qed
qed simp

lemma rman_search_complete:
  assumes "rman_search rq sz align ss = None" and "ordered ss" and "align \<noteq> 0" and "sz \<noteq> 0"
    and "req_start rq \<le> req_end rq" and "s \<in> set ss" and "\<not> rman_seg_is_allocated s"
    and "fits rq sz align a"
  shows "\<not> (lo s \<le> a \<and> a + unat sz \<le> hi s)"
  using assms(1,2,6)
proof (induction ss)
  case (Cons x ss)
  note rq = assms(3-5,7,8)
  have wf: "seg_wf x" "ordered ss" using Cons.prems(2) by (simp_all add: ordered_def)
  have sz: "unat sz > 0" using assms(4) by (simp add: unat_gt_0)
  show ?case
  proof (cases "s = x")
    case False
    then have s: "s \<in> set ss" "hi x \<le> lo s" using Cons.prems by (auto simp: ordered_def)
    show ?thesis
    proof (cases "unat (req_end rq) \<le> lo x")
      case True
      then show ?thesis using s(2) rq sz seg_wf_nonempty [OF wf(1)] by (auto simp: fits_def)
    next
      case False
      then have "rman_search rq sz align ss = None"
        using Cons.prems(1) by (auto simp: word_le_nat_alt lo_def split: if_splits option.splits)
      then show ?thesis using Cons.IH s(1) wf(2) by blast
    qed
  next
    case True
    show ?thesis
    proof (rule notI, elim conjE)
      assume a: "lo s \<le> a" "a + unat sz \<le> hi s"
      have meets: "lo x < unat (req_end rq)" "unat (req_start rq) < hi x"
        using a True rq sz by (auto simp: fits_def)
      then have "rman_seg_fit rq sz align x = None"
        using Cons.prems(1) rq True seg_wf_end [OF wf(1)] by (auto simp: word_le_nat_alt lo_def split: if_splits option.splits)
      then have "\<not> round_up (fit_low rq x) (unat align) + unat sz \<le> fit_high rq x"
        using rman_seg_fit_spec [OF wf(1) _ meets] rq by (auto split: if_splits)
      moreover have "round_up (fit_low rq x) (unat align) \<le> a"
        using round_up_least [of "unat align" "fit_low rq x" a] a True rq
        by (simp add: fits_def fit_low_def unat_gt_0)
      ultimately show False using a True rq by (simp add: fits_def fit_high_def)
    qed
  qed
qed simp

text \<open>In a coalesced list a run of free addresses lies in one segment.\<close>

lemma free_run_in_segment:
  assumes ok: "rman_ok ss" and run: "{a..<a + n} \<subseteq> free_addrs ss" and n: "0 < n"
  shows "\<exists>s \<in> set ss. \<not> rman_seg_is_allocated s \<and> lo s \<le> a \<and> a + n \<le> hi s"
proof -
  have "a \<in> free_addrs ss" using run n by auto
  then obtain s where s: "s \<in> set ss" "\<not> rman_seg_is_allocated s" "lo s \<le> a" "a < hi s"
    by (auto simp: free_addrs_def)
  have "a + n \<le> hi s"
  proof (rule ccontr)
    assume "\<not> a + n \<le> hi s"
    then have "hi s \<in> free_addrs ss" using run s by auto
    then obtain u where u: "u \<in> set ss" "\<not> rman_seg_is_allocated u" "lo u \<le> hi s" "hi s < hi u"
      by (auto simp: free_addrs_def)
    obtain pre post where ss: "ss = pre @ s # post" using s(1) by (meson split_list)
    have ord: "ordered (pre @ s # post)" and co: "coalesced (pre @ s # post)" using ok ss by (simp_all add: rman_ok_def)
    have wf: "seg_wf s" using ord by (simp add: ordered_def)
    have "u \<in> set post"
      using u ss ord unfolding ordered_split [OF wf] using seg_wf_nonempty [OF wf] by fastforce
    moreover have "hi s \<le> lo u" using calculation ord unfolding ordered_split [OF wf] by blast
    ultimately show False using u co s(2) unfolding coalesced_split [OF ord] by auto
  qed
  with s show ?thesis by blast
qed

text \<open>Carving an owned piece out of a free segment leaves free rests on the sides where any are left.\<close>

definition piece :: "nat \<Rightarrow> nat \<Rightarrow> nat \<Rightarrow> rman_seg \<Rightarrow> bool" where
  "piece i a b n \<longleftrightarrow> seg_wf n \<and> seg_id n = i \<and> seg_devnode n = None \<and> lo n = a \<and> hi n = b"

lemma ordered_end:
  assumes "seg_wf n"
  shows "ordered (xs @ [n]) \<longleftrightarrow> ordered xs \<and> seg_id n \<notin> seg_id ` set xs \<and> (\<forall>x \<in> set xs. hi x \<le> lo n)"
    and "ordered (n # xs) \<longleftrightarrow> ordered xs \<and> seg_id n \<notin> seg_id ` set xs \<and> (\<forall>x \<in> set xs. hi n \<le> lo x)"
  using assms by (auto simp: ordered_def sorted_wrt_append)

lemma coalesced_end:
  "coalesced (xs @ [n]) \<longleftrightarrow>
     coalesced xs \<and> (\<forall>x \<in> set xs. hi x = lo n \<longrightarrow> rman_seg_is_allocated x \<or> rman_seg_is_allocated n)"
  "coalesced (n # xs) \<longleftrightarrow>
     coalesced xs \<and> (\<forall>x \<in> set xs. hi n = lo x \<longrightarrow> rman_seg_is_allocated n \<or> rman_seg_is_allocated x)"
  by (auto simp: coalesced_def sorted_wrt_append)

lemma carve_left:
  assumes "ordered pre" "coalesced pre" "\<forall>x \<in> set pre. hi x \<le> a" "\<forall>x \<in> set pre. hi x = a \<longrightarrow> rman_seg_is_allocated x"
    and "N = [] \<and> a = b \<or> N = [n] \<and> a < b \<and> piece i a b n" and "i \<notin> seg_id ` set pre"
  shows "ordered (pre @ N) \<and> coalesced (pre @ N) \<and> (\<forall>x \<in> set (pre @ N). hi x \<le> b) \<and>
      seg_id ` set (pre @ N) \<subseteq> insert i (seg_id ` set pre)"
  using assms(5)
proof (elim disjE conjE)
  assume n: "N = [n]" "a < b" "piece i a b n"
  then have "seg_wf n" "seg_id n = i" "lo n = a" "hi n = b" by (simp_all add: piece_def)
  then show ?thesis
    using assms(1-4,6) n(1,2) ordered_end(1) [of n pre] coalesced_end(1) [of pre n] by auto
qed (use assms in auto)

lemma carve_right:
  assumes "ordered post" "coalesced post" "\<forall>x \<in> set post. b \<le> lo x" "\<forall>x \<in> set post. b = lo x \<longrightarrow> rman_seg_is_allocated x"
    and "N = [] \<and> b = a \<or> N = [n] \<and> a < b \<and> piece j a b n" and "j \<notin> seg_id ` set post"
  shows "ordered (N @ post) \<and> coalesced (N @ post) \<and> (\<forall>x \<in> set (N @ post). a \<le> lo x) \<and>
      seg_id ` set (N @ post) \<subseteq> insert j (seg_id ` set post)"
  using assms(5)
proof (elim disjE conjE)
  assume n: "N = [n]" "a < b" "piece j a b n"
  then have "seg_wf n" "seg_id n = j" "lo n = a" "hi n = b" by (simp_all add: piece_def)
  then show ?thesis
    using assms(1-4,6) n(1,2) ordered_end(2) [of n post] coalesced_end(2) [of n post] by auto
qed (use assms in auto)

lemma rman_carve_ok:
  assumes ok: "rman_ok (pre @ s # post)" and fr: "\<not> rman_seg_is_allocated s"
    and s2: "seg_wf s2" "seg_id s2 = seg_id s" "seg_devnode s2 = Some node" "lo s \<le> lo s2" "hi s2 \<le> hi s"
    and N1: "N1 = (if lo s < lo s2 then [n1] else [])" "lo s < lo s2 \<Longrightarrow> piece i (lo s) (lo s2) n1"
    and N2: "N2 = (if hi s2 < hi s then [n2] else [])" "hi s2 < hi s \<Longrightarrow> piece j (hi s2) (hi s) n2"
    and ids: "i \<noteq> j" "i \<notin> seg_id ` set (pre @ s # post)" "j \<notin> seg_id ` set (pre @ s # post)"
  shows "rman_ok (pre @ N1 @ s2 # N2 @ post) \<and>
    free_addrs (pre @ N1 @ s2 # N2 @ post) = free_addrs (pre @ s # post) - {lo s2..<hi s2} \<and>
    owned (pre @ N1 @ s2 # N2 @ post) = insert (seg_id s, node, lo s2, hi s2) (owned (pre @ s # post))"
proof -
  have ord: "ordered (pre @ s # post)" and co: "coalesced (pre @ s # post)" using ok by (simp_all add: rman_ok_def)
  have wf: "seg_wf s" using ord by (simp add: ordered_def)
  note o = ord [unfolded ordered_split [OF wf]] and c = co [unfolded coalesced_split [OF ord]]
  have al: "rman_seg_is_allocated s2" using s2(3) by (simp add: rman_seg_is_allocated_def)
  have ne: "lo s2 < hi s2" using seg_wf_nonempty [OF s2(1)] .
  have n1: "N1 = [] \<and> lo s = lo s2 \<or> N1 = [n1] \<and> lo s < lo s2 \<and> piece i (lo s) (lo s2) n1" using N1 s2(4) by auto
  have n2: "N2 = [] \<and> hi s = hi s2 \<or> N2 = [n2] \<and> hi s2 < hi s \<and> piece j (hi s2) (hi s) n2" using N2 s2(5) by auto
  have left: "ordered (pre @ N1) \<and> coalesced (pre @ N1) \<and> (\<forall>x \<in> set (pre @ N1). hi x \<le> lo s2) \<and>
      seg_id ` set (pre @ N1) \<subseteq> insert i (seg_id ` set pre)"
    by (rule carve_left [OF _ _ _ _ n1]) (use o c fr ids(2) in auto)
  have right: "ordered (N2 @ post) \<and> coalesced (N2 @ post) \<and> (\<forall>x \<in> set (N2 @ post). hi s2 \<le> lo x) \<and>
      seg_id ` set (N2 @ post) \<subseteq> insert j (seg_id ` set post)"
    by (rule carve_right [OF _ _ _ _ n2]) (use o c fr ids(3) in auto)
  have ord': "ordered ((pre @ N1) @ s2 # (N2 @ post))"
    unfolding ordered_split [OF s2(1)]
  proof (intro conjI)
    have i: "i \<notin> seg_id ` set post" "i \<noteq> seg_id s" "j \<notin> seg_id ` set pre" "j \<noteq> seg_id s" using ids by auto
    have L: "seg_id ` set (pre @ N1) \<subseteq> insert i (seg_id ` set pre)" using left by (elim conjE)
    have R: "seg_id ` set (N2 @ post) \<subseteq> insert j (seg_id ` set post)" using right by (elim conjE)
    have P: "seg_id s \<notin> seg_id ` set pre" "seg_id s \<notin> seg_id ` set post" "seg_id ` set pre \<inter> seg_id ` set post = {}"
      using o by simp_all
    show "seg_id s2 \<notin> seg_id ` set (pre @ N1)" by (rule contra_subsetD [OF L]) (use i P s2(2) in simp)
    show "seg_id s2 \<notin> seg_id ` set (N2 @ post)" by (rule contra_subsetD [OF R]) (use i P s2(2) in simp)
    have "insert i (seg_id ` set pre) \<inter> insert j (seg_id ` set post) = {}" using i P(3) ids(1) by simp
    then show "seg_id ` set (pre @ N1) \<inter> seg_id ` set (N2 @ post) = {}" using L R by (meson disjoint_iff subsetD)
  qed (use left right s2(1) in simp_all)
  have "coalesced ((pre @ N1) @ s2 # (N2 @ post))"
    unfolding coalesced_split [OF ord'] using left right al by simp
  moreover have "free_addrs pre \<subseteq> {..<lo s}" "free_addrs post \<subseteq> {hi s..}"
    using o by (fastforce simp: free_addrs_def)+
  then have "free_addrs (pre @ N1 @ s2 # N2 @ post) = free_addrs (pre @ s # post) - {lo s2..<hi s2}"
    using n1 n2 al fr ne s2(4,5) by (auto simp: piece_def rman_seg_is_allocated_def)
  moreover have "owned (pre @ N1 @ s2 # N2 @ post) = insert (seg_id s, node, lo s2, hi s2) (owned (pre @ s # post))"
    using n1 n2 s2(2,3) fr by (auto simp: piece_def rman_seg_is_allocated_def)
  ultimately show ?thesis using ord' by (simp add: rman_ok_def)
qed

lemma rman_split_before_list:
  assumes wf: "seg_wf s" and ids: "seg_id s \<notin> seg_id ` set pre" "seg_id s \<notin> seg_id ` set post"
    and st: "lo s \<le> unat st" "unat st < hi s"
  shows "\<exists>s1 n1 N1. rman_split_before (Some i) (pre @ s # post) s st = Some (pre @ N1 @ s1 # post) \<and>
     N1 = (if lo s < unat st then [n1] else []) \<and> (lo s < unat st \<longrightarrow> piece i (lo s) (unat st) n1) \<and>
     seg_id s1 = seg_id s \<and> seg_devnode s1 = seg_devnode s \<and> lo s1 = unat st \<and> hi s1 = hi s \<and> seg_wf s1"
proof (cases "lo s < unat st")
  case False
  then have "rman_split_before (Some i) (pre @ s # post) s st = Some (pre @ [] @ s # post)"
    by (simp add: rman_split_before_def lo_def word_less_nat_alt)
  moreover have "lo s = unat st" using False st(1) by simp
  ultimately show ?thesis
    using wf False by - (rule exI [of _ s], rule exI, rule exI [of _ "[]"], simp)
next
  case True
  let ?n = "\<lparr>seg_id = i, seg_devnode = None, seg_start = seg_start s, seg_size = st - seg_start s\<rparr>"
  let ?s = "s\<lparr>seg_size := seg_size s - (st - seg_start s), seg_start := seg_start s + (st - seg_start s)\<rparr>"
  have lt: "seg_start s < st" using True by (simp add: lo_def word_less_nat_alt)
  have d: "unat (st - seg_start s) = unat st - lo s" using lt by (simp add: unat_sub lo_def less_imp_le)
  have "st - seg_start s \<le> seg_size s" using d st by (simp add: word_le_nat_alt hi_def lo_def)
  then have sz: "unat (seg_size s - (st - seg_start s)) = unat (seg_size s) - (unat st - lo s)"
    using d by (simp only: unat_sub)
  have s1: "lo ?s = unat st" "hi ?s = hi s"
    using sz True st(2) by (simp_all add: lo_def hi_def)
  have "seg_wf ?s" using s1 wf st(2) by (auto simp: seg_wf_def hi_def lo_def)
  moreover have "piece i (lo s) (unat st) ?n"
    using d True wf st(2) by (auto simp: piece_def seg_wf_def hi_def lo_def)
  moreover have "rman_split_before (Some i) (pre @ s # post) s st = Some (pre @ [?n] @ ?s # post)"
    using lt ids seg_add_before_split [of ?s pre post ?n]
    by (simp add: rman_split_before_def rman_allocate_seg_def seg_update_split)
  ultimately show ?thesis
    using s1 True by - (rule exI [of _ ?s], rule exI [of _ ?n], rule exI [of _ "[?n]"], simp)
qed

lemma rman_split_after_list:
  assumes wf: "seg_wf s" and ids: "seg_id s \<notin> seg_id ` set pre" "seg_id s \<notin> seg_id ` set post"
    and st: "lo s = unat st" "unat st + unat sz \<le> hi s" and sz: "sz \<noteq> 0"
  shows "\<exists>s2 n2 N2. rman_split_after (Some j) (pre @ s # post) s st sz = Some (pre @ s2 # N2 @ post) \<and>
     N2 = (if hi s2 < hi s then [n2] else []) \<and> (hi s2 < hi s \<longrightarrow> piece j (hi s2) (hi s) n2) \<and>
     seg_id s2 = seg_id s \<and> lo s2 = unat st \<and> hi s2 = unat st + unat sz \<and> seg_wf s2"
proof (cases "unat st + unat sz < hi s")
  case False
  then have e: "hi s = unat st + unat sz" using st(2) by simp
  then have "\<not> seg_size s > sz" using st(1) by (simp add: hi_def lo_def word_less_nat_alt)
  then have "rman_split_after (Some j) (pre @ s # post) s st sz = Some (pre @ s # [] @ post)"
    by (simp add: rman_split_after_def)
  then show ?thesis
    using wf e st(1) by - (rule exI [of _ s], rule exI, rule exI [of _ "[]"], simp)
next
  case True
  let ?n = "\<lparr>seg_id = j, seg_devnode = None, seg_start = st + sz, seg_size = seg_size s - sz\<rparr>"
  let ?s = "s\<lparr>seg_size := seg_size s - (seg_size s - sz)\<rparr>"
  have gt: "sz < seg_size s" using True st(1) by (simp add: hi_def lo_def word_less_nat_alt)
  then have d: "unat (seg_size s - sz) = unat (seg_size s) - unat sz" by (simp add: unat_sub less_imp_le)
  have a: "unat (st + sz) = unat st + unat sz" using True wf by (intro unat_add_below) (simp add: seg_wf_def)
  have s2: "lo ?s = unat st" "hi ?s = unat st + unat sz" using st(1) by (simp_all add: lo_def hi_def)
  have "seg_wf ?s" using s2 sz True wf by (simp add: seg_wf_def)
  moreover have "piece j (hi ?s) (hi s) ?n"
    using d a gt s2 st(1) wf True by (auto simp: piece_def seg_wf_def hi_def lo_def word_less_nat_alt)
  moreover have "rman_split_after (Some j) (pre @ s # post) s st sz = Some (pre @ ?s # [?n] @ post)"
    using gt ids seg_add_after_split [of ?s pre post ?n]
    by (simp add: rman_split_after_def rman_allocate_seg_def seg_update_split)
  ultimately show ?thesis
    using s2 True by - (rule exI [of _ ?s], rule exI [of _ ?n], rule exI [of _ "[?n]"], simp)
qed

definition rq_size :: "resource_request \<Rightarrow> u64" where
  "rq_size rq = (if req_size rq = RESOURCE_ANY_SIZE then 1 else req_size rq)"

definition rq_align :: "resource_request \<Rightarrow> u64" where
  "rq_align rq = (if req_align rq = RESOURCE_ANY_ALIGN then 1 else req_align rq)"

lemma rq_nonzero: "rq_size rq \<noteq> 0" "rq_align rq \<noteq> 0"
  by (auto simp: rq_size_def rq_align_def RESOURCE_ANY_SIZE_def RESOURCE_ANY_ALIGN_def)

text \<open>The segment found is split and given to the device node.\<close>

lemma rman_allocate_found:
  assumes ok: "rman_ok (segs m)" and found: "rman_search rq (rq_size rq) (rq_align rq) (segs m) = Some (s, st)"
    and rq: "req_start rq \<le> req_end rq" "req_start rq mod rq_align rq = 0"
    and ids: "i \<noteq> j" "i \<notin> seg_id ` set (segs m)" "j \<notin> seg_id ` set (segs m)"
    and R: "R = {unat st..<unat st + unat (rq_size rq)}"
  shows "\<exists>r m'. rman_raw_allocate (Some i) (Some j) True m node rq = (Inr r, m') \<and> rman_ok (segs m') \<and>
     res_start r = st \<and> res_size r = rq_size rq \<and>
     free_addrs (segs m') = free_addrs (segs m) - R \<and>
     owned (segs m') = insert (res_private r, node, unat st, unat st + unat (rq_size rq)) (owned (segs m)) \<and>
     resources m' = (resources m)(node := resources m node @ [r])"
proof -
  have ord: "ordered (segs m)" using ok by (simp add: rman_ok_def)
  then have wfs: "\<forall>s \<in> set (segs m). seg_wf s" by (simp add: ordered_def)
  note snd = rman_search_sound [OF found wfs rq_nonzero(2) rq(1)]
  obtain pre post where ss: "segs m = pre @ s # post" using snd by (meson split_list)
  have wf: "seg_wf s" using snd wfs by blast
  have id: "seg_id s \<notin> seg_id ` set pre" "seg_id s \<notin> seg_id ` set post" using ord ss by (auto simp: ordered_def)
  have sz: "0 < unat (rq_size rq)" using rq_nonzero(1) by (simp add: unat_gt_0)
  have "lo s \<le> unat st" "unat st < hi s" using snd sz by auto
  from rman_split_before_list [OF wf id this, of i] obtain s1 n1 N1 where
    b: "rman_split_before (Some i) (segs m) s st = Some (pre @ N1 @ s1 # post)"
    and N1: "N1 = (if lo s < unat st then [n1] else [])" "lo s < unat st \<longrightarrow> piece i (lo s) (unat st) n1"
    and s1: "seg_id s1 = seg_id s" "seg_devnode s1 = seg_devnode s" "lo s1 = unat st" "hi s1 = hi s" "seg_wf s1"
    unfolding ss by blast
  have id1: "seg_id s1 \<notin> seg_id ` set (pre @ N1)" "seg_id s1 \<notin> seg_id ` set post"
    using id s1(1) N1 ids(2) ss by (auto simp: piece_def)
  have "unat st + unat (rq_size rq) \<le> hi s1" using snd s1(4) by simp
  from rman_split_after_list [OF s1(5) id1 s1(3) this rq_nonzero(1), of j] obtain s2 n2 N2 where
    a: "rman_split_after (Some j) (pre @ N1 @ s1 # post) s1 st (rq_size rq) = Some (pre @ N1 @ s2 # N2 @ post)"
    and N2: "N2 = (if hi s2 < hi s then [n2] else [])" "hi s2 < hi s \<longrightarrow> piece j (hi s2) (hi s) n2"
    and s2: "seg_id s2 = seg_id s" "lo s2 = unat st" "hi s2 = unat st + unat (rq_size rq)" "seg_wf s2"
    unfolding s1(1,4) by auto
  have id2: "seg_id s2 \<notin> seg_id ` set (pre @ N1)" "seg_id s2 \<notin> seg_id ` set (N2 @ post)"
    using id1 s1(1) s2(1) N2 ids(3) ss id(2) by (auto simp: piece_def)
  have st2: "seg_start s2 = st" "seg_size s2 = rq_size rq"
    using s2(2,3) by (auto simp: lo_def hi_def intro: unsigned_word_eqI)
  let ?s = "s2\<lparr>seg_devnode := Some node\<rparr>"
  let ?r = "\<lparr>res_private = seg_id s, res_start = st, res_size = rq_size rq, res_flags = or (req_flags rq) (rman_type m), res_rid = RID_NONE\<rparr>"
  let ?m = "m\<lparr>segs := pre @ N1 @ ?s # N2 @ post, resources := (resources m)(node := resources m node @ [?r])\<rparr>"
  have "rman_raw_allocate (Some i) (Some j) True m node rq = (Inr ?r, ?m)"
    using rq(2) found b a s1(1) s2(1) st2 seg_find_split [OF id1(1), of post] seg_find_split [OF id2(1), of "N2 @ post"]
      seg_update_split [OF id2, of "\<lambda>s. s\<lparr>seg_devnode := Some node\<rparr>"]
    unfolding rman_raw_allocate_def Let_def rq_size_def [symmetric] rq_align_def [symmetric] resource_allocate_def
    by simp
  moreover have "rman_ok (segs ?m) \<and> free_addrs (segs ?m) = free_addrs (segs m) - {lo ?s..<hi ?s} \<and>
      owned (segs ?m) = insert (seg_id s, node, lo ?s, hi ?s) (owned (segs m))"
  proof -
    have f: "lo ?s = lo s2" "hi ?s = hi s2" "seg_wf ?s" using s2(4) by (simp_all add: lo_def hi_def seg_wf_def)
    show ?thesis
      using rman_carve_ok [of pre s post ?s node N1 n1 i N2 n2 j] ok ss snd s2 f N1 N2 ids by simp
  qed
  moreover have "lo ?s = unat st" "hi ?s = unat st + unat (rq_size rq)" using s2 by (simp_all add: lo_def hi_def)
  ultimately show ?thesis using R by - (rule exI [of _ ?r], rule exI [of _ ?m], simp)
qed

lemma rman_allocate_ok:
  assumes ok: "rman_ok (segs m)" and rq: "req_start rq \<le> req_end rq"
    and ids: "i \<noteq> j" "i \<notin> seg_id ` set (segs m)" "j \<notin> seg_id ` set (segs m)"
  shows "case rman_raw_allocate (Some i) (Some j) True m node rq of
     (Inr r, m') \<Rightarrow> rman_ok (segs m') \<and> fits rq (rq_size rq) (rq_align rq) (unat (res_start r)) \<and> res_size r = rq_size rq \<and>
       {unat (res_start r)..<unat (res_start r) + unat (rq_size rq)} \<subseteq> free_addrs (segs m) \<and>
       free_addrs (segs m') = free_addrs (segs m) - {unat (res_start r)..<unat (res_start r) + unat (rq_size rq)} \<and>
       owned (segs m') = insert (res_private r, node, unat (res_start r), unat (res_start r) + unat (rq_size rq)) (owned (segs m)) \<and>
       resources m' = (resources m)(node := resources m node @ [r])
   | (Inl e, m') \<Rightarrow> m' = m \<and>
       (if req_start rq mod rq_align rq \<noteq> 0 then e = EINVAL
        else e = ENOMEM \<and> (\<forall>a. fits rq (rq_size rq) (rq_align rq) a \<longrightarrow> \<not> {a..<a + unat (rq_size rq)} \<subseteq> free_addrs (segs m)))"
proof -
  have sz: "0 < unat (rq_size rq)" using rq_nonzero(1) by (simp add: unat_gt_0)
  have ord: "ordered (segs m)" using ok by (simp add: rman_ok_def)
  consider (unaligned) "req_start rq mod rq_align rq \<noteq> 0"
    | (none) "req_start rq mod rq_align rq = 0" "rman_search rq (rq_size rq) (rq_align rq) (segs m) = None"
    | (some) s st where "req_start rq mod rq_align rq = 0" "rman_search rq (rq_size rq) (rq_align rq) (segs m) = Some (s, st)"
    by (metis option.exhaust surj_pair)
  then show ?thesis
  proof cases
    case unaligned
    then show ?thesis by (simp add: rman_raw_allocate_def Let_def flip: rq_align_def)
  next
    case none
    have "rman_raw_allocate (Some i) (Some j) True m node rq = (Inl ENOMEM, m)"
      using none by (simp add: rman_raw_allocate_def Let_def flip: rq_align_def rq_size_def)
    moreover have "\<not> {a..<a + unat (rq_size rq)} \<subseteq> free_addrs (segs m)" if "fits rq (rq_size rq) (rq_align rq) a" for a
      using free_run_in_segment [OF ok _ sz, of a] rman_search_complete [OF none(2) ord rq_nonzero(2,1) rq _ _ that] by blast
    ultimately show ?thesis using none(1) by simp
  next
    case some
    obtain r m' where r: "rman_raw_allocate (Some i) (Some j) True m node rq = (Inr r, m')" "rman_ok (segs m')"
      "res_start r = st" "res_size r = rq_size rq"
      "free_addrs (segs m') = free_addrs (segs m) - {unat st..<unat st + unat (rq_size rq)}"
      "owned (segs m') = insert (res_private r, node, unat st, unat st + unat (rq_size rq)) (owned (segs m))"
      "resources m' = (resources m)(node := resources m node @ [r])"
      using rman_allocate_found [OF ok some(2) rq some(1) ids refl] by blast
    have "s \<in> set (segs m) \<and> \<not> rman_seg_is_allocated s \<and> fits rq (rq_size rq) (rq_align rq) (unat st) \<and> lo s \<le> unat st \<and>
        unat st + unat (rq_size rq) \<le> hi s"
      by (rule rman_search_sound [OF some(2) _ rq_nonzero(2) rq]) (use ord in \<open>simp add: ordered_def\<close>)
    then have "fits rq (rq_size rq) (rq_align rq) (unat st)"
      "{unat st..<unat st + unat (rq_size rq)} \<subseteq> free_addrs (segs m)"
      by (auto simp: free_addrs_def)
    then show ?thesis using r by simp
  qed
qed

subsection \<open>Freeing\<close>

lemma owned_split:
  assumes "ordered (pre @ s # post)" and "seg_devnode s = Some n"
  shows "owned (pre @ s # post) - {(seg_id s, n, lo s, hi s)} = owned pre \<union> owned post"
proof -
  have "seg_id s \<notin> seg_id ` set pre" "seg_id s \<notin> seg_id ` set post" using assms(1) by (auto simp: ordered_def)
  then have "(seg_id s, n, lo s, hi s) \<notin> owned pre \<union> owned post" by (force simp: owned_def)
  then show ?thesis using assms(2) by auto
qed

lemma rman_free_ok:
  assumes ok: "rman_ok (segs m)" and own: "(res_private r, node, a, b) \<in> owned (segs m)"
  shows "\<exists>m'. rman_raw_free m node (Some r) = Inr m' \<and> rman_ok (segs m') \<and>
     free_addrs (segs m') = free_addrs (segs m) \<union> {a..<b} \<and>
     owned (segs m') = owned (segs m) - {(res_private r, node, a, b)} \<and>
     resources m' = resource_free (resources m) node r"
proof -
  obtain s where s: "s \<in> set (segs m)" "seg_id s = res_private r" "seg_devnode s = Some node" "lo s = a" "hi s = b"
    using own by (auto simp: owned_def)
  obtain pre post where ss: "segs m = pre @ s # post" using s(1) by (meson split_list)
  have ord: "ordered (pre @ s # post)" and co: "coalesced (pre @ s # post)" using ok ss by (simp_all add: rman_ok_def)
  have wf: "seg_wf s" using ord by (simp add: ordered_def)
  have id: "seg_id s \<notin> seg_id ` set pre" "seg_id s \<notin> seg_id ` set post" using ord by (auto simp: ordered_def)
  let ?s = "s\<lparr>seg_devnode := None\<rparr>"
  have f: "lo ?s = lo s" "hi ?s = hi s" "seg_wf ?s" "\<not> rman_seg_is_allocated ?s" "seg_id ?s = seg_id s"
    using wf by (simp_all add: lo_def hi_def seg_wf_def rman_seg_is_allocated_def)
  have "ordered (pre @ ?s # post)"
    using ord unfolding ordered_split [OF wf] ordered_split [OF f(3)] f(1,2,5) using f(3) by blast
  moreover have "coalesced pre" "coalesced post" using co by (auto simp: coalesced_def sorted_wrt_append)
  ultimately have mg: "rman_ok (rman_merge (pre @ ?s # post) (seg_id s))"
    "free_addrs (rman_merge (pre @ ?s # post) (seg_id s)) = free_addrs (pre @ ?s # post)"
    "owned (rman_merge (pre @ ?s # post) (seg_id s)) = owned (pre @ ?s # post)"
    using rman_merge_ok [of pre ?s post] f(4,5) by simp_all
  let ?m = "m\<lparr>segs := rman_merge (pre @ ?s # post) (seg_id s), resources := resource_free (resources m) node r\<rparr>"
  have "rman_raw_free m node (Some r) = Inr ?m"
    using ss s(2,3) seg_find_split [OF id(1), of post] seg_update_split [OF id, of "\<lambda>s. s\<lparr>seg_devnode := None\<rparr>"]
    by (simp add: rman_raw_free_def Let_def)
  moreover have "free_addrs (pre @ ?s # post) = free_addrs (segs m) \<union> {a..<b}"
    using ss s(3-5) f by (auto simp: rman_seg_is_allocated_def)
  moreover have "owned (pre @ ?s # post) = owned (segs m) - {(res_private r, node, a, b)}"
    using owned_split [OF ord s(3)] ss s by simp
  ultimately show ?thesis using mg by auto
qed

subsection \<open>The manager is correct\<close>

text \<open>C6: the resource manager implements a set of free addresses and a set of owned ranges. Adding a
  region succeeds exactly when it meets no segment, and adds it to the free addresses. An allocation
  returns an aligned range of the size and within the bounds of the request that was free, and takes it
  out of the free addresses for the device node; it fails only when no aligned range of free addresses
  fits the request. Freeing gives back exactly the owned range. Each keeps the segments disjoint, in
  order and coalesced.\<close>

theorem rman_correct:
  assumes "rman_ok (segs m)" and "i \<noteq> j" and "i \<notin> seg_id ` set (segs m)" and "j \<notin> seg_id ` set (segs m)"
  shows "(sz \<noteq> 0 \<and> unat start + unat sz < 2 ^ 64 \<longrightarrow>
     (case rman_raw_add_region (Some i) (segs m) start sz of
        Inr ss' \<Rightarrow> rman_ok ss' \<and> {unat start..<unat start + unat sz} \<inter> addrs (segs m) = {} \<and>
          free_addrs ss' = free_addrs (segs m) \<union> {unat start..<unat start + unat sz} \<and> owned ss' = owned (segs m)
      | Inl e \<Rightarrow> e = EINVAL \<and> {unat start..<unat start + unat sz} \<inter> addrs (segs m) \<noteq> {})) \<and>
   (req_start rq \<le> req_end rq \<longrightarrow>
     (case rman_raw_allocate (Some i) (Some j) True m node rq of
        (Inr r, m') \<Rightarrow> rman_ok (segs m') \<and> fits rq (rq_size rq) (rq_align rq) (unat (res_start r)) \<and> res_size r = rq_size rq \<and>
          {unat (res_start r)..<unat (res_start r) + unat (rq_size rq)} \<subseteq> free_addrs (segs m) \<and>
          free_addrs (segs m') = free_addrs (segs m) - {unat (res_start r)..<unat (res_start r) + unat (rq_size rq)} \<and>
          owned (segs m') = insert (res_private r, node, unat (res_start r), unat (res_start r) + unat (rq_size rq)) (owned (segs m)) \<and>
          resources m' = (resources m)(node := resources m node @ [r])
      | (Inl e, m') \<Rightarrow> m' = m \<and>
          (if req_start rq mod rq_align rq \<noteq> 0 then e = EINVAL
           else e = ENOMEM \<and> (\<forall>a. fits rq (rq_size rq) (rq_align rq) a \<longrightarrow> \<not> {a..<a + unat (rq_size rq)} \<subseteq> free_addrs (segs m))))) \<and>
   ((res_private res, node, a, b) \<in> owned (segs m) \<longrightarrow>
     (\<exists>m'. rman_raw_free m node (Some res) = Inr m' \<and> rman_ok (segs m') \<and>
        free_addrs (segs m') = free_addrs (segs m) \<union> {a..<b} \<and>
        owned (segs m') = owned (segs m) - {(res_private res, node, a, b)} \<and>
        resources m' = resource_free (resources m) node res))"
  by (intro conjI impI)
    ((rule rman_add_region_ok [OF assms(1) _ _ assms(3)], simp_all)[1],
     rule rman_allocate_ok [OF assms(1) _ assms(2-4)], simp,
     rule rman_free_ok [OF assms(1)], simp)

definition ex_rman :: rman where
  "ex_rman = \<lparr>segs = [\<lparr>seg_id = 1, seg_devnode = None, seg_start = 16, seg_size = 16\<rparr>,
      \<lparr>seg_id = 2, seg_devnode = Some 7, seg_start = 32, seg_size = 8\<rparr>], rman_type = 2, resources = (\<lambda>_. [])\<rparr>"

lemma ex_rman_facts: "rman_ok (segs ex_rman)" "free_addrs (segs ex_rman) = {16..<32}" "owned (segs ex_rman) = {(2, 7, 32, 40)}"
  by (simp_all add: ex_rman_def rman_ok_def ordered_def coalesced_def seg_wf_def lo_def hi_def rman_seg_is_allocated_def)

theorem rman_correct_witness:
  "\<exists>m'. rman_raw_free ex_rman 7 (Some \<lparr>res_private = 2, res_start = 32, res_size = 8, res_flags = 2, res_rid = -1\<rparr>) = Inr m' \<and>
     free_addrs (segs m') = {16..<40} \<and> owned (segs m') = {}"
proof -
  have "\<exists>m'. rman_raw_free ex_rman 7 (Some \<lparr>res_private = 2, res_start = 32, res_size = 8, res_flags = 2, res_rid = -1\<rparr>) = Inr m' \<and>
     free_addrs (segs m') = {16..<32} \<union> {32..<40} \<and> owned (segs m') = {}"
    using rman_correct [OF ex_rman_facts(1), of 3 4 0 0 undefined 7
        "\<lparr>res_private = 2, res_start = 32, res_size = 8, res_flags = 2, res_rid = -1\<rparr>" 32 40] ex_rman_facts
    by (auto simp: ex_rman_def)
  moreover have "{16..<32} \<union> {32..<40} = {16..<40 :: nat}" by auto
  ultimately show ?thesis by simp
qed

text \<open>A request whose start is beyond its end is not refused: the size left wraps around and the
  allocation returns a range beyond the end.\<close>

lemma rman_end_wraps:
  "rman_seg_fit \<lparr>req_start = 100, req_end = 50, req_size = 4, req_align = 0, req_flags = 0\<rparr> 4 1
     \<lparr>seg_id = 1, seg_devnode = None, seg_start = 0, seg_size = 200\<rparr> = Some 100"
  by (simp add: rman_seg_fit_def Let_def)

text \<open>A region whose end wraps around is accepted over another one.\<close>

lemma rman_region_wraps:
  "rman_raw_add_region (Some 2) [\<lparr>seg_id = 1, seg_devnode = None, seg_start = 200, seg_size = 8\<rparr>] 100 (- 100) =
     Inr [\<lparr>seg_id = 2, seg_devnode = None, seg_start = 100, seg_size = - 100\<rparr>,
          \<lparr>seg_id = 1, seg_devnode = None, seg_start = 200, seg_size = 8\<rparr>]"
  by (simp add: rman_raw_add_region_def rman_get_seg_before_def rman_allocate_seg_def rman_merge_def rman_merge_prev_def
      rman_merge_next_def seg_find_def Let_def)

end
