(* ===== verification/Signal.thy ===== *)
theory Signal
  imports Prelude
begin

section \<open>Signals\<close>

text \<open>
  Models \<^verbatim>\<open>kernel/task/signal.c\<close>: pending signals, sending, dequeueing, and the delivery of a signal to a
  user handler with the return from it. Signal numbers, their order and the number of them are
  constants of the ABI headers: a set of signals is a set of numbers, \<open>name_of\<close> gives the name of a
  number and \<open>nsig\<close> is \<^verbatim>\<open>NSIG\<close>. User memory is seen at the granularity of what the code writes:
  signal frames and the return address below them.
\<close>

record siginfo =
  si_signo :: nat
  si_pid :: nat
  si_uid :: nat

record signal_context =
  pendings :: "siginfo list"
  pending_mask :: "nat set"

datatype disposition = IGN | KILL | CORE | STOP | CONT

datatype signame =
    SIGHUP | SIGINT | SIGQUIT | SIGILL | SIGTRAP | SIGABRT | SIGCAT | SIGFPE | SIGKILL | SIGBUS | SIGSEGV | SIGSYS
  | SIGPIPE | SIGALRM | SIGTERM | SIGURG | SIGSTOP | SIGTSTP | SIGCONT | SIGCHLD | SIGTTIN | SIGTTOU | SIGPOLL
  | SIGXCPU | SIGXFSZ | SIGVTALRM | SIGPROF | SIGWINCH | SIGINFO | SIGUSR1 | SIGUSR2 | SIGTHR

definition default_handling :: "signame \<Rightarrow> disposition" where
  "default_handling s =
     (case s of
        SIGHUP \<Rightarrow> KILL | SIGINT \<Rightarrow> KILL | SIGQUIT \<Rightarrow> CORE | SIGILL \<Rightarrow> CORE | SIGTRAP \<Rightarrow> CORE | SIGABRT \<Rightarrow> CORE
      | SIGCAT \<Rightarrow> IGN | SIGFPE \<Rightarrow> CORE | SIGKILL \<Rightarrow> KILL | SIGBUS \<Rightarrow> CORE | SIGSEGV \<Rightarrow> CORE | SIGSYS \<Rightarrow> CORE
      | SIGPIPE \<Rightarrow> KILL | SIGALRM \<Rightarrow> KILL | SIGTERM \<Rightarrow> KILL | SIGURG \<Rightarrow> IGN | SIGSTOP \<Rightarrow> STOP | SIGTSTP \<Rightarrow> STOP
      | SIGCONT \<Rightarrow> CONT | SIGCHLD \<Rightarrow> IGN | SIGTTIN \<Rightarrow> STOP | SIGTTOU \<Rightarrow> STOP | SIGPOLL \<Rightarrow> KILL | SIGXCPU \<Rightarrow> CORE
      | SIGXFSZ \<Rightarrow> CORE | SIGVTALRM \<Rightarrow> KILL | SIGPROF \<Rightarrow> KILL | SIGWINCH \<Rightarrow> IGN | SIGINFO \<Rightarrow> IGN | SIGUSR1 \<Rightarrow> IGN
      | SIGUSR2 \<Rightarrow> IGN | SIGTHR \<Rightarrow> IGN)"

datatype sa_handler = SIG_DFL | SIG_IGN | Handler u64

record sigaction =
  sa_handler :: sa_handler
  sa_resethand :: bool
  sa_nodefer :: bool
  sa_mask :: "nat set"

subsection \<open>Sending\<close>

text \<open>\<open>current\<close> is the process and user of the sender, when there is one.\<close>

definition signal_create_pending :: "bool \<Rightarrow> (nat \<times> nat) option \<Rightarrow> siginfo \<Rightarrow> siginfo option kres" where
  "signal_create_pending slab_ok current si =
     (if \<not> slab_ok then Inr None
      else if si_pid si = 0
      then (case current of
              None \<Rightarrow> Inl KPanic
            | Some (pid, uid) \<Rightarrow> Inr (Some (si\<lparr>si_pid := pid, si_uid := uid\<rparr>)))
      else Inr (Some si))"

definition signal_ignored :: "(nat \<Rightarrow> signame) \<Rightarrow> (nat \<Rightarrow> sigaction) \<Rightarrow> nat \<Rightarrow> bool" where
  "signal_ignored name_of acts signum \<longleftrightarrow>
     sa_handler (acts signum) = SIG_IGN \<or>
     (sa_handler (acts signum) = SIG_DFL \<and> default_handling (name_of signum) = IGN)"

definition signal_add_pending ::
    "(nat \<Rightarrow> signame) \<Rightarrow> signal_context \<Rightarrow> (nat \<Rightarrow> sigaction) \<Rightarrow> siginfo \<Rightarrow> bool \<times> signal_context" where
  "signal_add_pending name_of ctx acts si =
     (if si_signo si \<in> pending_mask ctx then (False, ctx)
      else if signal_ignored name_of acts (si_signo si) then (False, ctx)
      else (True, ctx\<lparr>pendings := pendings ctx @ [si], pending_mask := insert (si_signo si) (pending_mask ctx)\<rparr>))"

definition signal_add_lightweight_pending ::
    "(nat \<Rightarrow> signame) \<Rightarrow> signal_context \<Rightarrow> (nat \<Rightarrow> sigaction) \<Rightarrow> nat \<Rightarrow> bool \<times> signal_context" where
  "signal_add_lightweight_pending name_of ctx acts signum =
     (if signum \<in> pending_mask ctx then (False, ctx)
      else if signal_ignored name_of acts signum then (False, ctx)
      else (True, ctx\<lparr>pending_mask := insert signum (pending_mask ctx)\<rparr>))"

text \<open>A task: its mask, its context, whether the lock of the context is held, and whether the task was
  woken. A process: its actions, its context, its threads and those that were woken.\<close>

record sig_task =
  sig_mask :: "nat set"
  task_context :: signal_context
  context_locked :: bool
  task_woken :: bool

record sig_proc =
  sig_handlers :: "nat \<Rightarrow> sigaction"
  proc_context :: signal_context
  threads :: "nat list"
  threads_woken :: "nat list"

definition signal_send_siginfo_proc ::
    "(nat \<Rightarrow> signame) \<Rightarrow> bool \<Rightarrow> (nat \<times> nat) option \<Rightarrow> sig_proc \<Rightarrow> siginfo \<Rightarrow> ((errno + unit) \<times> sig_proc) kres" where
  "signal_send_siginfo_proc name_of slab_ok current p si =
     (if si_signo si = 0 then Inr (Inr (), p)
      else kbind (signal_create_pending slab_ok current si)
             (\<lambda>r. case r of
                None \<Rightarrow> Inr (Inl ENOMEM, p)
              | Some sp \<Rightarrow>
                  (case signal_add_pending name_of (proc_context p) (sig_handlers p) sp of
                     (True, ctx) \<Rightarrow> Inr (Inr (), p\<lparr>proc_context := ctx, threads_woken := threads_woken p @ threads p\<rparr>)
                   | (False, ctx) \<Rightarrow> Inr (Inr (), p\<lparr>proc_context := ctx\<rparr>))))"

text \<open>The members of a group, each with whether memory can be allocated when its turn comes.\<close>

fun signal_send_each ::
    "(nat \<Rightarrow> signame) \<Rightarrow> (nat \<times> nat) option \<Rightarrow> (bool \<times> sig_proc) list \<Rightarrow> siginfo \<Rightarrow> sig_proc list kres" where
  "signal_send_each name_of current [] si = Inr []"
| "signal_send_each name_of current ((slab_ok, p) # ps) si =
     kbind (signal_send_siginfo_proc name_of slab_ok current p si)
       (\<lambda>(_, p1). kbind (signal_send_each name_of current ps si) (\<lambda>ps1. Inr (p1 # ps1)))"

definition signal_send_siginfo_group ::
    "(nat \<Rightarrow> signame) \<Rightarrow> (nat \<times> nat) option \<Rightarrow> (bool \<times> sig_proc) list option \<Rightarrow> siginfo
      \<Rightarrow> ((errno + unit) \<times> sig_proc list) kres" where
  "signal_send_siginfo_group name_of current grp si =
     (case grp of
        None \<Rightarrow> Inr (if si_signo si = 0 then Inr () else Inl ESRCH, [])
      | Some ps \<Rightarrow>
          if si_signo si = 0 then Inr (Inr (), map snd ps)
          else kbind (signal_send_each name_of current ps si) (\<lambda>ps1. Inr (Inr (), ps1)))"

text \<open>Acquiring a lock that was left held never returns.\<close>

definition signal_task_pend :: "sig_task \<Rightarrow> nat \<Rightarrow> bool \<times> signal_context \<Rightarrow> (errno + unit) \<times> sig_task" where
  "signal_task_pend t signum r =
     (case r of
        (True, ctx) \<Rightarrow>
          (if signum \<in> sig_mask t
           then (Inr (), t\<lparr>task_context := ctx, task_woken := True, context_locked := True\<rparr>)
           else (Inr (), t\<lparr>task_context := ctx, context_locked := False\<rparr>))
      | (False, ctx) \<Rightarrow> (Inr (), t\<lparr>task_context := ctx, context_locked := False\<rparr>))"

definition signal_send_siginfo_task ::
    "(nat \<Rightarrow> signame) \<Rightarrow> bool \<Rightarrow> (nat \<times> nat) option \<Rightarrow> (nat \<Rightarrow> sigaction) \<Rightarrow> sig_task \<Rightarrow> siginfo
      \<Rightarrow> ((errno + unit) \<times> sig_task) kres" where
  "signal_send_siginfo_task name_of slab_ok current acts t si =
     (if si_signo si = 0 then Inr (Inr (), t)
      else kbind (signal_create_pending slab_ok current si)
             (\<lambda>r. case r of
                None \<Rightarrow> Inr (Inl ENOMEM, t)
              | Some sp \<Rightarrow>
                  if context_locked t then Inl KNoReturn
                  else Inr (signal_task_pend t (si_signo si) (signal_add_pending name_of (task_context t) acts sp))))"

definition signal_send_siginfo_lightweight_task ::
    "(nat \<Rightarrow> signame) \<Rightarrow> (nat \<Rightarrow> sigaction) \<Rightarrow> sig_task \<Rightarrow> nat \<Rightarrow> ((errno + unit) \<times> sig_task) kres" where
  "signal_send_siginfo_lightweight_task name_of acts t signum =
     (if signum = 0 then Inr (Inr (), t)
      else if context_locked t then Inl KNoReturn
      else Inr (signal_task_pend t signum (signal_add_lightweight_pending name_of (task_context t) acts signum)))"

text \<open>The variants that take only a number leave the sender to be filled in.\<close>

definition signal_send_task ::
    "(nat \<Rightarrow> signame) \<Rightarrow> bool \<Rightarrow> (nat \<times> nat) option \<Rightarrow> (nat \<Rightarrow> sigaction) \<Rightarrow> sig_task \<Rightarrow> nat
      \<Rightarrow> ((errno + unit) \<times> sig_task) kres" where
  "signal_send_task name_of slab_ok current acts t signum =
     signal_send_siginfo_task name_of slab_ok current acts t \<lparr>si_signo = signum, si_pid = 0, si_uid = 0\<rparr>"

definition signal_send_proc ::
    "(nat \<Rightarrow> signame) \<Rightarrow> bool \<Rightarrow> (nat \<times> nat) option \<Rightarrow> sig_proc \<Rightarrow> nat \<Rightarrow> ((errno + unit) \<times> sig_proc) kres" where
  "signal_send_proc name_of slab_ok current p signum =
     signal_send_siginfo_proc name_of slab_ok current p \<lparr>si_signo = signum, si_pid = 0, si_uid = 0\<rparr>"

definition signal_send_group ::
    "(nat \<Rightarrow> signame) \<Rightarrow> (nat \<times> nat) option \<Rightarrow> (bool \<times> sig_proc) list option \<Rightarrow> nat
      \<Rightarrow> ((errno + unit) \<times> sig_proc list) kres" where
  "signal_send_group name_of current grp signum =
     signal_send_siginfo_group name_of current grp \<lparr>si_signo = signum, si_pid = 0, si_uid = 0\<rparr>"

text \<open>The pending signals that destroying a context frees.\<close>

definition signal_context_destroy :: "signal_context \<Rightarrow> siginfo list" where
  "signal_context_destroy ctx = pendings ctx"

subsection \<open>Dequeueing\<close>

datatype scan = NothingFound | Found siginfo | Interrupted

fun dequeue_scan :: "nat set \<Rightarrow> nat set \<Rightarrow> siginfo list \<Rightarrow> scan" where
  "dequeue_scan msk blocked [] = NothingFound"
| "dequeue_scan msk blocked (s # ss) =
     (if si_signo s \<in> msk then Found s
      else if si_signo s \<notin> blocked then Interrupted
      else dequeue_scan msk blocked ss)"

definition signal_dequeue_context ::
    "nat \<Rightarrow> nat set \<Rightarrow> signal_context \<Rightarrow> nat set \<Rightarrow> (errno + nat) \<times> siginfo option \<times> signal_context" where
  "signal_dequeue_context nsig blocked ctx msk =
     (case dequeue_scan msk blocked (pendings ctx) of
        Found s \<Rightarrow> (Inr (si_signo s), Some s,
                    ctx\<lparr>pendings := remove1 s (pendings ctx), pending_mask := pending_mask ctx - {si_signo s}\<rparr>)
      | Interrupted \<Rightarrow> (Inl EINTR, None, ctx)
      | NothingFound \<Rightarrow>
          (case (if pending_mask ctx \<inter> msk \<noteq> {} then find (\<lambda>n. n \<in> pending_mask ctx \<and> n \<in> msk) [1..<nsig] else None) of
             Some n \<Rightarrow> (Inr n, Some \<lparr>si_signo = n, si_pid = 0, si_uid = 0\<rparr>, ctx\<lparr>pending_mask := pending_mask ctx - {n}\<rparr>)
           | None \<Rightarrow> (if pending_mask ctx - blocked \<noteq> {} then Inl EINTR else Inr 0, None, ctx)))"

definition signal_dequeue ::
    "nat \<Rightarrow> nat set \<Rightarrow> signal_context \<Rightarrow> signal_context \<Rightarrow> nat set
      \<Rightarrow> (errno + nat) \<times> siginfo option \<times> signal_context \<times> signal_context" where
  "signal_dequeue nsig blocked tctx pctx msk =
     (case signal_dequeue_context nsig blocked tctx msk of
        (ret, si, tctx') \<Rightarrow>
          if ret = Inr 0
          then (case signal_dequeue_context nsig blocked pctx msk of (ret', si', pctx') \<Rightarrow> (ret', si', tctx', pctx'))
          else (ret, si, tctx', pctx))"

definition signal_get_pending_mask :: "signal_context \<Rightarrow> signal_context \<Rightarrow> nat set" where
  "signal_get_pending_mask tctx pctx = pending_mask tctx \<union> pending_mask pctx"

definition signal_get_unhandled_mask :: "nat set \<Rightarrow> signal_context \<Rightarrow> signal_context \<Rightarrow> nat set" where
  "signal_get_unhandled_mask blocked tctx pctx = signal_get_pending_mask tctx pctx - blocked"

subsection \<open>Delivery\<close>

text \<open>The registers the code touches; \<open>reg_rest\<close> are the others. \<open>fpu\<close> and \<open>tls_base\<close> are the other parts
  of the context, \<open>frames\<close> and \<open>words\<close> the user memory.\<close>

record 'r registers =
  reg_sp :: u64
  reg_pc :: u64
  reg_arg1 :: u64
  reg_arg2 :: u64
  reg_arg3 :: u64
  reg_cs :: u64
  reg_rest :: 'r

record ('r, 'f) signal_frame =
  uc_sigmask :: "nat set"
  uc_fpu :: 'f
  uc_tls_base :: u64
  uc_frame :: "'r registers"
  frame_siginfo :: siginfo

record ('r, 'f) sig_cpu =
  regs :: "'r registers"
  cpu_fpu :: 'f
  tls_base :: u64
  blocked :: "nat set"
  actions :: "nat \<Rightarrow> sigaction"
  frames :: "u64 \<Rightarrow> ('r, 'f) signal_frame"
  words :: "u64 \<Rightarrow> u64"

datatype 'a delivery = Exited nat | Running 'a

definition MAGIC_SIGRETURN :: u64 where
  "MAGIC_SIGRETURN = 0x4848"

definition arch_registers_is_userspace :: "'r registers \<Rightarrow> bool" where
  "arch_registers_is_userspace r \<longleftrightarrow> reg_cs r = 0x1b"

text \<open>\<open>handle_default\<close> ends the process or does nothing.\<close>

definition handle_default :: "(nat \<Rightarrow> signame) \<Rightarrow> nat \<Rightarrow> 'a \<Rightarrow> 'a delivery" where
  "handle_default name_of signum st =
     (case default_handling (name_of signum) of
        CORE \<Rightarrow> Exited signum | KILL \<Rightarrow> Exited signum | IGN \<Rightarrow> Running st | CONT \<Rightarrow> Running st | STOP \<Rightarrow> Running st)"

text \<open>What the delivery relies on from elsewhere: the sizes of the frame and of the \<^verbatim>\<open>ucontext_t\<close>
  at its start, the value a fresh floating point context has, whether the task uses the floating point
  unit, the number of \<^verbatim>\<open>SIGILL\<close>, and which user ranges can be written and read.\<close>

record 'f sig_env =
  frame_size :: u64
  ucontext_size :: u64
  fresh_fpu :: 'f
  uses_fpu :: bool
  sigill :: nat
  can_write :: "u64 \<Rightarrow> u64 \<Rightarrow> bool"
  can_read :: "u64 \<Rightarrow> u64 \<Rightarrow> bool"

definition frame_address :: "'f sig_env \<Rightarrow> u64 \<Rightarrow> u64" where
  "frame_address env sp = and (sp - 128 - frame_size env) (not 0xf)"

definition signal_handle_siginfo ::
    "(nat \<Rightarrow> signame) \<Rightarrow> 'f sig_env \<Rightarrow> ('r, 'f) sig_cpu \<Rightarrow> siginfo \<Rightarrow> ('r, 'f) sig_cpu delivery" where
  "signal_handle_siginfo name_of env st si =
     (let signum = si_signo si; act = actions st signum;
          st1 = (if sa_resethand act \<and> sa_handler act \<noteq> SIG_IGN
                 then st\<lparr>actions := (actions st)(signum := act\<lparr>sa_handler := SIG_DFL\<rparr>)\<rparr> else st)
      in case sa_handler act of
           SIG_IGN \<Rightarrow> Running st1
         | SIG_DFL \<Rightarrow> handle_default name_of signum st1
         | Handler pc \<Rightarrow>
             (let frame_at = frame_address env (reg_sp (regs st1));
                  frame = \<lparr>uc_sigmask = blocked st1, uc_fpu = (if uses_fpu env then cpu_fpu st1 else fresh_fpu env),
                           uc_tls_base = tls_base st1, uc_frame = regs st1, frame_siginfo = si\<rparr>
              in if \<not> can_write env frame_at (frame_size env) then Exited (sigill env)
                 else if \<not> can_write env (frame_at - 8) 8 then Exited (sigill env)
                 else Running (st1\<lparr>frames := (frames st1)(frame_at := frame),
                        words := (words st1)(frame_at - 8 := MAGIC_SIGRETURN),
                        blocked := blocked st1 \<union> sa_mask act \<union> (if sa_nodefer act then {} else {signum}),
                        regs := (regs st1)\<lparr>reg_sp := frame_at - 8, reg_pc := pc, reg_arg1 := word_of_nat signum,
                                  reg_arg2 := frame_at + ucontext_size env, reg_arg3 := frame_at\<rparr>\<rparr>)))"

text \<open>Up to 64 signals are handled on a return to userspace, thread signals before process signals.\<close>

fun signal_handle ::
    "(nat \<Rightarrow> signame) \<Rightarrow> nat \<Rightarrow> 'f sig_env \<Rightarrow> nat \<Rightarrow> ('r, 'f) sig_cpu \<Rightarrow> signal_context \<Rightarrow> signal_context
      \<Rightarrow> (('r, 'f) sig_cpu \<times> signal_context \<times> signal_context) delivery" where
  "signal_handle name_of nsig env 0 st tctx pctx = Running (st, tctx, pctx)"
| "signal_handle name_of nsig env (Suc mx) st tctx pctx =
     (case signal_dequeue nsig (blocked st) tctx pctx (- blocked st) of
        (ret, si, tctx1, pctx1) \<Rightarrow>
          (case ret of
             Inl _ \<Rightarrow> Running (st, tctx1, pctx1)
           | Inr n \<Rightarrow>
               if n = 0 then Running (st, tctx1, pctx1)
               else (case signal_handle_siginfo name_of env st (the si) of
                       Exited k \<Rightarrow> Exited k
                     | Running st1 \<Rightarrow> signal_handle name_of nsig env mx st1 tctx1 pctx1)))"

definition signal_restore_handler :: "'f sig_env \<Rightarrow> ('r, 'f) sig_cpu \<Rightarrow> ('r, 'f) sig_cpu delivery" where
  "signal_restore_handler env st =
     (let frame = frames st (reg_sp (regs st)) in
      if \<not> can_read env (reg_sp (regs st)) (frame_size env) then Exited (sigill env)
      else (let st1 = st\<lparr>blocked := uc_sigmask frame\<rparr> in
            if \<not> arch_registers_is_userspace (regs st1) then Exited (sigill env)
            else Running (st1\<lparr>tls_base := uc_tls_base frame,
                               cpu_fpu := (if uses_fpu env then uc_fpu frame else cpu_fpu st1),
                               regs := uc_frame frame\<rparr>)))"

subsection \<open>Dequeueing is exact\<close>

text \<open>A context is in order when no signal is queued twice and every queued signal has its bit.\<close>

definition ctx_ok :: "nat \<Rightarrow> signal_context \<Rightarrow> bool" where
  "ctx_ok nsig ctx \<longleftrightarrow> distinct (map si_signo (pendings ctx)) \<and> (\<forall>s \<in> set (pendings ctx). si_signo s \<in> pending_mask ctx) \<and>
     pending_mask ctx \<subseteq> {1..<nsig}"

lemma signal_add_pending_ok:
  assumes "ctx_ok nsig ctx" and "si_signo si \<in> {1..<nsig}" and "signal_add_pending name_of ctx acts si = (added, ctx')"
  shows "ctx_ok nsig ctx' \<and> pending_mask ctx' = pending_mask ctx \<union> (if added then {si_signo si} else {}) \<and>
     (added \<longleftrightarrow> si_signo si \<notin> pending_mask ctx \<and> \<not> signal_ignored name_of acts (si_signo si))"
  using assms by (auto simp: signal_add_pending_def ctx_ok_def split: if_splits)

lemma signal_add_lightweight_pending_ok:
  assumes "ctx_ok nsig ctx" and "signum \<in> {1..<nsig}" and "signal_add_lightweight_pending name_of ctx acts signum = (added, ctx')"
  shows "ctx_ok nsig ctx' \<and> pending_mask ctx' = pending_mask ctx \<union> (if added then {signum} else {})"
  using assms by (auto simp: signal_add_lightweight_pending_def ctx_ok_def split: if_splits)

lemma dequeue_scan_cases:
  "case dequeue_scan msk blk ss of
     Found s \<Rightarrow> s \<in> set ss \<and> si_signo s \<in> msk
   | Interrupted \<Rightarrow> \<exists>s \<in> set ss. si_signo s \<notin> msk \<and> si_signo s \<notin> blk
   | NothingFound \<Rightarrow> \<forall>s \<in> set ss. si_signo s \<notin> msk \<and> si_signo s \<in> blk"
  by (induction ss) (auto split: scan.splits)

lemma remove1_signo:
  "distinct (map si_signo ss) \<Longrightarrow> s \<in> set ss \<Longrightarrow> remove1 s ss = filter (\<lambda>x. si_signo x \<noteq> si_signo s) ss"
proof (induction ss)
  case (Cons x ss)
  show ?case
  proof (cases "x = s")
    case True
    with Cons.prems(1) have "\<forall>y \<in> set ss. si_signo y \<noteq> si_signo s" by (metis distinct.simps(2) image_eqI image_set list.simps(9))
    then have "filter (\<lambda>y. si_signo y \<noteq> si_signo s) ss = ss" by (rule filter_True)
    then show ?thesis using True by simp
  next
    case False
    then have "s \<in> set ss" "si_signo x \<noteq> si_signo s" using Cons.prems by auto
    then show ?thesis using False Cons by simp
  qed
qed simp

definition took :: "signal_context \<Rightarrow> signal_context \<Rightarrow> nat \<Rightarrow> bool" where
  "took ctx ctx' n \<longleftrightarrow> n \<in> pending_mask ctx \<and> pending_mask ctx' = pending_mask ctx - {n} \<and>
     pendings ctx' = filter (\<lambda>s. si_signo s \<noteq> n) (pendings ctx)"

definition dequeued :: "nat \<Rightarrow> nat set \<Rightarrow> signal_context \<Rightarrow> nat set \<Rightarrow> errno + nat \<Rightarrow> siginfo option \<Rightarrow> signal_context \<Rightarrow> bool" where
  "dequeued nsig blk ctx msk ret si ctx' \<longleftrightarrow> ctx_ok nsig ctx' \<and>
     (case ret of
        Inl e \<Rightarrow> e = EINTR \<and> ctx' = ctx \<and> pending_mask ctx - blk - msk \<noteq> {}
      | Inr n \<Rightarrow>
          if n = 0 then ctx' = ctx \<and> pending_mask ctx \<inter> (msk \<union> - blk) = {}
          else n \<in> msk \<and> took ctx ctx' n \<and> (\<exists>i. si = Some i \<and> si_signo i = n))"

lemma took_ok: "ctx_ok nsig ctx \<Longrightarrow> took ctx ctx' n \<Longrightarrow> ctx_ok nsig ctx'"
  by (auto simp: ctx_ok_def took_def distinct_map inj_on_def)

lemma find_Some_least: "find P xs = Some x \<Longrightarrow> x \<in> set xs \<and> P x"
  by (induction xs) (auto split: if_splits)

lemma signal_dequeue_context_spec:
  assumes ok: "ctx_ok nsig ctx" and d: "signal_dequeue_context nsig blk ctx msk = (ret, si, ctx')"
  shows "dequeued nsig blk ctx msk ret si ctx'"
proof (cases "dequeue_scan msk blk (pendings ctx)")
  case (Found s)
  then have s: "s \<in> set (pendings ctx)" "si_signo s \<in> msk" using dequeue_scan_cases [where msk = msk and blk = blk and ss = "pendings ctx"] by simp_all
  have pos: "si_signo s \<in> pending_mask ctx" "si_signo s \<noteq> 0" using ok s(1) by (auto simp: ctx_ok_def)
  have "took ctx ctx' (si_signo s)"
    using d Found s(1) pos ok remove1_signo [of "pendings ctx" s]
    by (auto simp: signal_dequeue_context_def took_def ctx_ok_def)
  then show ?thesis
    using d Found s(2) pos(2) took_ok [OF ok] by (auto simp: signal_dequeue_context_def dequeued_def)
next
  case Interrupted
  then obtain s where "s \<in> set (pendings ctx)" "si_signo s \<notin> msk" "si_signo s \<notin> blk"
    using dequeue_scan_cases [where msk = msk and blk = blk and ss = "pendings ctx"] by auto
  then have "pending_mask ctx - blk - msk \<noteq> {}" using ok by (auto simp: ctx_ok_def)
  then show ?thesis using d Interrupted ok by (auto simp: signal_dequeue_context_def dequeued_def)
next
  case NothingFound
  then have none: "\<forall>s \<in> set (pendings ctx). si_signo s \<notin> msk"
    using dequeue_scan_cases [where msk = msk and blk = blk and ss = "pendings ctx"] by simp
  let ?f = "if pending_mask ctx \<inter> msk \<noteq> {} then find (\<lambda>n. n \<in> pending_mask ctx \<and> n \<in> msk) [1..<nsig] else None"
  show ?thesis
  proof (cases ?f)
    case None
    have "pending_mask ctx \<inter> msk = {}"
    proof (rule ccontr)
      assume "pending_mask ctx \<inter> msk \<noteq> {}"
      then obtain n where n: "n \<in> pending_mask ctx" "n \<in> msk" by auto
      then have "n \<in> set [1..<nsig]" using ok by (auto simp: ctx_ok_def)
      then show False using None n \<open>pending_mask ctx \<inter> msk \<noteq> {}\<close> by (auto simp: find_None_iff)
    qed
    then have m: "pending_mask ctx - blk - msk = pending_mask ctx - blk"
      "pending_mask ctx \<inter> (msk \<union> - blk) = pending_mask ctx - blk" by blast+
    have "(if pending_mask ctx - blk \<noteq> {} then Inl EINTR else Inr 0, None, ctx) = (ret, si, ctx')"
      using d unfolding signal_dequeue_context_def NothingFound scan.case None option.case .
    then have "ctx' = ctx" "ret = (if pending_mask ctx - blk \<noteq> {} then Inl EINTR else Inr 0)" by blast+
    then show ?thesis using ok m by (cases "pending_mask ctx - blk = {}") (simp_all add: dequeued_def)
  next
    case (Some n)
    then have n: "n \<in> pending_mask ctx" "n \<in> msk" "n \<noteq> 0"
      using find_Some_least [of "\<lambda>n. n \<in> pending_mask ctx \<and> n \<in> msk" "[1..<nsig]" n] by (auto split: if_splits)
    have "filter (\<lambda>s. si_signo s \<noteq> n) (pendings ctx) = pendings ctx"
      using none n(2) by (intro filter_True) auto
    then have "took ctx ctx' n"
      using d NothingFound Some n(1) unfolding signal_dequeue_context_def by (auto simp: took_def)
    then show ?thesis
      using d NothingFound Some n took_ok [OF ok] unfolding signal_dequeue_context_def by (auto simp: dequeued_def)
  qed
qed

text \<open>C13: dequeueing is exact. A signal is returned only when it is pending and in the mask, and exactly
  this one is taken from the thread's context, or from the process's when the thread has nothing to
  report; \<^verbatim>\<open>EINTR\<close> is returned only when an unblocked signal outside the mask is pending, and
  nothing changes; 0 only when neither kind is pending in either context. With the complement of the
  blocked signals as the mask, an unblocked pending signal is always found.\<close>

theorem signal_dequeue_correct:
  assumes "ctx_ok nsig tctx" and "ctx_ok nsig pctx"
    and "signal_dequeue nsig blk tctx pctx msk = (ret, si, tctx', pctx')"
  shows "ctx_ok nsig tctx' \<and> ctx_ok nsig pctx' \<and>
    (case ret of
       Inl e \<Rightarrow> e = EINTR \<and> tctx' = tctx \<and> pctx' = pctx \<and> signal_get_unhandled_mask blk tctx pctx - msk \<noteq> {}
     | Inr n \<Rightarrow>
         if n = 0 then tctx' = tctx \<and> pctx' = pctx \<and> signal_get_pending_mask tctx pctx \<inter> (msk \<union> - blk) = {}
         else n \<in> msk \<and> (\<exists>i. si = Some i \<and> si_signo i = n) \<and>
           (took tctx tctx' n \<and> pctx' = pctx \<or>
            took pctx pctx' n \<and> tctx' = tctx \<and> pending_mask tctx \<inter> (msk \<union> - blk) = {})) \<and>
    (msk = - blk \<and> signal_get_unhandled_mask blk tctx pctx \<noteq> {} \<longrightarrow> (\<exists>n. ret = Inr n \<and> n \<noteq> 0))"
proof -
  obtain r1 si1 c1 where d1: "signal_dequeue_context nsig blk tctx msk = (r1, si1, c1)" by (metis prod_cases3)
  obtain r2 si2 c2 where d2: "signal_dequeue_context nsig blk pctx msk = (r2, si2, c2)" by (metis prod_cases3)
  have s1: "dequeued nsig blk tctx msk r1 si1 c1" by (rule signal_dequeue_context_spec [OF assms(1) d1])
  have s2: "dequeued nsig blk pctx msk r2 si2 c2" by (rule signal_dequeue_context_spec [OF assms(2) d2])
  show ?thesis
  proof (cases "r1 = Inr 0")
    case True
    then have "(ret, si, tctx', pctx') = (r2, si2, c1, c2)" using assms(3) d1 d2 by (simp add: signal_dequeue_def)
    with s1 s2 True assms(1,2) show ?thesis
      by (cases r2) (auto simp: dequeued_def signal_get_unhandled_mask_def signal_get_pending_mask_def split: if_splits)
  next
    case False
    then have "(ret, si, tctx', pctx') = (r1, si1, c1, pctx)" using assms(3) d1 by (simp add: signal_dequeue_def)
    with s1 False assms(2) show ?thesis
      by (cases r1) (auto simp: dequeued_def signal_get_unhandled_mask_def signal_get_pending_mask_def split: if_splits)
  qed
qed

definition ex_ctx :: signal_context where
  "ex_ctx = \<lparr>pendings = [\<lparr>si_signo = 2, si_pid = 9, si_uid = 0\<rparr>, \<lparr>si_signo = 15, si_pid = 9, si_uid = 0\<rparr>], pending_mask = {2, 14, 15}\<rparr>"

theorem signal_dequeue_correct_witness:
  "signal_dequeue 33 {2} ex_ctx \<lparr>pendings = [], pending_mask = {}\<rparr> (- {2}) =
     (Inr 15, Some \<lparr>si_signo = 15, si_pid = 9, si_uid = 0\<rparr>,
      \<lparr>pendings = [\<lparr>si_signo = 2, si_pid = 9, si_uid = 0\<rparr>], pending_mask = {2, 14}\<rparr>, \<lparr>pendings = [], pending_mask = {}\<rparr>) \<and>
   ctx_ok 33 \<lparr>pendings = [\<lparr>si_signo = 2, si_pid = 9, si_uid = 0\<rparr>], pending_mask = {2, 14}\<rparr>"
proof -
  have d: "signal_dequeue 33 {2} ex_ctx \<lparr>pendings = [], pending_mask = {}\<rparr> (- {2}) =
     (Inr 15, Some \<lparr>si_signo = 15, si_pid = 9, si_uid = 0\<rparr>,
      \<lparr>pendings = [\<lparr>si_signo = 2, si_pid = 9, si_uid = 0\<rparr>], pending_mask = {2, 14}\<rparr>, \<lparr>pendings = [], pending_mask = {}\<rparr>)"
    by (auto simp: signal_dequeue_def signal_dequeue_context_def ex_ctx_def)
  have "ctx_ok 33 ex_ctx" "ctx_ok 33 \<lparr>pendings = [], pending_mask = {}\<rparr>" by (simp_all add: ctx_ok_def ex_ctx_def)
  from signal_dequeue_correct [OF this d] d show ?thesis by simp
qed

subsection \<open>Delivery and return\<close>

lemma frame_address_aligned: "16 dvd unat (frame_address env sp)"
proof -
  have m: "(0xf :: u64) = mask 4" by (simp add: mask_eq_exp_minus_1)
  have "take_bit 4 (frame_address env sp) = 0"
    unfolding frame_address_def m by (simp add: take_bit_eq_mask and.assoc del: take_bit_and)
  then have "take_bit 4 (unat (frame_address env sp)) = 0" by (metis unsigned_0 unsigned_take_bit_eq)
  then show ?thesis by (simp add: take_bit_eq_mod dvd_eq_mod_eq_0)
qed

lemma frame_below_red_zone:
  assumes "128 + unat (frame_size env) \<le> unat sp"
  shows "unat (frame_address env sp) + unat (frame_size env) \<le> unat sp - 128"
proof -
  have "unat (128 :: u64) = 128" by simp
  then have a: "unat (sp - 128) = unat sp - 128" using assms unat_sub [of 128 sp] by (simp add: word_le_nat_alt)
  then have b: "unat (sp - 128 - frame_size env) = unat sp - 128 - unat (frame_size env)"
    using assms unat_sub [of "frame_size env" "sp - 128"] by (simp add: word_le_nat_alt)
  have "frame_address env sp \<le> sp - 128 - frame_size env" unfolding frame_address_def by (rule word_and_le2)
  then have "unat (frame_address env sp) \<le> unat sp - 128 - unat (frame_size env)" using b by (simp add: word_le_nat_alt)
  then show ?thesis using assms by linarith
qed

text \<open>What a delivery to a handler leaves: the frame holds the interrupted context.\<close>

lemma signal_handle_siginfo_handler:
  assumes "sa_handler (actions st (si_signo si)) = Handler pc"
    and "signal_handle_siginfo name_of env st si = Running st'"
  shows "reg_sp (regs st') = frame_address env (reg_sp (regs st)) - 8 \<and> reg_pc (regs st') = pc \<and>
    reg_cs (regs st') = reg_cs (regs st) \<and> reg_arg1 (regs st') = word_of_nat (si_signo si) \<and> reg_arg3 (regs st') = frame_address env (reg_sp (regs st)) \<and>
    words st' (reg_sp (regs st')) = MAGIC_SIGRETURN \<and>
    frames st' (frame_address env (reg_sp (regs st))) =
      \<lparr>uc_sigmask = blocked st, uc_fpu = (if uses_fpu env then cpu_fpu st else fresh_fpu env),
       uc_tls_base = tls_base st, uc_frame = regs st, frame_siginfo = si\<rparr> \<and>
    blocked st \<subseteq> blocked st' \<and> (\<not> sa_nodefer (actions st (si_signo si)) \<longrightarrow> si_signo si \<in> blocked st')"
  using assms by (auto simp: signal_handle_siginfo_def Let_def split: if_splits)

text \<open>C12: a signal handler returns to where the program was interrupted. A delivery to a handler aligns the
  frame to 16 bytes, puts it below the red zone of the interrupted code, leaves the magic return address
  on top of the stack and blocks the signal unless \<^verbatim>\<open>SA_NODEFER\<close> is set. When the handler has popped
  that address and left the frame alone, whatever it did to the other registers, the thread pointer, the
  mask and the floating point unit, the return from it restores every register, the mask, the thread
  pointer and the floating point context the program had.\<close>

theorem signal_return_restores:
  assumes "sa_handler (actions st (si_signo si)) = Handler pc"
    and "signal_handle_siginfo name_of env st si = Running st'"
    and "128 + unat (frame_size env) \<le> unat (reg_sp (regs st))"
    and "frames st2 = frames st'" and "reg_sp (regs st2) = reg_sp (regs st') + 8"
    and "arch_registers_is_userspace (regs st2)" and "can_read env (reg_sp (regs st2)) (frame_size env)"
  shows "16 dvd unat (reg_sp (regs st2)) \<and>
    unat (reg_sp (regs st2)) + unat (frame_size env) \<le> unat (reg_sp (regs st)) - 128 \<and>
    words st' (reg_sp (regs st')) = MAGIC_SIGRETURN \<and> reg_pc (regs st') = pc \<and>
    (\<not> sa_nodefer (actions st (si_signo si)) \<longrightarrow> si_signo si \<in> blocked st') \<and>
    (\<exists>st3. signal_restore_handler env st2 = Running st3 \<and> regs st3 = regs st \<and> blocked st3 = blocked st \<and>
       tls_base st3 = tls_base st \<and> (uses_fpu env \<longrightarrow> cpu_fpu st3 = cpu_fpu st))"
proof -
  note h = signal_handle_siginfo_handler [OF assms(1,2)]
  have sp: "reg_sp (regs st2) = frame_address env (reg_sp (regs st))" using h assms(5) by simp
  have "\<exists>st3. signal_restore_handler env st2 = Running st3 \<and> regs st3 = regs st \<and> blocked st3 = blocked st \<and>
       tls_base st3 = tls_base st \<and> (uses_fpu env \<longrightarrow> cpu_fpu st3 = cpu_fpu st)"
    using h assms(4,6,7) by (simp add: signal_restore_handler_def Let_def sp)
  then show ?thesis
    using h frame_address_aligned [of env "reg_sp (regs st)"] frame_below_red_zone [OF assms(3)] unfolding sp by blast
qed

definition ex_env :: "nat sig_env" where
  "ex_env = \<lparr>frame_size = 0x3a0, ucontext_size = 0x380, fresh_fpu = 0, uses_fpu = True, sigill = 4,
             can_write = (\<lambda>a n. 0x1000 \<le> a), can_read = (\<lambda>a n. 0x1000 \<le> a)\<rparr>"

definition ex_cpu :: "(nat, nat) sig_cpu" where
  "ex_cpu =
     (let r = \<lparr>reg_sp = 0x7008, reg_pc = 0x400010, reg_arg1 = 1, reg_arg2 = 2, reg_arg3 = 3, reg_cs = 0x1b, reg_rest = 5\<rparr>
      in \<lparr>regs = r, cpu_fpu = 7, tls_base = 0x9000, blocked = {14},
          actions = (\<lambda>_. \<lparr>sa_handler = Handler 0x400800, sa_resethand = False, sa_nodefer = False, sa_mask = {15}\<rparr>),
          frames = (\<lambda>_. \<lparr>uc_sigmask = {}, uc_fpu = 0, uc_tls_base = 0, uc_frame = r,
                        frame_siginfo = \<lparr>si_signo = 0, si_pid = 0, si_uid = 0\<rparr>\<rparr>),
          words = (\<lambda>_. 0)\<rparr>)"

definition ex_info :: siginfo where
  "ex_info = \<lparr>si_signo = 2, si_pid = 9, si_uid = 0\<rparr>"

definition ex_handling :: "(nat, nat) sig_cpu" where
  "ex_handling = (case signal_handle_siginfo (\<lambda>_. SIGINT) ex_env ex_cpu ex_info of Running st \<Rightarrow> st | Exited _ \<Rightarrow> ex_cpu)"

text \<open>The handler changes the registers, the mask, the thread pointer and the floating point unit.\<close>

definition ex_handled :: "(nat, nat) sig_cpu" where
  "ex_handled = ex_handling\<lparr>regs := (regs ex_handling)\<lparr>reg_sp := reg_sp (regs ex_handling) + 8, reg_arg1 := 77, reg_rest := 99\<rparr>,
                            cpu_fpu := 1, tls_base := 0, blocked := {}\<rparr>"

lemma ex_frame_at: "frame_address ex_env 0x7008 = 0x6be0"
  by (simp add: frame_address_def ex_env_def)

lemma ex_handling_eq: "signal_handle_siginfo (\<lambda>_. SIGINT) ex_env ex_cpu ex_info = Running ex_handling"
  by (simp add: ex_handling_def signal_handle_siginfo_def Let_def ex_cpu_def ex_info_def ex_frame_at)
     (simp add: ex_env_def)

theorem signal_return_restores_witness:
  "\<exists>st3. signal_restore_handler ex_env ex_handled = Running st3 \<and> regs st3 = regs ex_cpu \<and> blocked st3 = {14} \<and>
     tls_base st3 = 0x9000 \<and> cpu_fpu st3 = 7"
proof -
  have a: "sa_handler (actions ex_cpu (si_signo ex_info)) = Handler 0x400800" by (simp add: ex_cpu_def Let_def)
  have b: "128 + unat (frame_size ex_env) \<le> unat (reg_sp (regs ex_cpu))" by (simp add: ex_env_def ex_cpu_def Let_def)
  have sp: "reg_sp (regs ex_handling) = 0x6bd8" "reg_cs (regs ex_handling) = 0x1b"
    using signal_handle_siginfo_handler [OF a ex_handling_eq] by (simp_all add: ex_cpu_def Let_def ex_frame_at)
  have c: "frames ex_handled = frames ex_handling" "reg_sp (regs ex_handled) = reg_sp (regs ex_handling) + 8"
    "arch_registers_is_userspace (regs ex_handled)" "can_read ex_env (reg_sp (regs ex_handled)) (frame_size ex_env)"
    using sp by (simp_all add: ex_handled_def arch_registers_is_userspace_def) (simp add: ex_env_def)
  from signal_return_restores [OF a ex_handling_eq b c] show ?thesis
    by (simp add: ex_cpu_def ex_env_def Let_def)
qed

subsection \<open>What goes wrong\<close>

text \<open>The return tests the code segment of the registers it was called with, not the one in the frame: a
  program that writes a frame and calls the magic address loads any code segment.\<close>

lemma signal_restore_trusts_frame:
  assumes "arch_registers_is_userspace (regs st)" and "can_read env (reg_sp (regs st)) (frame_size env)"
    and "reg_cs (uc_frame (frames st (reg_sp (regs st)))) = 0x08"
  shows "\<exists>st'. signal_restore_handler env st = Running st' \<and> \<not> arch_registers_is_userspace (regs st')"
  using assms by (simp add: signal_restore_handler_def Let_def arch_registers_is_userspace_def)

text \<open>Sending to a task wakes it only when it blocks the signal, and then leaves the lock of its context
  held: the next send to the task does not return.\<close>

lemma signal_task_mask_inverted:
  assumes "0 < signum" and "\<not> context_locked t" and "\<not> task_woken t" and "signum \<notin> pending_mask (task_context t)"
    and "\<not> signal_ignored name_of acts signum"
    and "signal_send_siginfo_lightweight_task name_of acts t signum = Inr (r, t')"
  shows "(task_woken t' \<longleftrightarrow> signum \<in> sig_mask t) \<and> (context_locked t' \<longleftrightarrow> signum \<in> sig_mask t) \<and>
    (signum \<in> sig_mask t \<longrightarrow> (\<forall>n > 0. signal_send_siginfo_lightweight_task name_of acts t' n = Inl KNoReturn))"
  using assms by (auto simp: signal_send_siginfo_lightweight_task_def signal_task_pend_def signal_add_lightweight_pending_def split: if_splits)

text \<open>A send with no current process, as from an interrupt, fails the assertion on the sender.\<close>

lemma signal_send_task_no_sender:
  "0 < signum \<Longrightarrow> signal_send_task name_of True None acts t signum = Inl KPanic"
  by (simp add: signal_send_task_def signal_send_siginfo_task_def signal_create_pending_def)

end
