(* ===== verification/Paging.thy ===== *)
theory Paging
  imports Pmm
begin

section \<open>Page tables\<close>

text \<open>
  Models \<^verbatim>\<open>kernel/arch/x86_64/paging.c\<close>: the page tables of an address space, over the page allocator of
  \<open>Pmm\<close>. The memory of the tables is a function from frame numbers and indices to entries, a pointer to
  an entry is a frame and an index, and an address space is the frame of its top table. The locks of
  the tables order concurrent walks; here one walk runs at a time. Caches of translations are not
  modelled.
\<close>

type_synonym ptables = "nat \<Rightarrow> nat \<Rightarrow> u64"
type_synonym mmu_entry = "nat \<times> nat"

record mmu_state =
  tables :: ptables
  mmu_pmm :: pmm_state

subsection \<open>Entries and flags\<close>

definition PAGING_ENTRY_ADDRESS :: u64 where "PAGING_ENTRY_ADDRESS = and (not 0xFFF) (not (push_bit 52 0xFFF))"

definition PAGING_ENTRY_FLAGS :: u64 where "PAGING_ENTRY_FLAGS = or 0xfff (push_bit 52 1)"

definition PAGING_LEVEL_SHIFT :: "nat \<Rightarrow> nat" where "PAGING_LEVEL_SHIFT level = 12 + 9 * level"

definition PAGING_LEVEL_INDEX :: "nat \<Rightarrow> u64 \<Rightarrow> nat" where
  "PAGING_LEVEL_INDEX level addr = unat (and (drop_bit (PAGING_LEVEL_SHIFT level) addr) 0x1ff)"

definition PAGING_ENTRIES_PER_LEVEL :: nat where "PAGING_ENTRIES_PER_LEVEL = 512"

definition PAGING_LEVEL_MAX :: nat where "PAGING_LEVEL_MAX = 3"

definition SHARED_PML4_ENTRIES_COUNT :: nat where "SHARED_PML4_ENTRIES_COUNT = 256"

definition PAGING_FLAG_PRESENT :: u64 where "PAGING_FLAG_PRESENT = 0x001"

definition PAGING_FLAG_WRITE :: u64 where "PAGING_FLAG_WRITE = 0x002"

definition PAGING_FLAG_USER :: u64 where "PAGING_FLAG_USER = 0x004"

definition PAGING_FLAG_PCD :: u64 where "PAGING_FLAG_PCD = 0x010"

definition PAGING_FLAG_ACCESS :: u64 where "PAGING_FLAG_ACCESS = 0x020"

definition PAGING_FLAG_DIRTY :: u64 where "PAGING_FLAG_DIRTY = 0x040"

definition PAGING_FLAG_PAT :: u64 where "PAGING_FLAG_PAT = 0x080"

definition PAGING_FLAG_GLOBAL :: u64 where "PAGING_FLAG_GLOBAL = 0x100"

definition PAGING_FLAG_NO_EXE :: u64 where "PAGING_FLAG_NO_EXE = push_bit 61 1"

definition PAGING_FLAG_RW_CPL0 :: u64 where "PAGING_FLAG_RW_CPL0 = or PAGING_FLAG_PRESENT PAGING_FLAG_WRITE"

definition PAGING_FLAG_RW_CPL3 :: u64 where
  "PAGING_FLAG_RW_CPL3 = or (or PAGING_FLAG_PRESENT PAGING_FLAG_USER) PAGING_FLAG_WRITE"

definition MMU_FLAG_PRESENT :: u64 where "MMU_FLAG_PRESENT = 0x1"

definition MMU_FLAG_READ :: u64 where "MMU_FLAG_READ = 0x2"

definition MMU_FLAG_WRITE :: u64 where "MMU_FLAG_WRITE = 0x4"

definition MMU_FLAG_EXEC :: u64 where "MMU_FLAG_EXEC = 0x8"

definition MMU_FLAG_USER :: u64 where "MMU_FLAG_USER = 0x10"

definition MMU_FLAG_GLOBAL :: u64 where "MMU_FLAG_GLOBAL = 0x20"

definition MMU_FLAG_ACCESS :: u64 where "MMU_FLAG_ACCESS = 0x40"

definition MMU_FLAG_DIRTY :: u64 where "MMU_FLAG_DIRTY = 0x80"

definition MMU_FLAG_WRITE_COMBINE :: u64 where "MMU_FLAG_WRITE_COMBINE = 0x100"

definition MMU_FLAG_UNCACHED :: u64 where "MMU_FLAG_UNCACHED = 0x200"

lemmas paging_flag_defs = PAGING_FLAG_PRESENT_def PAGING_FLAG_WRITE_def PAGING_FLAG_USER_def PAGING_FLAG_PCD_def
  PAGING_FLAG_ACCESS_def PAGING_FLAG_DIRTY_def PAGING_FLAG_PAT_def PAGING_FLAG_GLOBAL_def PAGING_FLAG_NO_EXE_def
  PAGING_FLAG_RW_CPL0_def PAGING_FLAG_RW_CPL3_def

lemmas mmu_flag_defs = MMU_FLAG_PRESENT_def MMU_FLAG_READ_def MMU_FLAG_WRITE_def MMU_FLAG_EXEC_def MMU_FLAG_USER_def
  MMU_FLAG_GLOBAL_def MMU_FLAG_ACCESS_def MMU_FLAG_DIRTY_def MMU_FLAG_WRITE_COMBINE_def MMU_FLAG_UNCACHED_def

definition flag_if :: "bool \<Rightarrow> u64 \<Rightarrow> u64 \<Rightarrow> u64" where
  "flag_if c f flags = (if c then or flags f else flags)"

definition mmu2paging_flags :: "u64 \<Rightarrow> u64" where
  "mmu2paging_flags mmu_flags =
     (flag_if (and mmu_flags MMU_FLAG_UNCACHED \<noteq> 0) PAGING_FLAG_PCD
     (flag_if (and mmu_flags MMU_FLAG_WRITE_COMBINE \<noteq> 0) PAGING_FLAG_PAT
     (flag_if (and mmu_flags MMU_FLAG_GLOBAL \<noteq> 0) PAGING_FLAG_GLOBAL
     (flag_if (and mmu_flags MMU_FLAG_USER \<noteq> 0) PAGING_FLAG_USER
     (flag_if (and mmu_flags MMU_FLAG_EXEC = 0) PAGING_FLAG_NO_EXE
     (flag_if (and mmu_flags MMU_FLAG_WRITE \<noteq> 0) PAGING_FLAG_WRITE
     (flag_if (and mmu_flags MMU_FLAG_PRESENT \<noteq> 0) PAGING_FLAG_PRESENT 0)))))))"

definition paging2mmu_flags :: "u64 \<Rightarrow> u64" where
  "paging2mmu_flags paging_flags =
     (flag_if (and paging_flags PAGING_FLAG_PCD \<noteq> 0) MMU_FLAG_UNCACHED
     (flag_if (and paging_flags PAGING_FLAG_PAT \<noteq> 0) MMU_FLAG_WRITE_COMBINE
     (flag_if (and paging_flags PAGING_FLAG_DIRTY \<noteq> 0) MMU_FLAG_DIRTY
     (flag_if (and paging_flags PAGING_FLAG_ACCESS \<noteq> 0) MMU_FLAG_ACCESS
     (flag_if (and paging_flags PAGING_FLAG_USER \<noteq> 0) MMU_FLAG_USER
     (flag_if (and paging_flags PAGING_FLAG_NO_EXE = 0) MMU_FLAG_EXEC
     (flag_if (and paging_flags PAGING_FLAG_WRITE \<noteq> 0) MMU_FLAG_WRITE
     (flag_if (and paging_flags PAGING_FLAG_PRESENT \<noteq> 0) (or MMU_FLAG_PRESENT MMU_FLAG_READ) 0))))))))"

definition present :: "u64 \<Rightarrow> bool" where
  "present e \<longleftrightarrow> and e PAGING_FLAG_PRESENT \<noteq> 0"

text \<open>The frame of a present entry; none is \<^verbatim>\<open>PAGE_INVALID\<close>.\<close>

definition entry_frame :: "u64 \<Rightarrow> nat" where
  "entry_frame e = unat (and e PAGING_ENTRY_ADDRESS) div PAGE_SIZE"

definition mmu_entry_val_get_page :: "u64 \<Rightarrow> nat option" where
  "mmu_entry_val_get_page e = (if present e then Some (entry_frame e) else None)"

definition mmu_entry_val_get_flags :: "u64 \<Rightarrow> u64" where
  "mmu_entry_val_get_flags e = (if present e then paging2mmu_flags e else 0)"

definition load :: "ptables \<Rightarrow> mmu_entry \<Rightarrow> u64" where
  "load T e = T (fst e) (snd e)"

definition store :: "ptables \<Rightarrow> mmu_entry \<Rightarrow> u64 \<Rightarrow> ptables" where
  "store T e v = T(fst e := (T (fst e))(snd e := v))"

definition mmu_entry_map :: "ptables \<Rightarrow> mmu_entry \<Rightarrow> u64 \<Rightarrow> u64 \<Rightarrow> ptables" where
  "mmu_entry_map T entry paddr flags = store T entry (or (and paddr PAGING_ENTRY_ADDRESS) (mmu2paging_flags flags))"

text \<open>The compare-and-exchange loops end with the exchange that succeeded.\<close>

definition mmu_entry_map_and_or_flags :: "ptables \<Rightarrow> mmu_entry \<Rightarrow> u64 \<Rightarrow> u64 \<Rightarrow> ptables" where
  "mmu_entry_map_and_or_flags T entry paddr flags =
     store T entry (or (or (and paddr PAGING_ENTRY_ADDRESS) (and (load T entry) PAGING_ENTRY_FLAGS)) (mmu2paging_flags flags))"

definition mmu_entry_unmap :: "ptables \<Rightarrow> mmu_entry \<Rightarrow> u64 \<times> ptables" where
  "mmu_entry_unmap T entry = (load T entry, store T entry 0)"

definition mmu_entry_get_flags :: "ptables \<Rightarrow> mmu_entry \<Rightarrow> u64" where
  "mmu_entry_get_flags T entry = mmu_entry_val_get_flags (load T entry)"

definition mmu_entry_get_page :: "ptables \<Rightarrow> mmu_entry \<Rightarrow> nat option" where
  "mmu_entry_get_page T entry = mmu_entry_val_get_page (load T entry)"

definition mmu_entry_set_flags :: "ptables \<Rightarrow> mmu_entry \<Rightarrow> u64 \<Rightarrow> u64 \<times> ptables" where
  "mmu_entry_set_flags T entry flags =
     (load T entry, store T entry (or (and (load T entry) PAGING_ENTRY_ADDRESS) (mmu2paging_flags flags)))"

definition mmu_entry_or_flags :: "ptables \<Rightarrow> mmu_entry \<Rightarrow> u64 \<Rightarrow> u64 \<times> ptables" where
  "mmu_entry_or_flags T entry flags = (load T entry, store T entry (or (load T entry) (mmu2paging_flags flags)))"

definition mmu_entry_clear_flags :: "ptables \<Rightarrow> mmu_entry \<Rightarrow> u64 \<Rightarrow> u64 \<times> ptables" where
  "mmu_entry_clear_flags T entry flags = (load T entry, store T entry (and (load T entry) (not (mmu2paging_flags flags))))"

subsection \<open>Walking the tables\<close>

text \<open>The loop over the levels, from \<open>level\<close> down to 1.\<close>

fun mmu_walk :: "ptables \<Rightarrow> nat \<Rightarrow> nat \<Rightarrow> u64 \<Rightarrow> nat option" where
  "mmu_walk T table 0 vaddr = Some table"
| "mmu_walk T table (Suc level) vaddr =
     (let current = T table (PAGING_LEVEL_INDEX (Suc level) vaddr) in
      if \<not> present current then None else mmu_walk T (entry_frame current) level vaddr)"

definition mmu_get_entry :: "ptables \<Rightarrow> nat \<Rightarrow> u64 \<Rightarrow> mmu_entry option" where
  "mmu_get_entry T PML4 vaddr =
     map_option (\<lambda>table. (table, PAGING_LEVEL_INDEX 0 vaddr)) (mmu_walk T PML4 PAGING_LEVEL_MAX vaddr)"

text \<open>The address of a frame in an entry, and a table filled with zeros.\<close>

definition page_address :: "nat \<Rightarrow> u64" where
  "page_address page = word_of_nat (page * PAGE_SIZE)"

definition zero_table :: "ptables \<Rightarrow> nat \<Rightarrow> ptables" where
  "zero_table T page = T(page := (\<lambda>_. 0))"

fun mmu_create_walk :: "mmu_state \<Rightarrow> nat \<Rightarrow> nat \<Rightarrow> u64 \<Rightarrow> (nat option \<times> mmu_state) kres" where
  "mmu_create_walk s table 0 vaddr = Inr (Some table, s)"
| "mmu_create_walk s table (Suc level) vaddr =
     (let index = PAGING_LEVEL_INDEX (Suc level) vaddr; current = tables s table index in
      if \<not> present current
      then kbind (pmm_allocate_page (mmu_pmm s)) (\<lambda>(r, pmm1).
             case r of
               None \<Rightarrow> Inr (None, s\<lparr>mmu_pmm := pmm1\<rparr>)
             | Some page \<Rightarrow>
                 (let current1 = or (page_address page) PAGING_FLAG_RW_CPL3;
                      s1 = s\<lparr>mmu_pmm := pmm1, tables := store (zero_table (tables s) page) (table, index) current1\<rparr>
                  in mmu_create_walk s1 (entry_frame current1) level vaddr))
      else mmu_create_walk s (entry_frame current) level vaddr)"

definition mmu_create_entry_and_acquire_lock :: "mmu_state \<Rightarrow> nat \<Rightarrow> u64 \<Rightarrow> (mmu_entry option \<times> mmu_state) kres" where
  "mmu_create_entry_and_acquire_lock s PML4 vaddr =
     kbind (mmu_create_walk s PML4 PAGING_LEVEL_MAX vaddr)
       (\<lambda>(r, s1). Inr (map_option (\<lambda>table. (table, PAGING_LEVEL_INDEX 0 vaddr)) r, s1))"

text \<open>Pointer arithmetic on entries runs on into the neighbouring frames.\<close>

definition entry_offset :: "mmu_entry \<Rightarrow> int \<Rightarrow> mmu_entry" where
  "entry_offset entry d =
     (let k = int (fst entry * PAGING_ENTRIES_PER_LEVEL + snd entry) + d
      in (nat (k div int PAGING_ENTRIES_PER_LEVEL), nat (k mod int PAGING_ENTRIES_PER_LEVEL)))"

definition same_table_bit :: "u64 \<Rightarrow> u64 \<Rightarrow> bool" where
  "same_table_bit a b \<longleftrightarrow> and a (word_of_nat (PAGING_ENTRIES_PER_LEVEL * PAGE_SIZE)) =
                          and b (word_of_nat (PAGING_ENTRIES_PER_LEVEL * PAGE_SIZE))"

definition mmu_create_next_entry_and_acquire_lock ::
    "mmu_state \<Rightarrow> nat \<Rightarrow> u64 \<Rightarrow> mmu_entry option \<Rightarrow> u64 \<Rightarrow> (mmu_entry option \<times> mmu_state) kres" where
  "mmu_create_next_entry_and_acquire_lock s PML4 vaddr old_entry old_vaddr =
     (case old_entry of
        None \<Rightarrow> mmu_create_entry_and_acquire_lock s PML4 vaddr
      | Some old \<Rightarrow>
          if same_table_bit vaddr old_vaddr
          then (if vaddr > old_vaddr
                then Inr (Some (entry_offset old (int (unat (vaddr - old_vaddr) div PAGE_SIZE))), s)
                else Inr (Some (entry_offset old (- int (unat (old_vaddr - vaddr) div PAGE_SIZE))), s))
          else mmu_create_entry_and_acquire_lock s PML4 vaddr)"

text \<open>The first element for which a search succeeds.\<close>

fun first_some :: "('a \<Rightarrow> 'b option) \<Rightarrow> 'a list \<Rightarrow> 'b option" where
  "first_some f [] = None"
| "first_some f (x # xs) = (case f x of Some y \<Rightarrow> Some y | None \<Rightarrow> first_some f xs)"

fun mmu_get_next_entry_helper :: "ptables \<Rightarrow> nat \<Rightarrow> nat \<Rightarrow> u64 \<Rightarrow> (mmu_entry \<times> u64) option" where
  "mmu_get_next_entry_helper T 0 table from =
     first_some (\<lambda>i. if present (T table i) then Some ((table, i), push_bit (PAGING_LEVEL_SHIFT 0) (word_of_nat i)) else None)
       [PAGING_LEVEL_INDEX 0 from..<PAGING_ENTRIES_PER_LEVEL]"
| "mmu_get_next_entry_helper T (Suc level) table from =
     (let start = PAGING_LEVEL_INDEX (Suc level) from in
      first_some (\<lambda>i.
        if present (T table i)
        then map_option (\<lambda>(entry, vaddr). (entry, vaddr + push_bit (PAGING_LEVEL_SHIFT (Suc level)) (word_of_nat i)))
               (mmu_get_next_entry_helper T level (entry_frame (T table i)) (if i = start then from else 0))
        else None)
        [start..<PAGING_ENTRIES_PER_LEVEL])"

definition mmu_get_next_entry :: "ptables \<Rightarrow> nat \<Rightarrow> u64 \<Rightarrow> (mmu_entry \<times> u64) option" where
  "mmu_get_next_entry T PML4 from = mmu_get_next_entry_helper T PAGING_LEVEL_MAX PML4 from"

text \<open>The variant that starts from the entry found last.\<close>

definition mmu_get_next_entry_and_acquire_lock ::
    "ptables \<Rightarrow> nat \<Rightarrow> u64 \<Rightarrow> mmu_entry option \<Rightarrow> u64 \<Rightarrow> (mmu_entry \<times> u64) option" where
  "mmu_get_next_entry_and_acquire_lock T PML4 from old_entry old_vaddr =
     (let slow = mmu_get_next_entry_helper T PAGING_LEVEL_MAX PML4 from in
      case old_entry of
        None \<Rightarrow> slow
      | Some (table, old) \<Rightarrow>
          if same_table_bit from old_vaddr
          then (let start = (if from > old_vaddr then word_of_nat old + (from - old_vaddr) else word_of_nat old - (old_vaddr - from))
                in case find (\<lambda>i. present (T table i)) [unat start..<PAGING_ENTRIES_PER_LEVEL] of
                     Some i \<Rightarrow> Some ((table, i), old_vaddr + word_of_nat i - word_of_nat old)
                   | None \<Rightarrow> slow)
          else slow)"

definition mmu_space_virt2phys :: "ptables \<Rightarrow> nat \<Rightarrow> u64 \<Rightarrow> u64 option" where
  "mmu_space_virt2phys T PML4 address =
     (case mmu_get_entry T PML4 address of
        None \<Rightarrow> None
      | Some entry \<Rightarrow>
          (let entry_val = load T entry in
           if present entry_val then Some (and entry_val PAGING_ENTRY_ADDRESS + and address 0xfff) else None))"

subsection \<open>Ranges of pages\<close>

definition page_aligned :: "u64 \<Rightarrow> bool" where
  "page_aligned a \<longleftrightarrow> unat a mod PAGE_SIZE = 0"

text \<open>\<^verbatim>\<open>mmu_foreach_entry_range\<close>; no value means that the loop does not end.\<close>

partial_function (option) mmu_unmap_loop :: "ptables \<Rightarrow> nat \<Rightarrow> u64 \<Rightarrow> u64 \<Rightarrow> ptables option" where
  "mmu_unmap_loop T addrspace from until =
     (case mmu_get_next_entry T addrspace from of
        None \<Rightarrow> Some T
      | Some (entry, current) \<Rightarrow>
          if current < until
          then mmu_unmap_loop (snd (mmu_entry_unmap T entry)) addrspace (current + word_of_nat PAGE_SIZE) until
          else Some T)"

definition mmu_unmap_pages :: "mmu_state \<Rightarrow> nat \<Rightarrow> u64 \<Rightarrow> u64 \<Rightarrow> mmu_state kres" where
  "mmu_unmap_pages s addrspace vaddr sz =
     (if \<not> page_aligned vaddr \<or> \<not> page_aligned sz then Inl KPanic
      else case mmu_unmap_loop (tables s) addrspace vaddr (vaddr + sz) of
             None \<Rightarrow> Inl KNoReturn
           | Some T \<Rightarrow> Inr (s\<lparr>tables := T\<rparr>))"

partial_function (option) mmu_unmap_release_loop :: "mmu_state \<Rightarrow> nat \<Rightarrow> u64 \<Rightarrow> u64 \<Rightarrow> mmu_state kres option" where
  "mmu_unmap_release_loop s addrspace from until =
     (case mmu_get_next_entry (tables s) addrspace from of
        None \<Rightarrow> Some (Inr s)
      | Some (entry, current) \<Rightarrow>
          if current < until
          then (case mmu_entry_unmap (tables s) entry of
                  (val, T) \<Rightarrow>
                    (case (case mmu_entry_val_get_page val of
                             None \<Rightarrow> Inr (mmu_pmm s) | Some page \<Rightarrow> pmm_release_page (mmu_pmm s) page) of
                       Inl e \<Rightarrow> Some (Inl e)
                     | Inr pmm1 \<Rightarrow>
                         mmu_unmap_release_loop (s\<lparr>tables := T, mmu_pmm := pmm1\<rparr>) addrspace (current + word_of_nat PAGE_SIZE) until))
          else Some (Inr s))"

definition mmu_unmap_and_release_pages :: "mmu_state \<Rightarrow> nat \<Rightarrow> u64 \<Rightarrow> u64 \<Rightarrow> mmu_state kres" where
  "mmu_unmap_and_release_pages s addrspace vaddr sz =
     (if \<not> page_aligned vaddr \<or> \<not> page_aligned sz then Inl KPanic
      else case mmu_unmap_release_loop s addrspace vaddr (vaddr + sz) of None \<Rightarrow> Inl KNoReturn | Some r \<Rightarrow> r)"

text \<open>\<open>n\<close> is the number of pages that are left of the size.\<close>

fun mmu_map_loop ::
    "mmu_state \<Rightarrow> nat \<Rightarrow> u64 \<Rightarrow> u64 \<Rightarrow> u64 \<Rightarrow> nat \<Rightarrow> u64 \<Rightarrow> mmu_entry option \<Rightarrow> ((errno + unit) \<times> mmu_state) kres" where
  "mmu_map_loop s PML4 start vaddr paddr 0 flags entry = Inr (Inr (), s)"
| "mmu_map_loop s PML4 start vaddr paddr (Suc n) flags entry =
     kbind (mmu_create_next_entry_and_acquire_lock s PML4 vaddr entry (vaddr - word_of_nat PAGE_SIZE)) (\<lambda>(r, s1).
       case r of
         None \<Rightarrow> kbind (mmu_unmap_pages s1 PML4 start (vaddr - start)) (\<lambda>s2. Inr (Inl ENOMEM, s2))
       | Some e \<Rightarrow>
           mmu_map_loop (s1\<lparr>tables := mmu_entry_map (tables s1) e paddr flags\<rparr>) PML4 start
             (vaddr + word_of_nat PAGE_SIZE) (paddr + word_of_nat PAGE_SIZE) n flags (Some e))"

definition mmu_map_pages :: "mmu_state \<Rightarrow> nat \<Rightarrow> u64 \<Rightarrow> u64 \<Rightarrow> u64 \<Rightarrow> u64 \<Rightarrow> ((errno + unit) \<times> mmu_state) kres" where
  "mmu_map_pages s PML4 vaddr paddr sz flags =
     (if \<not> page_aligned vaddr \<or> \<not> page_aligned sz then Inl KPanic
      else mmu_map_loop s PML4 vaddr vaddr paddr (unat sz div PAGE_SIZE) flags None)"

fun mmu_allocate_loop ::
    "mmu_state \<Rightarrow> nat \<Rightarrow> u64 \<Rightarrow> u64 \<Rightarrow> nat \<Rightarrow> u64 \<Rightarrow> ((errno + unit) \<times> mmu_state) kres" where
  "mmu_allocate_loop s PML4 start vaddr 0 flags = Inr (Inr (), s)"
| "mmu_allocate_loop s PML4 start vaddr (Suc n) flags =
     kbind (pmm_allocate_page (mmu_pmm s)) (\<lambda>(r, pmm1).
       case r of
         None \<Rightarrow> kbind (mmu_unmap_and_release_pages (s\<lparr>mmu_pmm := pmm1\<rparr>) PML4 start (vaddr - start)) (\<lambda>s2. Inr (Inl ENOMEM, s2))
       | Some page \<Rightarrow>
           kbind (mmu_map_pages (s\<lparr>mmu_pmm := pmm1\<rparr>) PML4 vaddr (page_address page) (word_of_nat PAGE_SIZE) flags) (\<lambda>(ret, s1).
             case ret of
               Inl e \<Rightarrow>
                 kbind (pmm_release_page (mmu_pmm s1) page) (\<lambda>pmm2.
                   kbind (mmu_unmap_and_release_pages (s1\<lparr>mmu_pmm := pmm2\<rparr>) PML4 start (vaddr - start)) (\<lambda>s2. Inr (Inl e, s2)))
             | Inr _ \<Rightarrow> mmu_allocate_loop s1 PML4 start (vaddr + word_of_nat PAGE_SIZE) n flags))"

text \<open>\<^verbatim>\<open>mmu_allocate_zero_and_map_pages\<close> is the same on this state: the contents of mapped pages are not
  part of it.\<close>

definition mmu_allocate_and_map_pages :: "mmu_state \<Rightarrow> nat \<Rightarrow> u64 \<Rightarrow> u64 \<Rightarrow> u64 \<Rightarrow> ((errno + unit) \<times> mmu_state) kres" where
  "mmu_allocate_and_map_pages s PML4 vaddr sz flags =
     (if \<not> page_aligned vaddr \<or> \<not> page_aligned sz then Inl KPanic
      else mmu_allocate_loop s PML4 vaddr vaddr (unat sz div PAGE_SIZE) flags)"

subsection \<open>Address spaces\<close>

text \<open>The result of the allocation is compared with 0 and not with \<^verbatim>\<open>PAGE_INVALID\<close>: without memory the code
  writes through an address outside the memory.\<close>

definition mmu_space_init :: "(nat \<Rightarrow> u64) \<Rightarrow> mmu_state \<Rightarrow> (nat option \<times> mmu_state) kres" where
  "mmu_space_init shared_PML4_entries s =
     kbind (pmm_allocate_page (mmu_pmm s)) (\<lambda>(r, pmm1).
       case r of
         None \<Rightarrow> Inl KOutOfBounds
       | Some page \<Rightarrow>
           if page = 0 then Inr (None, s\<lparr>mmu_pmm := pmm1\<rparr>)
           else (let user = PAGING_ENTRIES_PER_LEVEL - SHARED_PML4_ENTRIES_COUNT
                 in Inr (Some page, s\<lparr>mmu_pmm := pmm1, tables := (tables s)(page := (\<lambda>i.
                           if user \<le> i \<and> i < PAGING_ENTRIES_PER_LEVEL then shared_PML4_entries (i - user) else 0))\<rparr>)))"

text \<open>The nested loops over the entries of a table and of the tables below it: a table is released after
  the tables it points to.\<close>

fun each :: "('a \<Rightarrow> pmm_state \<Rightarrow> pmm_state kres) \<Rightarrow> 'a list \<Rightarrow> pmm_state \<Rightarrow> pmm_state kres" where
  "each f [] p = Inr p"
| "each f (x # xs) p = kbind (f x p) (each f xs)"

fun mmu_release_table :: "ptables \<Rightarrow> nat \<Rightarrow> nat \<Rightarrow> pmm_state \<Rightarrow> pmm_state kres" where
  "mmu_release_table T 0 table p = pmm_release_page p table"
| "mmu_release_table T (Suc level) table p =
     kbind (each (\<lambda>i p. if present (T table i) then mmu_release_table T level (entry_frame (T table i)) p else Inr p)
              [0..<PAGING_ENTRIES_PER_LEVEL] p)
       (\<lambda>p1. pmm_release_page p1 table)"

definition mmu_space_destroy :: "mmu_state \<Rightarrow> nat \<Rightarrow> mmu_state kres" where
  "mmu_space_destroy s PML4 =
     kbind (each (\<lambda>i p. if present (tables s PML4 i) then mmu_release_table (tables s) 2 (entry_frame (tables s PML4 i)) p else Inr p)
              [0..<PAGING_ENTRIES_PER_LEVEL - SHARED_PML4_ENTRIES_COUNT] (mmu_pmm s)) (\<lambda>p1.
       kbind (pmm_release_page p1 PML4) (\<lambda>p2. Inr (s\<lparr>mmu_pmm := p2\<rparr>)))"

subsection \<open>Page numbers\<close>

text \<open>The number of the virtual page of an address: 36 bits, 9 for each level.\<close>

definition vp :: "u64 \<Rightarrow> nat" where
  "vp a = unat a div PAGE_SIZE mod 2 ^ 36"

definition level_index :: "nat \<Rightarrow> nat \<Rightarrow> nat" where
  "level_index l n = n div 512 ^ l mod 512"

lemma pow512: "(512 :: nat) ^ l = 2 ^ (9 * l)"
  by (simp add: power_mult)

lemma level_index_less [simp]: "level_index l n < 512"
  by (simp add: level_index_def)

lemma vp_less [simp]: "vp a < 2 ^ 36"
  by (simp add: vp_def)

lemma PAGING_LEVEL_INDEX_vp:
  assumes "l \<le> 3"
  shows "PAGING_LEVEL_INDEX l a = level_index l (vp a)"
proof -
  have m: "(0x1ff :: u64) = mask 9" by (simp add: mask_eq_exp_minus_1)
  have "PAGING_LEVEL_INDEX l a = take_bit 9 (drop_bit (9 * l) (drop_bit 12 (unat a)))"
    by (simp add: PAGING_LEVEL_INDEX_def PAGING_LEVEL_SHIFT_def m flip: take_bit_eq_mask)
      (simp add: unsigned_take_bit_eq unat_drop_bit_eq add.commute)
  also have "\<dots> = take_bit 9 (drop_bit (9 * l) (take_bit 36 (drop_bit 12 (unat a))))"
    using assms by (intro bit_eqI) (auto simp: bit_simps ac_simps)
  also have "\<dots> = level_index l (vp a)"
    by (simp add: level_index_def vp_def PAGE_SIZE_def pow512 take_bit_eq_mod drop_bit_eq_div)
  finally show ?thesis .
qed

lemma level_index_cong:
  assumes "n div 512 ^ l = m div 512 ^ l" "l \<le> j"
  shows "level_index j n = level_index j m"
proof -
  obtain d where j: "j = l + d" using assms(2) le_Suc_ex by blast
  show ?thesis unfolding level_index_def j power_add using assms(1) by (simp add: div_mult2_eq)
qed

subsection \<open>The tree of tables\<close>

text \<open>The table that maps page \<open>n\<close> at depth \<open>k\<close> below the root, and the entry of the page.\<close>

fun tab :: "ptables \<Rightarrow> nat \<Rightarrow> nat \<Rightarrow> nat \<Rightarrow> nat option" where
  "tab T root 0 n = Some root"
| "tab T root (Suc k) n =
     (case tab T root k n of
        None \<Rightarrow> None
      | Some t \<Rightarrow> (let e = T t (level_index (3 - k) n) in if present e then Some (entry_frame e) else None))"

definition pte :: "ptables \<Rightarrow> nat \<Rightarrow> nat \<Rightarrow> u64 option" where
  "pte T root n =
     (case tab T root 3 n of
        None \<Rightarrow> None
      | Some t \<Rightarrow> if present (T t (level_index 0 n)) then Some (T t (level_index 0 n)) else None)"

definition reach :: "ptables \<Rightarrow> nat \<Rightarrow> nat set" where
  "reach T root = {t. \<exists>k \<le> 3. \<exists>n < 2 ^ 36. tab T root k n = Some t}"

text \<open>The tables form a tree: a frame is used for one table only.\<close>

definition tree_ok :: "ptables \<Rightarrow> nat \<Rightarrow> bool" where
  "tree_ok T root \<longleftrightarrow>
     (\<forall>k \<le> 3. \<forall>k' \<le> 3. \<forall>n < 2 ^ 36. \<forall>n' < 2 ^ 36. \<forall>t. tab T root k n = Some t \<longrightarrow> tab T root k' n' = Some t \<longrightarrow>
        k = k' \<and> n div 512 ^ (4 - k) = n' div 512 ^ (4 - k))"

lemma tree_okD:
  assumes "tree_ok T root" "tab T root k n = Some t" "tab T root k' n' = Some t" "k \<le> 3" "k' \<le> 3" "n < 2 ^ 36" "n' < 2 ^ 36"
  shows "k = k'" "n div 512 ^ (4 - k) = n' div 512 ^ (4 - k)"
  using assms unfolding tree_ok_def by blast+

lemma tab_cong:
  assumes "n div 512 ^ (4 - k) = m div 512 ^ (4 - k)" "k \<le> 3"
  shows "tab T root k n = tab T root k m"
  using assms
proof (induction k)
  case (Suc k)
  have e: "4 - k = Suc (3 - k)" "4 - Suc k = 3 - k" using Suc.prems by auto
  have same: "n div 512 ^ (3 - k) = m div 512 ^ (3 - k)" using Suc.prems(1) unfolding e .
  then have "n div 512 ^ (4 - k) = m div 512 ^ (4 - k)" unfolding e power_Suc2 div_mult2_eq by simp
  then have "tab T root k n = tab T root k m" using Suc by simp
  moreover have "level_index (3 - k) n = level_index (3 - k) m" by (rule level_index_cong [OF same]) simp
  ultimately show ?case by (simp split: option.split)
qed simp

lemma mmu_walk_tab:
  assumes "tab T root k (vp v) = Some t" "k + l = 3"
  shows "mmu_walk T t l v = tab T root 3 (vp v)"
  using assms
proof (induction l arbitrary: k t)
  case (Suc l)
  let ?e = "T t (level_index (Suc l) (vp v))"
  have k: "3 - k = Suc l" using Suc.prems(2) by simp
  have i: "PAGING_LEVEL_INDEX (Suc l) v = level_index (Suc l) (vp v)" using Suc.prems(2) by (intro PAGING_LEVEL_INDEX_vp) simp
  have nx: "tab T root (Suc k) (vp v) = (if present ?e then Some (entry_frame ?e) else None)"
    using Suc.prems(1) by (simp add: k)
  show ?case
  proof (cases "present ?e")
    case True
    then show ?thesis using Suc.IH [of "Suc k"] nx Suc.prems(2) by (simp add: i)
  next
    case False
    have "tab T root (Suc k + d) (vp v) = None" for d using nx False by (induction d) simp_all
    from this [of l] have "tab T root 3 (vp v) = None" using Suc.prems(2) by (metis add_Suc_shift)
    then show ?thesis using False by (simp add: i)
  qed
qed simp

lemma mmu_walk_root: "mmu_walk T root PAGING_LEVEL_MAX v = tab T root 3 (vp v)"
  unfolding PAGING_LEVEL_MAX_def by (rule mmu_walk_tab [of T root 0]) simp_all

lemma mmu_space_virt2phys_pte:
  "mmu_space_virt2phys T root a = map_option (\<lambda>e. and e PAGING_ENTRY_ADDRESS + and a 0xfff) (pte T root (vp a))"
  by (simp add: mmu_space_virt2phys_def mmu_get_entry_def mmu_walk_root pte_def load_def PAGING_LEVEL_INDEX_vp split: option.split)

lemma tree_okI:
  assumes "\<And>k k' n n' t. k \<le> 3 \<Longrightarrow> k' \<le> 3 \<Longrightarrow> n < 2 ^ 36 \<Longrightarrow> n' < 2 ^ 36 \<Longrightarrow> tab T root k n = Some t \<Longrightarrow>
    tab T root k' n' = Some t \<Longrightarrow> k = k' \<and> n div 512 ^ (4 - k) = n' div 512 ^ (4 - k)"
  shows "tree_ok T root"
  unfolding tree_ok_def by (intro allI impI) (rule assms)

lemma tab_same:
  assumes "\<And>k m. k \<le> 3 \<Longrightarrow> m < 2 ^ 36 \<Longrightarrow> tab T' root k m = tab T root k m"
  shows "tree_ok T root \<Longrightarrow> tree_ok T' root" "reach T' root = reach T root"
proof -
  show "tree_ok T' root" if ok: "tree_ok T root"
  proof (rule tree_okI)
    fix k k' n n' t
    assume a: "k \<le> 3" "k' \<le> 3" "n < 2 ^ 36" "n' < 2 ^ 36" "tab T' root k n = Some t" "tab T' root k' n' = Some t"
    then have "tab T root k n = Some t" "tab T root k' n' = Some t"
      using assms [OF a(1,3)] assms [OF a(2,4)] by simp_all
    from tree_okD [OF ok this a(1-4)] show "k = k' \<and> n div 512 ^ (4 - k) = n' div 512 ^ (4 - k)" by blast
  qed
  show "reach T' root = reach T root" unfolding reach_def using assms by (intro Collect_cong) metis
qed

text \<open>Storing into the entry of a page changes the mapping of this page only.\<close>

lemma store_leaf:
  fixes v :: u64
  assumes ok: "tree_ok T root" and n: "n < 2 ^ 36" "tab T root 3 n = Some t"
  defines "T' \<equiv> store T (t, level_index 0 n) v"
  shows "k \<le> 3 \<Longrightarrow> m < 2 ^ 36 \<Longrightarrow> tab T' root k m = tab T root k m"
    and "m < 2 ^ 36 \<Longrightarrow> pte T' root m = (if m = n then if present v then Some v else None else pte T root m)"
    and "tree_ok T' root" and "reach T' root = reach T root"
proof -
  show same: "tab T' root k m = tab T root k m" if "k \<le> 3" "m < 2 ^ 36" for k m
    using that(1)
  proof (induction k)
    case (Suc k)
    have "u \<noteq> t" if "tab T root k m = Some u" for u
      using tree_okD(1) [OF ok _ n(2) _ _ \<open>m < 2 ^ 36\<close> n(1), of k] that Suc.prems by auto
    then show ?case using Suc by (auto simp: T'_def store_def split: option.split)
  qed simp
  show "pte T' root m = (if m = n then if present v then Some v else None else pte T root m)" if m: "m < 2 ^ 36"
  proof (cases "m = n")
    case True
    then show ?thesis using same [OF _ m, of 3] n(2) by (simp add: pte_def T'_def store_def)
  next
    case False
    have "\<not> (u = t \<and> level_index 0 m = level_index 0 n)" if "tab T root 3 m = Some u" for u
    proof
      assume u: "u = t \<and> level_index 0 m = level_index 0 n"
      have t: "tab T root 3 m = Some t" using that u by simp
      have "m div 512 = n div 512" using tree_okD(2) [OF ok t n(2) _ _ m n(1)] by simp
      moreover have "m mod 512 = n mod 512" using u by (simp add: level_index_def)
      ultimately show False using False by (metis div_mult_mod_eq)
    qed
    then show ?thesis using same [OF _ m, of 3] False by (auto simp: pte_def T'_def store_def split: option.split)
  qed
  show "tree_ok T' root" "reach T' root = reach T root" using tab_same [of T' root T, OF same] ok by blast+
qed

subsection \<open>Values of entries\<close>

lemma PAGING_ENTRY_ADDRESS_mask: "PAGING_ENTRY_ADDRESS = push_bit 12 (mask 40)"
  by (simp add: PAGING_ENTRY_ADDRESS_def mask_eq_exp_minus_1)

lemma present_bit: "present e \<longleftrightarrow> bit e 0"
  by (simp add: present_def PAGING_FLAG_PRESENT_def and_one_eq bit_0 odd_iff_mod_2_eq_one)

lemma present_or [simp]: "present (or a b) \<longleftrightarrow> present a \<or> present b"
  by (simp add: present_bit bit_or_iff)

lemma not_present_0 [simp]: "\<not> present 0"
  by (simp add: present_def)

lemma present_address [simp]: "\<not> present (and a PAGING_ENTRY_ADDRESS)"
  by (simp add: present_bit PAGING_ENTRY_ADDRESS_mask bit_simps)

lemma present_RW [simp]: "present PAGING_FLAG_RW_CPL3"
  by (simp add: present_def paging_flag_defs)

lemma flag_if_address: "and f A = 0 \<Longrightarrow> and x A = 0 \<Longrightarrow> and (flag_if c f x) A = 0"
  by (simp add: flag_if_def bit.conj_disj_distrib2)

lemma mmu2paging_flags_address [simp]: "and (mmu2paging_flags f) PAGING_ENTRY_ADDRESS = 0"
  unfolding mmu2paging_flags_def
  by (intro flag_if_address) (simp_all add: paging_flag_defs PAGING_ENTRY_ADDRESS_def)

lemma RW_CPL3_address [simp]: "and PAGING_FLAG_RW_CPL3 PAGING_ENTRY_ADDRESS = 0"
  by (simp add: paging_flag_defs PAGING_ENTRY_ADDRESS_def)

lemma entry_address [simp]:
  "and (or (and a PAGING_ENTRY_ADDRESS) (mmu2paging_flags f)) PAGING_ENTRY_ADDRESS = and a PAGING_ENTRY_ADDRESS"
  by (simp add: bit.conj_disj_distrib2 and.assoc)

lemma present_mmu2paging [simp]: "present (mmu2paging_flags f) \<longleftrightarrow> and f MMU_FLAG_PRESENT \<noteq> 0"
proof -
  have "present (flag_if c f x) \<longleftrightarrow> c \<and> present f \<or> present x" for c f x by (auto simp: flag_if_def)
  then show ?thesis by (simp add: mmu2paging_flags_def) (simp add: present_def paging_flag_defs)
qed

text \<open>The address part of an aligned physical address below \<open>2 ^ 52\<close> is the address.\<close>

lemma address_aligned:
  assumes "page_aligned a" "unat a < 2 ^ 52"
  shows "and a PAGING_ENTRY_ADDRESS = a"
proof (rule bit_word_eqI)
  fix i :: nat
  assume "i < LENGTH(64)"
  have low: "\<not> bit a i" if "i < 12"
  proof -
    have "take_bit 12 (unat a) = 0" using assms(1) by (simp add: page_aligned_def PAGE_SIZE_def take_bit_eq_mod)
    then have "\<not> bit (take_bit 12 (unat a)) i" by simp
    then show ?thesis using that by (simp add: bit_take_bit_iff bit_unsigned_iff)
  qed
  have high: "\<not> bit a i" if "52 \<le> i"
  proof -
    have "take_bit 52 (unat a) = unat a" using assms(2) by (simp add: take_bit_nat_eq_self)
    then have "bit (unat a) i \<Longrightarrow> i < 52" by (metis bit_take_bit_iff)
    then show ?thesis using that by (auto simp: bit_unsigned_iff)
  qed
  show "bit (and a PAGING_ENTRY_ADDRESS) i \<longleftrightarrow> bit a i"
  proof (cases "bit a i")
    case True
    then have "12 \<le> i" "i < 52" using low high by (metis not_le)+
    then have "12 \<le> i" "i < 64" "i - 12 < 40" by arith+
    then show ?thesis using True by (simp add: PAGING_ENTRY_ADDRESS_mask bit_simps)
  qed (simp add: bit_and_iff)
qed

lemma page_address_props:
  assumes "f < 2 ^ 40"
  shows "unat (page_address f) = f * PAGE_SIZE" "page_aligned (page_address f)" "and (page_address f) PAGING_ENTRY_ADDRESS = page_address f"
proof -
  have "f * PAGE_SIZE < 2 ^ 52" using assms by (simp add: PAGE_SIZE_def)
  then show u: "unat (page_address f) = f * PAGE_SIZE"
    unfolding page_address_def unsigned_of_nat by (simp add: take_bit_nat_eq_self)
  then show al: "page_aligned (page_address f)" by (simp add: page_aligned_def)
  show "and (page_address f) PAGING_ENTRY_ADDRESS = page_address f"
    using u \<open>f * PAGE_SIZE < 2 ^ 52\<close> by (intro address_aligned [OF al]) simp
qed

lemma new_table_entry:
  assumes "f < 2 ^ 40"
  shows "entry_frame (or (page_address f) PAGING_FLAG_RW_CPL3) = f"
proof -
  have "and (or (page_address f) PAGING_FLAG_RW_CPL3) PAGING_ENTRY_ADDRESS = page_address f"
    using page_address_props(3) [OF assms] by (simp add: bit.conj_disj_distrib2)
  then show ?thesis using page_address_props(1) [OF assms] by (simp add: entry_frame_def PAGE_SIZE_def)
qed

subsection \<open>Adding a table\<close>

lemma tab_None_below: "tab T root k n = None \<Longrightarrow> tab T root (k + d) n = None"
  by (induction d) simp_all

lemma tab_Suc: "tab T root k n = Some t \<Longrightarrow>
    tab T root (Suc k) n = (let e = T t (level_index (3 - k) n) in if present e then Some (entry_frame e) else None)"
  by simp

lemma div_level_index: "k < 3 \<Longrightarrow> n div 512 ^ (3 - k) = n div 512 ^ (4 - k) * 512 + level_index (3 - k) n"
proof -
  assume "k < 3"
  then have e: "4 - k = Suc (3 - k)" by simp
  show ?thesis unfolding e power_Suc2 div_mult2_eq level_index_def by (simp only: div_mult_mod_eq)
qed

text \<open>Page \<open>m\<close> lies below the entry that page \<open>n\<close> uses at depth \<open>k\<close>.\<close>

definition below :: "nat \<Rightarrow> nat \<Rightarrow> nat \<Rightarrow> bool" where
  "below k n m \<longleftrightarrow> m div 512 ^ (3 - k) = n div 512 ^ (3 - k)"

lemma below_iff:
  assumes "k < 3"
  shows "below k n m \<longleftrightarrow> m div 512 ^ (4 - k) = n div 512 ^ (4 - k) \<and> level_index (3 - k) m = level_index (3 - k) n"
proof -
  have uniq: "a = b \<and> i = j" if "i < 512" "j < 512" "a * 512 + i = b * 512 + j" for a b i j :: nat
  proof -
    have "(a * 512 + i) div 512 = (b * 512 + j) div 512" using that(3) by simp
    then have "a = b" using that(1,2) by simp
    then show ?thesis using that(3) by simp
  qed
  show ?thesis
    unfolding below_def div_level_index [OF assms] using uniq [OF level_index_less level_index_less] by metis
qed

lemma add_table_tab:
  assumes ok: "tree_ok T root" and n: "n < 2 ^ 36" "k < 3" "tab T root k n = Some t"
    and f: "f \<notin> reach T root" "present e" "entry_frame e = f"
    and m: "m < 2 ^ 36" and j: "j \<le> 3"
  shows "tab (store (zero_table T f) (t, level_index (3 - k) n) e) root j m =
    (if j \<le> k \<or> \<not> below k n m then tab T root j m else if j = Suc k then Some f else None)" (is "tab ?T root j m = ?r j")
  using j
proof (induction j)
  case (Suc j)
  have reach: "u \<noteq> f" if "tab T root i l = Some u" "i \<le> 3" "l < 2 ^ 36" for u i l using f(1) that unfolding reach_def by blast
  have tf: "t \<noteq> f" using reach [OF n(3) _ n(1)] n(2) by simp
  have T: "?T u = T u" if "u \<noteq> t" "u \<noteq> f" for u using that by (simp add: store_def zero_table_def)
  have Tt: "?T t i = (if i = level_index (3 - k) n then e else T t i)" for i using tf by (simp add: store_def zero_table_def)
  have j: "j \<le> 3" "j < 3" using Suc.prems by simp_all
  note IH = Suc.IH [OF j(1)]
  have other: "tab ?T root (Suc j) m = tab T root (Suc j) m" if eq: "tab ?T root j m = tab T root j m" and "j \<noteq> k"
  proof (cases "tab T root j m")
    case (Some u)
    have "u \<noteq> t" using tree_okD(1) [OF ok _ n(3) j(1) _ m n(1)] Some that(2) n(2) by auto
    then show ?thesis using eq T [OF _ reach [OF Some j(1) m]] Some by simp
  qed (use eq in simp)
  consider "j < k" | "j = k" | "k < j" by linarith
  then show ?case
  proof cases
    case 1
    then show ?thesis using other IH by simp
  next
    case 2
    then have eq: "tab ?T root k m = tab T root k m" using IH by simp
    show ?thesis
    proof (cases "tab T root k m")
      case (Some u)
      have uf: "u \<noteq> f" using reach [OF Some _ m] n(2) by simp
      show ?thesis
      proof (cases "u = t")
        case True
        then have "below k n m \<longleftrightarrow> level_index (3 - k) m = level_index (3 - k) n"
          using tree_okD(2) [OF ok Some _ _ _ m n(1), of k] n(2,3) below_iff by auto
        then show ?thesis using 2 True Some eq f(2,3) Tt by auto
      next
        case False
        then have "\<not> below k n m" using tab_cong [of m k n T root] Some n(2,3) below_iff by auto
        then show ?thesis using 2 Some eq T [OF False uf] by simp
      qed
    next
      case None
      then have "\<not> below k n m" using tab_cong [of m k n T root] n(2,3) below_iff by auto
      then show ?thesis using 2 None eq by simp
    qed
  next
    case 3
    show ?thesis
    proof (cases "below k n m")
      case True
      then show ?thesis using 3 IH tf by (auto simp: store_def zero_table_def)
    next
      case False
      then show ?thesis using 3 IH other by simp
    qed
  qed
qed simp

lemma add_table:
  assumes ok: "tree_ok T root" and n: "n < 2 ^ 36" "k < 3" "tab T root k n = Some t"
    and absent: "\<not> present (T t (level_index (3 - k) n))"
    and f: "f \<notin> reach T root" "present e" "entry_frame e = f"
  defines "T' \<equiv> store (zero_table T f) (t, level_index (3 - k) n) e"
  shows "tree_ok T' root" and "reach T' root = insert f (reach T root)"
    and "m < 2 ^ 36 \<Longrightarrow> pte T' root m = pte T root m" and "tab T' root (Suc k) n = Some f"
proof -
  note tab' = add_table_tab [OF ok n f, folded T'_def]
  have was: "tab T root j m = None" if "below k n m" "k < j" for j m
  proof -
    have "tab T root k m = Some t" "level_index (3 - k) m = level_index (3 - k) n"
      using that(1) n(2,3) below_iff tab_cong [of m k n T root] by auto
    then have "tab T root (Suc k) m = None" using absent by simp
    from tab_None_below [OF this, of "j - Suc k"] show ?thesis using that(2) by simp
  qed
  have notf: "tab T root j m \<noteq> Some f" if "j \<le> 3" "m < 2 ^ 36" for j m using f(1) that unfolding reach_def by blast
  have old: "tab T root j m = Some u" if "tab T' root j m = Some u" "u \<noteq> f" "j \<le> 3" "m < 2 ^ 36" for j m u
    using that tab' [OF that(4,3)] by (simp split: if_splits)
  have new: "j = Suc k \<and> below k n m" if "tab T' root j m = Some f" "j \<le> 3" "m < 2 ^ 36" for j m
    using that(1) tab' [OF that(3,2)] notf [OF that(2,3)] by (simp split: if_splits)
  show tabf: "tab T' root (Suc k) n = Some f" using tab' [OF n(1), of "Suc k"] n(2) by (simp add: below_def)
  show "tree_ok T' root"
  proof (rule tree_okI)
    fix j j' m m' u
    assume a: "j \<le> 3" "j' \<le> 3" "m < 2 ^ 36" "m' < 2 ^ 36" "tab T' root j m = Some u" "tab T' root j' m' = Some u"
    show "j = j' \<and> m div 512 ^ (4 - j) = m' div 512 ^ (4 - j)"
    proof (cases "u = f")
      case True
      then have "j = Suc k \<and> below k n m" "j' = Suc k \<and> below k n m'" using new [OF _ a(1,3)] new [OF _ a(2,4)] a(5,6) by simp_all
      then show ?thesis by (simp add: below_def)
    next
      case False
      from tree_okD [OF ok old [OF a(5) False a(1,3)] old [OF a(6) False a(2,4)] a(1-4)] show ?thesis by blast
    qed
  qed
  show "reach T' root = insert f (reach T root)"
  proof (intro equalityI subsetI)
    fix u
    assume "u \<in> reach T' root"
    then show "u \<in> insert f (reach T root)" unfolding reach_def using old by blast
  next
    fix u
    assume "u \<in> insert f (reach T root)"
    then consider "u = f" | j m where "j \<le> 3" "m < 2 ^ 36" "tab T root j m = Some u" unfolding reach_def by blast
    then show "u \<in> reach T' root"
    proof cases
      case 1
      have "Suc k \<le> 3" using n(2) by simp
      then show ?thesis unfolding reach_def using tabf n(1) 1 by blast
    next
      case 2
      then have "tab T' root j m = Some u" using tab' [OF 2(2,1)] was by (cases "below k n m"; cases "j \<le> k") auto
      then show ?thesis unfolding reach_def using 2(1,2) by blast
    qed
  qed
  show "pte T' root m = pte T root m" if m: "m < 2 ^ 36"
  proof (cases "below k n m")
    case True
    have z: "T' f i = 0" for i
      using n(3) f(1) \<open>k < 3\<close> n(1) by (auto simp: T'_def store_def zero_table_def reach_def)
    have "tab T root 3 m = None" using was True n(2) by simp
    then show ?thesis using tab' [OF m, of 3] True n(2) z by (auto simp: pte_def split: if_splits option.split)
  next
    case False
    then have eq: "tab T' root 3 m = tab T root 3 m" using tab' [OF m, of 3] by simp
    have "T' u = T u" if "tab T root 3 m = Some u" for u
    proof -
      have "u \<noteq> f" using notf that m by blast
      moreover have "u \<noteq> t" using tree_okD(1) [OF ok that, of k n] n m by auto
      ultimately show ?thesis by (simp add: T'_def store_def zero_table_def)
    qed
    then show ?thesis using eq by (auto simp: pte_def split: option.split)
  qed
qed

subsection \<open>Finding and creating the entry of a page\<close>

text \<open>What holds of an address space between operations: the allocator is in order, the tables form a
  tree, none of them is free, and free frames have physical addresses.\<close>

definition mmu_inv :: "mmu_state \<Rightarrow> nat \<Rightarrow> bool" where
  "mmu_inv s root \<longleftrightarrow> pmm_inv (mmu_pmm s) \<and> pmm_is_stage2 (mmu_pmm s) \<and> tree_ok (tables s) root \<and>
     reach (tables s) root \<inter> free_pages (mmu_pmm s) = {} \<and> free_pages (mmu_pmm s) \<subseteq> {..<2 ^ 40}"

text \<open>The allocation panics only when the task asked for it.\<close>

definition oom_panics :: "mmu_state \<Rightarrow> bool" where
  "oom_panics s \<longleftrightarrow> and (alloc_flags (mmu_pmm s)) ALLOC_FLAG_OOM \<noteq> 0"

lemma raw_allocate_frame:
  "pmm_raw_helper_allocate_pages p z k = Inr (r, p') \<Longrightarrow> pmm_is_stage2 p' = pmm_is_stage2 p \<and> alloc_flags p' = alloc_flags p"
proof (induction p z k arbitrary: r p' rule: pmm_raw_helper_allocate_pages.induct)
  case (1 p z k)
  note run = "1.prems" [unfolded pmm_raw_helper_allocate_pages.simps [of p z k]]
  show ?case
  proof (cases "ORDERS_COUNT \<le> k \<or> entries p z k \<noteq> []")
    case True
    then show ?thesis using run by (auto simp: Let_def set_entries_def split: if_splits)
  next
    case False
    then obtain r1 p1 where r1: "pmm_raw_helper_allocate_pages p z (k + 1) = Inr (r1, p1)"
      and "(case r1 of None \<Rightarrow> Inr (None, p1)
            | Some pages \<Rightarrow> (let unused = pages + ORDER2COUNT k in
                if page_info p1 unused = None then Inl KPanic
                else (let s2 = set_order p1 unused k in Inr (Some pages, set_entries s2 z k (entries s2 z k @ [unused])))))
           = Inr (r, p')"
      using run by auto
    then have "pmm_is_stage2 p' = pmm_is_stage2 p1 \<and> alloc_flags p' = alloc_flags p1"
      by (auto simp: Let_def set_entries_def set_order_def split: option.splits if_splits)
    then show ?thesis using "1.IH" [OF _ _ r1] False by simp
  qed
qed

lemma helper_allocate_frame:
  "pmm_helper_allocate_pages p z k = Inr (r, p') \<Longrightarrow> pmm_is_stage2 p' = pmm_is_stage2 p \<and> alloc_flags p' = alloc_flags p"
  using raw_allocate_frame by (fastforce simp: pmm_helper_allocate_pages_def split: option.splits)

lemma zone_loop_frame:
  "pmm_zone_loop z p k = Inr (r, p') \<Longrightarrow> pmm_is_stage2 p' = pmm_is_stage2 p \<and> alloc_flags p' = alloc_flags p"
proof (induction z arbitrary: p)
  case 0
  then show ?case using helper_allocate_frame by simp
next
  case (Suc z)
  then obtain r1 p1 where r1: "pmm_helper_allocate_pages p (Suc z) k = Inr (r1, p1)"
    "(if r1 \<noteq> None then Inr (r1, p1) else pmm_zone_loop z p1 k) = Inr (r, p')" by auto
  then show ?case using Suc.IH [of p1] helper_allocate_frame [OF r1(1)] by (auto split: if_splits)
qed

text \<open>An allocation of a page, as the tables see it.\<close>

lemma allocate_page_cases:
  assumes "pmm_inv p" "pmm_is_stage2 p"
  obtains (panic) "pmm_allocate_page p = Inl KPanic" "and (alloc_flags p) ALLOC_FLAG_OOM \<noteq> 0"
  | (none) "pmm_allocate_page p = Inr (None, p)" "and (alloc_flags p) ALLOC_FLAG_OOM = 0"
  | (page) f p' where "pmm_allocate_page p = Inr (Some f, p')" "allocated p 0 f p'" "pmm_inv p'" "pmm_is_stage2 p'"
      "alloc_flags p' = alloc_flags p" "f \<in> free_pages p" "free_pages p' = free_pages p - {f}"
proof (cases "pmm_allocate_page p")
  case (Inl e)
  then show ?thesis using allocate_flags_spec [OF assms, where zone = 42 and k = 0 and flags = 0] panic by (simp add: pmm_allocate_page_def)
next
  case (Inr rp)
  obtain r p' where rp: "rp = (r, p')" by fastforce
  show ?thesis
  proof (cases r)
    case None
    then show ?thesis using allocate_flags_spec [OF assms, where zone = 42 and k = 0 and flags = 0] none Inr rp by (simp add: pmm_allocate_page_def)
  next
    case (Some f)
    have run: "pmm_allocate_page p = Inr (Some f, p')" using Inr rp Some by simp
    then have a: "allocated p 0 f p'" "pmm_inv p'"
      using allocate_flags_spec [OF assms, where zone = 42 and k = 0 and flags = 0] by (simp_all add: pmm_allocate_page_def)
    have "pmm_zone_loop 2 p 0 = Inr (Some f, p')"
      using run assms(2) by (auto simp: pmm_allocate_page_def pmm_zone_allocate_pages_flags_def Let_def split: if_splits)
    from zone_loop_frame [OF this] show ?thesis
      using page [OF run a] a(1) assms(2) by (simp add: allocated_def span_def)
  qed
qed

lemma create_walk_spec:
  assumes "mmu_inv s root" "tab (tables s) root k (vp v) = Some t" "k + l = 3"
  shows "case mmu_create_walk s t l v of
      Inl e \<Rightarrow> e = KPanic \<and> oom_panics s
    | Inr (r, s') \<Rightarrow> mmu_inv s' root \<and> (oom_panics s' = oom_panics s) \<and> (\<forall>m < 2 ^ 36. pte (tables s') root m = pte (tables s) root m) \<and>
        (\<forall>t'. r = Some t' \<longrightarrow> tab (tables s') root 3 (vp v) = Some t')"
  using assms
proof (induction l arbitrary: s k t)
  case (Suc l)
  let ?i = "level_index (Suc l) (vp v)"
  let ?e = "tables s t ?i"
  have k: "3 - k = Suc l" "k < 3" "Suc k + l = 3" using Suc.prems(3) by simp_all
  have i: "PAGING_LEVEL_INDEX (Suc l) v = ?i" using Suc.prems(3) by (intro PAGING_LEVEL_INDEX_vp) simp
  have inv: "pmm_inv (mmu_pmm s)" "pmm_is_stage2 (mmu_pmm s)" "tree_ok (tables s) root"
    "reach (tables s) root \<inter> free_pages (mmu_pmm s) = {}" "free_pages (mmu_pmm s) \<subseteq> {..<2 ^ 40}"
    using Suc.prems(1) by (simp_all add: mmu_inv_def)
  show ?case
  proof (cases "present ?e")
    case True
    have "tab (tables s) root (Suc k) (vp v) = Some (entry_frame ?e)" using Suc.prems(2) True by (simp add: k)
    from Suc.IH [OF Suc.prems(1) this k(3)] show ?thesis using True by (simp add: i)
  next
    case False
    show ?thesis
    proof (rule allocate_page_cases [OF inv(1,2)])
      assume "pmm_allocate_page (mmu_pmm s) = Inl KPanic" "and (alloc_flags (mmu_pmm s)) ALLOC_FLAG_OOM \<noteq> 0"
      then show ?thesis using False by (simp add: i oom_panics_def)
    next
      assume "pmm_allocate_page (mmu_pmm s) = Inr (None, mmu_pmm s)"
      then show ?thesis using False Suc.prems(1) by (simp add: i)
    next
      fix f p'
      assume a: "pmm_allocate_page (mmu_pmm s) = Inr (Some f, p')" "pmm_inv p'" "pmm_is_stage2 p'"
        "alloc_flags p' = alloc_flags (mmu_pmm s)" "f \<in> free_pages (mmu_pmm s)" "free_pages p' = free_pages (mmu_pmm s) - {f}"
      define e where "e = or (page_address f) PAGING_FLAG_RW_CPL3"
      define s1 where "s1 = s\<lparr>mmu_pmm := p', tables := store (zero_table (tables s) f) (t, ?i) e\<rparr>"
      have f: "f < 2 ^ 40" "f \<notin> reach (tables s) root" using a(5) inv(4,5) by auto
      have e: "present e" "entry_frame e = f" using new_table_entry [OF f(1)] by (simp_all add: e_def)
      note add = add_table [OF inv(3) vp_less k(2) Suc.prems(2) _ f(2) e, unfolded k(1), OF False]
      have run: "mmu_create_walk s t (Suc l) v = mmu_create_walk s1 f l v"
        using False a(1) e(2) by (simp add: i s1_def e_def Let_def)
      have "mmu_inv s1 root" unfolding mmu_inv_def s1_def using add(1,2) a(2,3,6) inv(4,5) by auto
      moreover have "tab (tables s1) root (Suc k) (vp v) = Some f" using add(4) by (simp add: s1_def)
      moreover have "oom_panics s1 = oom_panics s" using a(4) by (simp add: oom_panics_def s1_def)
      moreover have "\<forall>m < 2 ^ 36. pte (tables s1) root m = pte (tables s) root m" using add(3) by (simp add: s1_def)
      ultimately show ?thesis using Suc.IH [of s1 "Suc k" f] k(3) unfolding run by (simp split: sum.splits prod.splits)
    qed
  qed
qed simp

subsection \<open>The next mapped page\<close>

lemma first_some_None: "first_some f [a..<b] = None \<longleftrightarrow> (\<forall>i. a \<le> i \<longrightarrow> i < b \<longrightarrow> f i = None)"
proof -
  have "first_some f xs = None \<longleftrightarrow> (\<forall>x \<in> set xs. f x = None)" for xs by (induction xs) (auto split: option.splits)
  then show ?thesis by auto
qed

lemma first_some_Some:
  "first_some f [a..<b] = Some y \<Longrightarrow> \<exists>i. a \<le> i \<and> i < b \<and> f i = Some y \<and> (\<forall>j. a \<le> j \<longrightarrow> j < i \<longrightarrow> f j = None)"
proof (induction "b - a" arbitrary: a)
  case (Suc d)
  then have ab: "a < b" "[a..<b] = a # [Suc a..<b]" by (simp_all add: upt_conv_Cons)
  show ?case
  proof (cases "f a")
    case None
    then have "first_some f [Suc a..<b] = Some y" using Suc.prems ab by simp
    then obtain i where "Suc a \<le> i" "i < b" "f i = Some y" "\<forall>j. Suc a \<le> j \<longrightarrow> j < i \<longrightarrow> f j = None"
      using Suc.hyps(1) [of "Suc a"] Suc.hyps(2) by force
    then show ?thesis using None by (metis Suc_leI Suc_leD le_neq_implies_less)
  next
    case (Some z)
    then show ?thesis using Suc.prems ab by (intro exI [of _ a]) auto
  qed
qed simp

text \<open>The entry of page \<open>n\<close> below a table of level \<open>l\<close>, when it is present.\<close>

fun leaf :: "ptables \<Rightarrow> nat \<Rightarrow> nat \<Rightarrow> nat \<Rightarrow> mmu_entry option" where
  "leaf T 0 t n = (if present (T t (level_index 0 n)) then Some (t, level_index 0 n) else None)"
| "leaf T (Suc l) t n =
     (let e = T t (level_index (Suc l) n) in if present e then leaf T l (entry_frame e) n else None)"

lemma mod_div_512: "n mod 512 ^ Suc l div 512 ^ l = level_index l n"
proof -
  have "n mod 512 ^ Suc l div 512 ^ l = (512 ^ l * (n div 512 ^ l mod 512) + n mod 512 ^ l) div 512 ^ l"
    by (simp only: power_Suc2 mod_mult2_eq)
  also have "\<dots> = level_index l n" by (simp add: level_index_def)
  finally show ?thesis .
qed

lemma level_index_mod: "level_index l (n mod 512 ^ Suc l) = level_index l n"
  unfolding level_index_def [of l "n mod 512 ^ Suc l"] mod_div_512 by (simp add: level_index_def)

lemma leaf_mod: "leaf T l t (n mod 512 ^ Suc l) = leaf T l t n"
proof (induction l arbitrary: t n)
  case 0
  then show ?case by (simp add: level_index_def)
next
  case (Suc l)
  have "level_index (Suc l) (n mod 512 ^ Suc (Suc l)) = level_index (Suc l) n" by (rule level_index_mod)
  moreover have "leaf T l u (n mod 512 ^ Suc (Suc l)) = leaf T l u n" for u
    using Suc.IH [of u "n mod 512 ^ Suc (Suc l)"] Suc.IH [of u n]
    by (simp add: mod_mod_cancel [of "512 ^ Suc l" "512 ^ Suc (Suc l)"] le_imp_power_dvd del: power_Suc)
  ultimately show ?case by (simp add: Let_def del: power_Suc)
qed

lemma leaf_tab:
  assumes "tab T root k n = Some t" "k + l = 3"
  shows "leaf T l t n = (case tab T root 3 n of None \<Rightarrow> None
    | Some u \<Rightarrow> if present (T u (level_index 0 n)) then Some (u, level_index 0 n) else None)"
  using assms
proof (induction l arbitrary: k t)
  case (Suc l)
  let ?e = "T t (level_index (Suc l) n)"
  have "3 - k = Suc l" using Suc.prems(2) by simp
  then have nx: "tab T root (Suc k) n = (if present ?e then Some (entry_frame ?e) else None)"
    using Suc.prems(1) by simp
  show ?case
  proof (cases "present ?e")
    case True
    then show ?thesis using Suc.IH [of "Suc k"] nx Suc.prems(2) by simp
  next
    case False
    then have "tab T root (Suc k + l) n = None" using nx by (intro tab_None_below) simp
    then have "tab T root 3 n = None" using Suc.prems(2) by (metis add_Suc_shift)
    then show ?thesis using False by simp
  qed
qed simp

text \<open>The address of the first byte of page \<open>n\<close>.\<close>

definition page_start :: "nat \<Rightarrow> u64" where
  "page_start n = word_of_nat (n * PAGE_SIZE)"

lemma push_bit_page: "push_bit (PAGING_LEVEL_SHIFT l) (word_of_nat i) = page_start (i * 512 ^ l)"
  by (simp add: page_start_def PAGING_LEVEL_SHIFT_def PAGE_SIZE_def push_bit_eq_mult power_add pow512 of_nat_mult algebra_simps)

lemma page_start_add: "page_start a + page_start b = page_start (b + a)"
  by (simp add: page_start_def algebra_simps)

lemma unat_page_start: "n \<le> 2 ^ 36 \<Longrightarrow> unat (page_start n) = n * PAGE_SIZE"
proof -
  assume "n \<le> 2 ^ 36"
  then have "n * PAGE_SIZE < 2 ^ 64" by (simp add: PAGE_SIZE_def)
  then show ?thesis unfolding page_start_def unsigned_of_nat by (simp add: take_bit_nat_eq_self)
qed

lemma vp_page_start: "n < 2 ^ 36 \<Longrightarrow> vp (page_start n) = n"
  by (simp add: vp_def unat_page_start PAGE_SIZE_def)

text \<open>A search from page \<open>n\<close> finds the first present page of the table from there on.\<close>

definition first_leaf :: "ptables \<Rightarrow> nat \<Rightarrow> nat \<Rightarrow> nat \<Rightarrow> (mmu_entry \<times> u64) option \<Rightarrow> bool" where
  "first_leaf T l t n r \<longleftrightarrow>
     (case r of
        None \<Rightarrow> \<forall>m. n \<le> m \<longrightarrow> m < 512 ^ Suc l \<longrightarrow> leaf T l t m = None
      | Some (e, v) \<Rightarrow> \<exists>m. v = page_start m \<and> n \<le> m \<and> m < 512 ^ Suc l \<and> leaf T l t m = Some e \<and>
                        (\<forall>k. n \<le> k \<longrightarrow> k < m \<longrightarrow> leaf T l t k = None))"

lemma leaf_Suc:
  assumes "i < 512" "r < 512 ^ Suc l"
  shows "leaf T (Suc l) t (i * 512 ^ Suc l + r) = (if present (T t i) then leaf T l (entry_frame (T t i)) r else None)"
proof -
  have "level_index (Suc l) (i * 512 ^ Suc l + r) = i" using assms by (simp add: level_index_def del: power_Suc)
  moreover have "leaf T l u (i * 512 ^ Suc l + r) = leaf T l u r" for u
    using leaf_mod [of T l u "i * 512 ^ Suc l + r"] leaf_mod [of T l u r] by (simp del: power_Suc)
  ultimately show ?thesis by (simp add: Let_def del: power_Suc)
qed

lemma first_leaf_step:
  assumes start: "start = n div 512 ^ Suc l" "n < 512 ^ Suc (Suc l)"
    and sub: "\<And>i. start \<le> i \<Longrightarrow> i < 512 \<Longrightarrow> present (T t i) \<Longrightarrow>
      first_leaf T l (entry_frame (T t i)) (if i = start then n mod 512 ^ Suc l else 0) (h i)"
  shows "first_leaf T (Suc l) t n
    (first_some (\<lambda>i. if present (T t i) then map_option (\<lambda>(e, v). (e, v + page_start (i * 512 ^ Suc l))) (h i) else None) [start..<512])"
    (is "first_leaf T (Suc l) t n (first_some ?f _)")
proof -
  define B :: nat where "B = 512 ^ Suc l"
  have B: "512 ^ Suc (Suc l) = 512 * B" by (simp add: B_def)
  note leaf' = leaf_Suc [where l = l, folded B_def] and start' = start [unfolded B, folded B_def] and sub' = sub [folded B_def]
  have index: "start \<le> m div B" "m div B < 512" if "n \<le> m" "m < 512 * B" for m
    using that start'(1) by (simp_all add: div_le_mono less_mult_imp_div_less)
  have split: "leaf T (Suc l) t m = (if present (T t (m div B)) then leaf T l (entry_frame (T t (m div B))) (m mod B) else None)"
    if "n \<le> m" "m < 512 * B" for m
  proof -
    have "m mod B < B" by (simp add: B_def)
    from leaf' [OF index(2) [OF that] this, of T t] show ?thesis by (simp only: div_mult_mod_eq)
  qed
  have bound: "(if m div B = start then n mod B else 0) \<le> m mod B" if "n \<le> m" for m
  proof (cases "m div B = start")
    case True
    have "n div B * B + n mod B \<le> n div B * B + m mod B" using that True start'(1) by (metis div_mult_mod_eq)
    then have "n mod B \<le> m mod B" by (simp only: add_le_cancel_left)
    then show ?thesis by simp
  qed simp
  have none: "leaf T (Suc l) t m = None" if "?f (m div B) = None" "n \<le> m" "m < 512 * B" for m
    using split [OF that(2,3)] sub' [OF index [OF that(2,3)]] bound [OF that(2)] that(1)
    by (auto simp: first_leaf_def B_def split: if_splits option.splits)
  show ?thesis
  proof (cases "first_some ?f [start..<512]")
    case None
    have "leaf T (Suc l) t m = None" if "n \<le> m" "m < 512 * B" for m
      by (rule none [OF first_some_None [THEN iffD1, rule_format, OF None index [OF that]] that])
    then show ?thesis unfolding None first_leaf_def option.case B by blast
  next
    case (Some ev)
    from first_some_Some [OF this]
    obtain i where i: "start \<le> i" "i < 512" "?f i = Some ev" "\<forall>j. start \<le> j \<longrightarrow> j < i \<longrightarrow> ?f j = None" by blast
    then obtain e v where h: "present (T t i)" "h i = Some (e, v)" "ev = (e, v + page_start (i * B))"
      by (auto simp: B_def split: if_splits)
    from sub' [OF i(1,2) h(1)] h(2) obtain m where m: "v = page_start m" "(if i = start then n mod B else 0) \<le> m" "m < B"
      "leaf T l (entry_frame (T t i)) m = Some e"
      "\<And>k. (if i = start then n mod B else 0) \<le> k \<Longrightarrow> k < m \<Longrightarrow> leaf T l (entry_frame (T t i)) k = None"
      unfolding first_leaf_def B_def by auto
    let ?m = "i * B + m"
    have d: "?m div B = i" "?m mod B = m" using m(3) by simp_all
    have le: "n \<le> ?m"
    proof (cases "i = start")
      case True
      have "n div B * B + n mod B \<le> n div B * B + m" using True m(2) by (simp only: simp_thms if_True add_le_cancel_left)
      then show ?thesis using True start'(1) by (simp only: div_mult_mod_eq)
    next
      case False
      then have "n div B < i" using i(1) start'(1) by simp
      then have "n < i * B" using m(3) by (simp add: div_less_iff_less_mult)
      then show ?thesis by simp
    qed
    have "?m < (i + 1) * B" using m(3) by (simp add: algebra_simps)
    also have "\<dots> \<le> 512 * B" using i(2) by (intro mult_le_mono1) simp
    finally have less: "?m < 512 * B" .
    have before: "leaf T (Suc l) t k = None" if k: "n \<le> k" "k < ?m" for k
    proof (cases "k div B < i")
      case True
      then show ?thesis using none [of k] i(4) index [of k] k less by simp
    next
      case False
      have "k div B \<le> i" using div_le_mono [of k ?m B] k(2) d(1) by simp
      then have eq: "k div B = i" using False by simp
      have "i * B + k mod B < i * B + m" using k(2) eq by (metis div_mult_mod_eq)
      then have "k mod B < m" by (simp only: add_less_cancel_left)
      then show ?thesis using split [of k] k less eq m(5) [OF bound [OF k(1), unfolded eq]] by simp
    qed
    have "leaf T (Suc l) t ?m = Some e" using split [OF le less] d h(1) m(4) by simp
    moreover have "v + page_start (i * B) = page_start ?m" using m(1) page_start_add by simp
    ultimately show ?thesis unfolding Some first_leaf_def option.case h(3) prod.case B
      using le less before by blast
  qed
qed

lemma next_entry_helper_spec:
  assumes "l \<le> 3"
  shows "first_leaf T l t (vp from mod 512 ^ Suc l) (mmu_get_next_entry_helper T l t from)"
  using assms
proof (induction l arbitrary: t "from")
  case 0
  let ?f = "\<lambda>i. if present (T t i) then Some ((t, i), push_bit (PAGING_LEVEL_SHIFT 0) (word_of_nat i) :: u64) else None"
  have i: "PAGING_LEVEL_INDEX 0 from = vp from mod 512" by (simp add: PAGING_LEVEL_INDEX_vp level_index_def)
  have leaf: "leaf T 0 t m = (if present (T t m) then Some (t, m) else None)" if "m < 512" for m using that by (simp add: level_index_def)
  show ?case
  proof (cases "first_some ?f [vp from mod 512..<512]")
    case None
    have "\<not> present (T t m)" if "vp from mod 512 \<le> m" "m < 512" for m
      using None [unfolded first_some_None] that by (auto split: if_splits)
    then have "first_leaf T 0 t (vp from mod 512) None" using leaf by (simp add: first_leaf_def)
    then show ?thesis using None by (simp add: i PAGING_ENTRIES_PER_LEVEL_def)
  next
    case (Some ev)
    from first_some_Some [OF this]
    obtain j where j: "vp from mod 512 \<le> j" "j < 512" "?f j = Some ev" "\<forall>k. vp from mod 512 \<le> k \<longrightarrow> k < j \<longrightarrow> ?f k = None" by blast
    then have "ev = ((t, j), page_start j)" "present (T t j)" using push_bit_page [of 0 j] by (auto split: if_splits)
    moreover have "\<not> present (T t k)" if "vp from mod 512 \<le> k" "k < j" for k using j(4) that by (auto split: if_splits)
    ultimately have "first_leaf T 0 t (vp from mod 512) (Some ev)"
      using j(1,2) by (auto simp: first_leaf_def level_index_def intro!: exI [of _ j])
    then show ?thesis using Some by (simp add: i PAGING_ENTRIES_PER_LEVEL_def)
  qed
next
  case (Suc l)
  let ?n = "vp from mod 512 ^ Suc (Suc l)"
  have i: "PAGING_LEVEL_INDEX (Suc l) from = level_index (Suc l) (vp from)" using Suc.prems by (rule PAGING_LEVEL_INDEX_vp)
  have start: "level_index (Suc l) (vp from) = ?n div 512 ^ Suc l" by (rule mod_div_512 [symmetric])
  have n: "?n < 512 ^ Suc (Suc l)" by simp
  have m: "?n mod 512 ^ Suc l = vp from mod 512 ^ Suc l" by (rule mod_mod_cancel) (simp add: le_imp_power_dvd)
  have z: "vp 0 mod 512 ^ Suc l = 0" by (simp add: vp_def)
  have sub: "first_leaf T l (entry_frame (T t j)) (if j = ?n div 512 ^ Suc l then ?n mod 512 ^ Suc l else 0)
      (mmu_get_next_entry_helper T l (entry_frame (T t j)) (if j = ?n div 512 ^ Suc l then from else 0))" for j
    using Suc.IH [of "entry_frame (T t j)" "from"] Suc.IH [of "entry_frame (T t j)" 0] Suc.prems m z by (auto simp del: power_Suc)
  from first_leaf_step [OF refl n sub] show ?case
    unfolding mmu_get_next_entry_helper.simps Let_def i start PAGING_ENTRIES_PER_LEVEL_def push_bit_page by simp
qed

lemma next_entry_cases:
  assumes "vp from = n"
  obtains (none) "mmu_get_next_entry T root from = None" "\<And>m. n \<le> m \<Longrightarrow> m < 2 ^ 36 \<Longrightarrow> pte T root m = None"
  | (some) m t where "mmu_get_next_entry T root from = Some ((t, level_index 0 m), page_start m)" "n \<le> m" "m < 2 ^ 36"
      "tab T root 3 m = Some t" "\<And>k. n \<le> k \<Longrightarrow> k < m \<Longrightarrow> pte T root k = None"
proof -
  have leaf3: "leaf T 3 root m = (case tab T root 3 m of None \<Rightarrow> None
      | Some u \<Rightarrow> if present (T u (level_index 0 m)) then Some (u, level_index 0 m) else None)" for m
    by (rule leaf_tab [of T root 0]) simp_all
  have pte: "leaf T 3 root m = None \<longleftrightarrow> pte T root m = None" for m by (simp add: leaf3 pte_def split: option.split)
  have B: "512 ^ Suc 3 = (2 :: nat) ^ 36" by simp
  have n: "vp from mod 512 ^ Suc 3 = n" using vp_less [of "from"] assms unfolding B by simp
  have f: "first_leaf T 3 root n (mmu_get_next_entry T root from)"
    using next_entry_helper_spec [of 3 T root "from", unfolded n] by (simp add: mmu_get_next_entry_def PAGING_LEVEL_MAX_def)
  show thesis
  proof (cases "mmu_get_next_entry T root from")
    case None
    then show thesis using f [unfolded None first_leaf_def option.case B] none pte by blast
  next
    case (Some ev)
    obtain e v where ev: "ev = (e, v)" by fastforce
    obtain m where m: "v = page_start m" "n \<le> m" "m < 2 ^ 36" "leaf T 3 root m = Some e"
      "\<And>k. n \<le> k \<Longrightarrow> k < m \<Longrightarrow> leaf T 3 root k = None"
      using f [unfolded Some first_leaf_def option.case B ev prod.case] by blast
    from m(4) obtain t where "tab T root 3 m = Some t" "e = (t, level_index 0 m)"
      by (auto simp: leaf3 split: option.splits if_splits)
    then show thesis using some [OF _ m(2,3)] Some ev m(1,5) pte by simp
  qed
qed

lemma page_start_0 [simp]: "page_start 0 = 0"
  by (simp add: page_start_def)

lemma page_start_less: "a \<le> 2 ^ 36 \<Longrightarrow> b \<le> 2 ^ 36 \<Longrightarrow> page_start a < page_start b \<longleftrightarrow> a < b"
  by (simp add: word_less_nat_alt unat_page_start PAGE_SIZE_def)

lemma page_start_Suc: "page_start m + word_of_nat PAGE_SIZE = page_start (Suc m)"
  by (simp add: page_start_def algebra_simps)

lemma unmap_loop_spec:
  assumes "tree_ok T root" "n \<le> u" "u < 2 ^ 36"
  shows "\<exists>T'. mmu_unmap_loop T root (page_start n) (page_start u) = Some T' \<and> tree_ok T' root \<and> reach T' root = reach T root \<and>
    (\<forall>m < 2 ^ 36. pte T' root m = (if n \<le> m \<and> m < u then None else pte T root m))"
  using assms
proof (induction "u - n" arbitrary: n T rule: less_induct)
  case less
  have "n < 2 ^ 36" using less.prems by linarith
  then have "vp (page_start n) = n" by (rule vp_page_start)
  then show ?case
  proof (cases rule: next_entry_cases [of _ _ T root])
    case none
    then show ?thesis using less.prems by (subst mmu_unmap_loop.simps) auto
  next
    case (some m t)
    show ?thesis
    proof (cases "m < u")
      case False
      then have "\<not> page_start m < page_start u" using some(3) less.prems(3) page_start_less by simp
      moreover have "pte T root k = None" if "n \<le> k" "k < u" for k using some(5) that False by simp
      ultimately show ?thesis using some(1) less.prems by (subst mmu_unmap_loop.simps) auto
    next
      case True
      let ?T = "store T (t, level_index 0 m) 0"
      note st = store_leaf [OF less.prems(1) some(3,4), where v = 0]
      have lt: "page_start m < page_start u" using True some(3) less.prems(3) page_start_less by simp
      have "u - Suc m < u - n" "Suc m \<le> u" using some(2) True by simp_all
      from less.hyps [OF this(1) st(3) this(2) less.prems(3)] obtain T' where
        T': "mmu_unmap_loop ?T root (page_start (Suc m)) (page_start u) = Some T'" "tree_ok T' root" "reach T' root = reach ?T root"
        "\<And>k. k < 2 ^ 36 \<Longrightarrow> pte T' root k = (if Suc m \<le> k \<and> k < u then None else pte ?T root k)" by blast
      have "pte T' root k = (if n \<le> k \<and> k < u then None else pte T root k)" if "k < 2 ^ 36" for k
        using T'(4) [OF that] st(2) [OF that] some(2) some(5) [of k] True by auto
      moreover have "mmu_unmap_loop T root (page_start n) (page_start u) = Some T'"
        using some(1) lt T'(1) by (subst mmu_unmap_loop.simps) (simp add: mmu_entry_unmap_def page_start_Suc)
      ultimately show ?thesis using T'(2,3) st(4) by blast
    qed
  qed
qed

lemma aligned_page_start: "page_aligned v \<Longrightarrow> unat v < 2 ^ 48 \<Longrightarrow> page_start (vp v) = v"
proof -
  assume a: "page_aligned v" "unat v < 2 ^ 48"
  have "unat v div PAGE_SIZE < 2 ^ 36" using a(2) by (simp add: PAGE_SIZE_def)
  then have "vp v = unat v div PAGE_SIZE" by (simp add: vp_def)
  then have "vp v * PAGE_SIZE = unat v" using a(1) unfolding page_aligned_def by (metis add.right_neutral div_mult_mod_eq)
  then have "page_start (vp v) = word_of_nat (unat v)" by (simp only: page_start_def)
  then show ?thesis by simp
qed

subsection \<open>Mapping a range\<close>

lemma unat_page_size: "unat (word_of_nat PAGE_SIZE :: u64) = 4096"
  by (simp add: PAGE_SIZE_def)

lemma vp_Suc:
  assumes "vp v + 1 < 2 ^ 36"
  shows "vp (v + word_of_nat PAGE_SIZE) = vp v + 1"
proof -
  have "unat (v + word_of_nat PAGE_SIZE) = (unat v + 4096) mod 2 ^ 64"
    unfolding unat_word_ariths unat_page_size by simp
  moreover have "x mod 2 ^ 64 div 4096 mod 2 ^ 36 = x div 4096 mod 2 ^ 36" for x :: nat
  proof -
    have "take_bit 36 (drop_bit 12 (take_bit 64 x)) = take_bit 36 (drop_bit 12 x)" by (intro bit_eqI) (auto simp: bit_simps)
    then show ?thesis by (simp add: take_bit_eq_mod drop_bit_eq_div)
  qed
  moreover have "(unat v + 4096) div 4096 = unat v div 4096 + 1" by (rule div_add_self2) simp
  ultimately have "vp (v + word_of_nat PAGE_SIZE) = (unat v div 4096 + 1) mod 2 ^ 36" by (simp add: vp_def PAGE_SIZE_def)
  also have "\<dots> = (vp v + 1) mod 2 ^ 36" by (simp only: vp_def PAGE_SIZE_def mod_add_left_eq)
  finally show ?thesis using assms by simp
qed

lemma page_aligned_Suc: "page_aligned v \<Longrightarrow> page_aligned (v + word_of_nat PAGE_SIZE)"
proof -
  assume "page_aligned v"
  then have "(unat v + 4096) mod 4096 = 0" by (simp add: page_aligned_def PAGE_SIZE_def)
  moreover have "(4096 :: nat) dvd 2 ^ 64" by simp
  ultimately have "(unat v + 4096) mod 2 ^ 64 mod 4096 = 0" by (simp only: mod_mod_cancel)
  then show ?thesis unfolding page_aligned_def unat_word_ariths unat_page_size by (simp add: PAGE_SIZE_def)
qed

text \<open>Two neighbouring pages whose addresses agree in bit 21 are mapped by the same table.\<close>

lemma same_table_bit_iff: "same_table_bit a b \<longleftrightarrow> (odd (unat a div 2 ^ 21) \<longleftrightarrow> odd (unat b div 2 ^ 21))"
proof -
  have m: "(word_of_nat (PAGING_ENTRIES_PER_LEVEL * PAGE_SIZE) :: u64) = push_bit 21 1"
    by (simp add: PAGING_ENTRIES_PER_LEVEL_def PAGE_SIZE_def)
  have "bit x 21 \<longleftrightarrow> odd (unat x div 2 ^ 21)" for x :: u64
    using bit_iff_odd [of "unat x" 21] by (simp add: bit_unsigned_iff)
  moreover have "same_table_bit a b \<longleftrightarrow> (bit a 21 \<longleftrightarrow> bit b 21)"
  proof
    assume "same_table_bit a b"
    then have "bit (and a (push_bit 21 1)) 21 = bit (and b (push_bit 21 1)) 21" unfolding same_table_bit_def m by simp
    then show "bit a 21 \<longleftrightarrow> bit b 21" by (simp add: bit_simps)
  next
    assume "bit a 21 \<longleftrightarrow> bit b 21"
    moreover have "bit (push_bit 21 1 :: u64) i \<longleftrightarrow> i = 21" for i by (subst bit_push_bit_iff) (auto simp: bit_1_iff)
    ultimately have "bit (and a (push_bit 21 1)) i = bit (and b (push_bit 21 1)) i" for i unfolding bit_and_iff by metis
    then show "same_table_bit a b" unfolding same_table_bit_def m by (intro bit_eqI) simp
  qed
  ultimately show ?thesis by blast
qed

lemma same_table_neighbour:
  assumes "page_aligned v" "4096 \<le> unat v" "same_table_bit v (v - word_of_nat PAGE_SIZE)"
  shows "vp v mod 512 \<noteq> 0"
proof
  assume z: "vp v mod 512 = 0"
  let ?x = "unat v"
  have sub: "unat (v - word_of_nat PAGE_SIZE) = ?x - 4096"
    using assms(2) unat_sub [of "word_of_nat PAGE_SIZE" v] unat_page_size by (simp add: word_le_nat_alt)
  have "?x div 4096 mod 2 ^ 36 mod 512 = ?x div 4096 mod 512" by (rule mod_mod_cancel) simp
  then have "?x div 4096 mod 512 = 0" using z by (simp add: vp_def PAGE_SIZE_def)
  moreover have "?x mod 4096 = 0" using assms(1) by (simp add: page_aligned_def PAGE_SIZE_def)
  ultimately obtain q where q: "?x = 2 ^ 21 * q" using mod_mult2_eq [of ?x 4096 512] by (auto elim: dvdE simp: mod_eq_0_iff_dvd)
  then have "0 < q" using assms(2) by (cases q) auto
  then have "(?x - 4096) div 2 ^ 21 = q - 1"
  proof -
    have "?x - 4096 = 2 ^ 21 * (q - 1) + (2 ^ 21 - 4096)" using q \<open>0 < q\<close> by (cases q) auto
    then show ?thesis by simp
  qed
  moreover have "?x div 2 ^ 21 = q" using q by simp
  ultimately show False using assms(3) \<open>0 < q\<close> unfolding same_table_bit_iff sub by (cases q) auto
qed

text \<open>The entry a loop over pages carries is that of the page before.\<close>

definition entry_before :: "ptables \<Rightarrow> nat \<Rightarrow> u64 \<Rightarrow> mmu_entry option \<Rightarrow> bool" where
  "entry_before T root v entry \<longleftrightarrow>
     (case entry of
        None \<Rightarrow> True
      | Some e \<Rightarrow> 0 < vp v \<and> (\<exists>t. tab T root 3 (vp v - 1) = Some t \<and> e = (t, level_index 0 (vp v - 1))))"

lemma vp_pos: "0 < vp v \<Longrightarrow> 4096 \<le> unat v"
proof (rule ccontr)
  assume "0 < vp v" "\<not> 4096 \<le> unat v"
  then show False by (simp add: vp_def PAGE_SIZE_def)
qed

lemma index_pred: "(0 :: nat) < n \<Longrightarrow> n mod 512 \<noteq> 0 \<Longrightarrow> n mod 512 = (n - 1) mod 512 + 1 \<and> n div 512 = (n - 1) div 512"
  by (cases n) (auto simp: mod_Suc div_Suc split: if_splits)

lemma entry_offset_Suc:
  assumes "i + 1 < 512"
  shows "entry_offset (t, i) 1 = (t, i + 1)"
proof -
  have k: "int (t * 512 + i) + 1 = int (t * 512 + (i + 1))" by simp
  have "(t * 512 + (i + 1)) div 512 = t" "(t * 512 + (i + 1)) mod 512 = i + 1" using assms by simp_all
  then show ?thesis unfolding entry_offset_def Let_def fst_conv snd_conv PAGING_ENTRIES_PER_LEVEL_def k zdiv_int [symmetric] zmod_int [symmetric] by (simp only: nat_int)
qed

lemma create_next_spec:
  assumes inv: "mmu_inv s root" and al: "page_aligned v" and before: "entry_before (tables s) root v entry"
  shows "case mmu_create_next_entry_and_acquire_lock s root v entry (v - word_of_nat PAGE_SIZE) of
      Inl e \<Rightarrow> e = KPanic \<and> oom_panics s
    | Inr (r, s') \<Rightarrow> mmu_inv s' root \<and> (oom_panics s' = oom_panics s) \<and> (\<forall>m < 2 ^ 36. pte (tables s') root m = pte (tables s) root m) \<and>
        (\<forall>e. r = Some e \<longrightarrow> (\<exists>t. tab (tables s') root 3 (vp v) = Some t \<and> e = (t, level_index 0 (vp v))))" (is "?ok (mmu_create_next_entry_and_acquire_lock s root v entry _)")
proof -
  have slow: "?ok (mmu_create_entry_and_acquire_lock s root v)"
    using create_walk_spec [OF inv, of 0 v root 3]
    by (auto simp: mmu_create_entry_and_acquire_lock_def PAGING_LEVEL_MAX_def PAGING_LEVEL_INDEX_vp split: sum.splits prod.splits)
  show ?thesis
  proof (cases "entry \<noteq> None \<and> same_table_bit v (v - word_of_nat PAGE_SIZE)")
    case False
    then have "mmu_create_next_entry_and_acquire_lock s root v entry (v - word_of_nat PAGE_SIZE) = mmu_create_entry_and_acquire_lock s root v"
      by (cases entry) (simp_all add: mmu_create_next_entry_and_acquire_lock_def)
    then show ?thesis using slow by simp
  next
    case True
    then obtain t where e: "entry = Some (t, level_index 0 (vp v - 1))" "tab (tables s) root 3 (vp v - 1) = Some t" and pos: "0 < vp v"
      using before by (auto simp: entry_before_def)
    have big: "4096 \<le> unat v" by (rule vp_pos [OF pos])
    have low: "vp v mod 512 \<noteq> 0" by (rule same_table_neighbour [OF al big]) (use True in simp)
    have sub: "unat (v - word_of_nat PAGE_SIZE) = unat v - 4096"
      using big unat_sub [of "word_of_nat PAGE_SIZE" v] unat_page_size by (simp add: word_le_nat_alt)
    then have gt: "v > v - word_of_nat PAGE_SIZE" using big by (simp add: word_less_nat_alt)
    have i: "level_index 0 (vp v) = level_index 0 (vp v - 1) + 1" "vp v div 512 = (vp v - 1) div 512"
      using index_pred [OF pos low] by (simp_all add: level_index_def)
    have "tab (tables s) root 3 (vp v) = Some t" using tab_cong [of "vp v" 3 "vp v - 1"] e(2) i(2) by simp
    moreover have "entry_offset (t, level_index 0 (vp v - 1)) 1 = (t, level_index 0 (vp v))"
      using level_index_less [of 0 "vp v"] i(1) entry_offset_Suc by simp
    moreover have "mmu_create_next_entry_and_acquire_lock s root v entry (v - word_of_nat PAGE_SIZE) =
        Inr (Some (entry_offset (t, level_index 0 (vp v - 1)) 1), s)"
      using True gt by (simp add: e(1) mmu_create_next_entry_and_acquire_lock_def unat_page_size PAGE_SIZE_def)
    ultimately show ?thesis using inv by simp
  qed
qed

lemma unmap_pages_spec:
  assumes inv: "mmu_inv s root" and al: "page_aligned v" "page_aligned sz" and low: "unat v + unat sz < 2 ^ 48"
  shows "\<exists>s'. mmu_unmap_pages s root v sz = Inr s' \<and> mmu_inv s' root \<and> mmu_pmm s' = mmu_pmm s \<and>
    (\<forall>m < 2 ^ 36. pte (tables s') root m = (if vp v \<le> m \<and> m < vp (v + sz) then None else pte (tables s) root m))"
proof -
  have u: "unat (v + sz) = unat v + unat sz" using low by (subst unat_add_lem [symmetric]) simp
  have al': "page_aligned (v + sz)" using al unfolding page_aligned_def u by (simp add: mod_add_eq [symmetric])
  have vp: "page_start (vp v) = v" "page_start (vp (v + sz)) = v + sz"
    using aligned_page_start [OF al(1)] aligned_page_start [OF al'] low u by simp_all
  have "vp v \<le> vp (v + sz)"
  proof -
    have "vp v = unat v div PAGE_SIZE" "vp (v + sz) = (unat v + unat sz) div PAGE_SIZE"
      unfolding vp_def u using low by (simp_all add: PAGE_SIZE_def)
    then show ?thesis by (simp add: div_le_mono)
  qed
  moreover have "tree_ok (tables s) root" using inv by (simp add: mmu_inv_def)
  ultimately obtain T' where "mmu_unmap_loop (tables s) root v (v + sz) = Some T'" "tree_ok T' root" "reach T' root = reach (tables s) root"
    "\<forall>m < 2 ^ 36. pte T' root m = (if vp v \<le> m \<and> m < vp (v + sz) then None else pte (tables s) root m)"
    using unmap_loop_spec [OF _ _ vp_less, of "tables s" root "vp v" "v + sz"] vp by auto
  then show ?thesis using inv al by (intro exI [of _ "s\<lparr>tables := T'\<rparr>"]) (simp add: mmu_unmap_pages_def mmu_inv_def)
qed

text \<open>The value that mapping writes into an entry, as a search sees it.\<close>

definition mapped_value :: "u64 \<Rightarrow> u64 \<Rightarrow> u64 option" where
  "mapped_value paddr flags =
     (let e = or (and paddr PAGING_ENTRY_ADDRESS) (mmu2paging_flags flags) in if present e then Some e else None)"

lemma mmu_entry_map_spec:
  fixes paddr flags :: u64
  assumes "mmu_inv s root" "tab (tables s) root 3 n = Some t" "n < 2 ^ 36"
  defines "s' \<equiv> s\<lparr>tables := mmu_entry_map (tables s) (t, level_index 0 n) paddr flags\<rparr>"
  shows "mmu_inv s' root" "oom_panics s' = oom_panics s" "tab (tables s') root 3 n = Some t"
    "m < 2 ^ 36 \<Longrightarrow> pte (tables s') root m = (if m = n then mapped_value paddr flags else pte (tables s) root m)"
proof -
  have ok: "tree_ok (tables s) root" using assms(1) by (simp add: mmu_inv_def)
  note st = store_leaf [OF ok assms(3,2), where v = "or (and paddr PAGING_ENTRY_ADDRESS) (mmu2paging_flags flags)"]
  have T: "tables s' = store (tables s) (t, level_index 0 n) (or (and paddr PAGING_ENTRY_ADDRESS) (mmu2paging_flags flags))"
    "mmu_pmm s' = mmu_pmm s" by (simp_all add: s'_def mmu_entry_map_def)
  show "mmu_inv s' root" using assms(1) st(3,4) unfolding mmu_inv_def T by simp
  show "oom_panics s' = oom_panics s" by (simp add: oom_panics_def T)
  show "tab (tables s') root 3 n = Some t" using st(1) [of 3 n] assms(2,3) unfolding T by simp
  show "pte (tables s') root m = (if m = n then mapped_value paddr flags else pte (tables s) root m)" if "m < 2 ^ 36"
    using st(2) [OF that] unfolding T by (simp add: mapped_value_def Let_def)
qed

lemma unat_Suc_page:
  assumes "vp v + 1 < 2 ^ 36"
  shows "unat (v + word_of_nat PAGE_SIZE) = unat v + 4096"
proof -
  have "unat v + 4096 < 2 ^ 64"
  proof (rule ccontr)
    assume "\<not> unat v + 4096 < 2 ^ 64"
    moreover have "unat v < 2 ^ 64" using unsigned_less [of v] by simp
    ultimately have "unat v div 4096 = 2 ^ 52 - 1" by simp
    then show False using assms by (simp add: vp_def PAGE_SIZE_def)
  qed
  then show ?thesis using unat_page_size by (subst unat_add_lem [THEN iffD1]) simp_all
qed

text \<open>What mapping \<open>n\<close> pages from \<open>v\<close> on, in a loop that started at \<open>start\<close>, may have done.\<close>

definition map_result ::
    "mmu_state \<Rightarrow> nat \<Rightarrow> u64 \<Rightarrow> u64 \<Rightarrow> u64 \<Rightarrow> nat \<Rightarrow> u64 \<Rightarrow> ((errno + unit) \<times> mmu_state) kres \<Rightarrow> bool" where
  "map_result s root start v paddr n flags res \<longleftrightarrow>
     (case res of
        Inl e \<Rightarrow> unat v + n * 4096 \<le> 2 ^ 48 \<longrightarrow> e = KPanic \<and> oom_panics s
      | Inr (Inr _, s') \<Rightarrow> mmu_inv s' root \<and>
          (\<forall>m < 2 ^ 36. pte (tables s') root m =
             (if vp v \<le> m \<and> m < vp v + n then mapped_value (paddr + page_start (m - vp v)) flags else pte (tables s) root m))
      | Inr (Inl e, s') \<Rightarrow> e = ENOMEM \<and> (unat v + n * 4096 \<le> 2 ^ 48 \<longrightarrow> mmu_inv s' root \<and>
          (\<exists>j < n. \<forall>m < 2 ^ 36. pte (tables s') root m = (if vp start \<le> m \<and> m < vp v + j then None else pte (tables s) root m))))"

lemma map_result_step:
  assumes r: "map_result s1 root start (v + word_of_nat PAGE_SIZE) (paddr + word_of_nat PAGE_SIZE) n flags res"
    and v: "vp v + 1 < 2 ^ 36" "unat start \<le> unat v" and oom: "oom_panics s1 = oom_panics s"
    and pte: "\<And>m. m < 2 ^ 36 \<Longrightarrow> pte (tables s1) root m = (if m = vp v then mapped_value paddr flags else pte (tables s) root m)"
  shows "map_result s root start v paddr (Suc n) flags res"
proof -
  note vS = vp_Suc [OF v(1)] and uS = unat_Suc_page [OF v(1)]
  have n: "unat v + 4096 + n * 4096 = unat v + Suc n * 4096" by simp
  note r' = r [unfolded map_result_def vS uS n]
  have shift: "paddr + word_of_nat PAGE_SIZE + page_start (m - (vp v + 1)) = paddr + page_start (m - vp v)" if "vp v < m" for m
  proof -
    have "m - vp v = Suc (m - (vp v + 1))" using that by simp
    then show ?thesis using page_start_Suc [of "m - (vp v + 1)"] by (simp add: add.commute add.left_commute)
  qed
  have ok: "(if vp v + 1 \<le> m \<and> m < vp v + 1 + n then mapped_value (paddr + word_of_nat PAGE_SIZE + page_start (m - (vp v + 1))) flags
      else pte (tables s1) root m) =
      (if vp v \<le> m \<and> m < vp v + Suc n then mapped_value (paddr + page_start (m - vp v)) flags else pte (tables s) root m)"
    if "m < 2 ^ 36" for m
    using pte [OF that] shift [of m] by (cases "m = vp v") (auto simp: add.assoc)
  have bad: "(if vp start \<le> m \<and> m < vp v + 1 + j then None else pte (tables s1) root m) =
      (if vp start \<le> m \<and> m < vp v + Suc j then None else pte (tables s) root m)"
    if "m < 2 ^ 36" "vp start \<le> vp v" for m j using pte [OF that(1)] that(2) by auto
  have low: "vp start \<le> vp v" if "unat v + Suc n * 4096 \<le> 2 ^ 48"
  proof -
    have "unat v < 2 ^ 48" "unat start < 2 ^ 48" using that v(2) by simp_all
    then have "vp v = unat v div 4096" "vp start = unat start div 4096" by (simp_all add: vp_def PAGE_SIZE_def)
    then show ?thesis using v(2) by (simp add: div_le_mono)
  qed
  show ?thesis
  proof (cases res)
    case (Inl e)
    then show ?thesis using r' oom unfolding map_result_def by simp
  next
    case (Inr q)
    obtain x s' where q: "q = (x, s')" by fastforce
    show ?thesis
    proof (cases x)
      case (Inr y)
      then show ?thesis using r' ok unfolding map_result_def \<open>res = Inr q\<close> q by simp
    next
      case (Inl e)
      have "\<exists>j < Suc n. \<forall>m < 2 ^ 36. pte (tables s') root m = (if vp start \<le> m \<and> m < vp v + j then None else pte (tables s) root m)"
        if b: "unat v + Suc n * 4096 \<le> 2 ^ 48"
      proof -
        obtain j where "j < n" "\<forall>m < 2 ^ 36. pte (tables s') root m = (if vp start \<le> m \<and> m < vp v + 1 + j then None else pte (tables s1) root m)"
          using r' b unfolding \<open>res = Inr q\<close> q Inl sum.case prod.case by blast
        then show ?thesis using bad [OF _ low [OF b], of _ j] by (intro exI [of _ "Suc j"]) simp
      qed
      then show ?thesis using r' unfolding map_result_def \<open>res = Inr q\<close> q Inl sum.case prod.case by blast
    qed
  qed
qed

lemma map_result_undo:
  assumes inv: "mmu_inv s1 root" and al: "page_aligned v" "page_aligned start" "unat start \<le> unat v"
    and pte: "\<And>m. m < 2 ^ 36 \<Longrightarrow> pte (tables s1) root m = pte (tables s) root m"
  shows "map_result s root start v paddr (Suc n) flags (kbind (mmu_unmap_pages s1 root start (v - start)) (\<lambda>s2. Inr (Inl ENOMEM, s2)))"
proof (cases "unat v + Suc n * 4096 \<le> 2 ^ 48")
  case True
  have sub: "unat (v - start) = unat v - unat start" using al(3) by (simp add: unat_sub word_le_nat_alt)
  have "PAGE_SIZE dvd unat v - unat start" using al(1,2) unfolding page_aligned_def mod_eq_0_iff_dvd by (rule dvd_diff_nat)
  then have d: "page_aligned (v - start)" unfolding page_aligned_def sub mod_eq_0_iff_dvd .
  have "unat start + unat (v - start) < 2 ^ 48" "start + (v - start) = v" using True sub al(3) by simp_all
  with unmap_pages_spec [OF inv al(2) d] obtain s' where s': "mmu_unmap_pages s1 root start (v - start) = Inr s'" "mmu_inv s' root"
    "\<forall>m < 2 ^ 36. pte (tables s') root m = (if vp start \<le> m \<and> m < vp v then None else pte (tables s1) root m)"
    by auto
  have "\<exists>j < Suc n. \<forall>m < 2 ^ 36. pte (tables s') root m = (if vp start \<le> m \<and> m < vp v + j then None else pte (tables s) root m)"
    using s'(3) pte by (intro exI [of _ 0]) simp
  then show ?thesis unfolding map_result_def s'(1) kbind_Inr sum.case prod.case using s'(2) by blast
next
  case False
  then show ?thesis by (cases "mmu_unmap_pages s1 root start (v - start)") (simp_all add: map_result_def)
qed

lemma map_loop_spec:
  assumes "mmu_inv s root" "page_aligned v" "page_aligned start" "vp v + n \<le> 2 ^ 36" "entry_before (tables s) root v entry"
    "unat start \<le> unat v"
  shows "map_result s root start v paddr n flags (mmu_map_loop s root start v paddr n flags entry)"
  using assms
proof (induction n arbitrary: s v paddr entry)
  case 0
  then show ?case by (auto simp: map_result_def)
next
  case (Suc n)
  let ?c = "mmu_create_next_entry_and_acquire_lock s root v entry (v - word_of_nat PAGE_SIZE)"
  note c = create_next_spec [OF Suc.prems(1,2,5)]
  show ?case
  proof (cases ?c)
    case (Inl e)
    then show ?thesis using c by (simp add: map_result_def)
  next
    case (Inr rs)
    obtain r s1 where rs: "rs = (r, s1)" by fastforce
    have s1: "mmu_inv s1 root" "oom_panics s1 = oom_panics s" "\<And>m. m < 2 ^ 36 \<Longrightarrow> pte (tables s1) root m = pte (tables s) root m"
      using c Inr rs by simp_all
    show ?thesis
    proof (cases r)
      case None
      have run: "mmu_map_loop s root start v paddr (Suc n) flags entry =
          kbind (mmu_unmap_pages s1 root start (v - start)) (\<lambda>s2. Inr (Inl ENOMEM, s2))"
        unfolding mmu_map_loop.simps Inr rs None kbind_Inr prod.case option.case by (rule refl)
      show ?thesis unfolding run by (rule map_result_undo [OF s1(1) Suc.prems(2,3,6) s1(3)])
    next
      case (Some e)
      obtain t where t: "tab (tables s1) root 3 (vp v) = Some t" "e = (t, level_index 0 (vp v))"
        using c [unfolded Inr rs Some sum.case prod.case] by blast
      let ?s = "s1\<lparr>tables := mmu_entry_map (tables s1) e paddr flags\<rparr>" and ?v = "v + word_of_nat PAGE_SIZE"
      note m = mmu_entry_map_spec [OF s1(1) t(1) vp_less, where paddr = paddr and flags = flags, folded t(2)]
      have run: "mmu_map_loop s root start v paddr (Suc n) flags entry = mmu_map_loop ?s root start ?v (paddr + word_of_nat PAGE_SIZE) n flags (Some e)"
        unfolding mmu_map_loop.simps Inr rs Some kbind_Inr prod.case option.case by (rule refl)
      have pte: "pte (tables ?s) root k = (if k = vp v then mapped_value paddr flags else pte (tables s) root k)" if "k < 2 ^ 36" for k
        using m(4) [OF that] s1(3) [OF that] by simp
      show ?thesis
      proof (cases "n = 0")
        case True
        have "pte (tables ?s) root k = (if vp v \<le> k \<and> k < vp v + Suc n then mapped_value (paddr + page_start (k - vp v)) flags
            else pte (tables s) root k)" if "k < 2 ^ 36" for k using pte [OF that] True by auto
        then have "map_result s root start v paddr (Suc n) flags (Inr (Inr (), ?s))"
          unfolding map_result_def sum.case prod.case using m(1) by blast
        then show ?thesis unfolding run using True by simp
      next
        case False
        then have v1: "vp v + 1 < 2 ^ 36" using Suc.prems(4) by simp
        have "entry_before (tables ?s) root ?v (Some e)" using m(3) t(2) by (simp add: entry_before_def vp_Suc [OF v1])
        then have "map_result ?s root start ?v (paddr + word_of_nat PAGE_SIZE) n flags
            (mmu_map_loop ?s root start ?v (paddr + word_of_nat PAGE_SIZE) n flags (Some e))"
          using Suc.IH [OF m(1) page_aligned_Suc [OF Suc.prems(2)] Suc.prems(3)] Suc.prems(4,6) vp_Suc [OF v1] unat_Suc_page [OF v1] by simp
        from map_result_step [OF this v1 Suc.prems(6) _ pte] show ?thesis unfolding run using m(2) s1(2) by simp
      qed
    qed
  qed
qed

subsection \<open>Flags survive in an entry\<close>

lemma and_bit: "k < 64 \<Longrightarrow> and x (push_bit k 1) = 0 \<longleftrightarrow> \<not> bit x k" for x :: u64
  using bit_iff_and_push_bit_not_eq_0 [of x k] by blast

lemma bit_push_1: "bit (push_bit k 1 :: u64) i \<longleftrightarrow> i = k \<and> k < 64"
  by (subst bit_push_bit_iff) (auto simp: bit_1_iff)

lemma flag_bits:
  "MMU_FLAG_PRESENT = push_bit 0 1" "MMU_FLAG_READ = push_bit 1 1" "MMU_FLAG_WRITE = push_bit 2 1" "MMU_FLAG_EXEC = push_bit 3 1"
  "MMU_FLAG_USER = push_bit 4 1" "MMU_FLAG_GLOBAL = push_bit 5 1" "MMU_FLAG_ACCESS = push_bit 6 1" "MMU_FLAG_DIRTY = push_bit 7 1"
  "MMU_FLAG_WRITE_COMBINE = push_bit 8 1" "MMU_FLAG_UNCACHED = push_bit 9 1"
  "PAGING_FLAG_PRESENT = push_bit 0 1" "PAGING_FLAG_WRITE = push_bit 1 1" "PAGING_FLAG_USER = push_bit 2 1" "PAGING_FLAG_PCD = push_bit 4 1"
  "PAGING_FLAG_ACCESS = push_bit 5 1" "PAGING_FLAG_DIRTY = push_bit 6 1" "PAGING_FLAG_PAT = push_bit 7 1"
  "PAGING_FLAG_GLOBAL = push_bit 8 1" "PAGING_FLAG_NO_EXE = push_bit 61 1"
  by (simp_all add: mmu_flag_defs paging_flag_defs)

lemma bit_flag_if: "bit (flag_if c f x) i \<longleftrightarrow> c \<and> bit f i \<or> bit x i"
  by (auto simp: flag_if_def bit_or_iff)

lemma bit_mmu2paging_flags:
  "bit (mmu2paging_flags f) i \<longleftrightarrow> i = 0 \<and> bit f 0 \<or> i = 1 \<and> bit f 2 \<or> i = 61 \<and> \<not> bit f 3 \<or> i = 2 \<and> bit f 4 \<or>
     i = 8 \<and> bit f 5 \<or> i = 7 \<and> bit f 8 \<or> i = 4 \<and> bit f 9"
  unfolding mmu2paging_flags_def bit_flag_if flag_bits bit_push_1 by (auto simp only: and_bit bit_0_eq simp_thms numeral_less_iff rel_simps)

lemma bit_paging2mmu_flags:
  "bit (paging2mmu_flags e) i \<longleftrightarrow> (i = 0 \<or> i = 1) \<and> bit e 0 \<or> i = 2 \<and> bit e 1 \<or> i = 3 \<and> \<not> bit e 61 \<or> i = 4 \<and> bit e 2 \<or>
     i = 6 \<and> bit e 5 \<or> i = 7 \<and> bit e 6 \<or> i = 8 \<and> bit e 7 \<or> i = 9 \<and> bit e 4"
  unfolding paging2mmu_flags_def bit_flag_if flag_bits bit_or_iff bit_push_1 by (auto simp only: and_bit bit_0_eq simp_thms numeral_less_iff rel_simps)

text \<open>The flags an address is mapped with, and those of a mapping that the entries can hold.\<close>

definition vflags :: "ptables \<Rightarrow> nat \<Rightarrow> u64 \<Rightarrow> u64" where
  "vflags T root a = (case mmu_get_entry T root a of None \<Rightarrow> 0 | Some entry \<Rightarrow> mmu_entry_get_flags T entry)"

definition kept_flags :: "u64 \<Rightarrow> u64" where
  "kept_flags flags = or MMU_FLAG_READ (and flags (or MMU_FLAG_PRESENT (or MMU_FLAG_WRITE (or MMU_FLAG_EXEC (or MMU_FLAG_USER
     (or MMU_FLAG_WRITE_COMBINE MMU_FLAG_UNCACHED))))))"

lemma vflags_pte: "vflags T root a = (case pte T root (vp a) of None \<Rightarrow> 0 | Some e \<Rightarrow> paging2mmu_flags e)"
  by (simp add: vflags_def mmu_entry_get_flags_def mmu_entry_val_get_flags_def mmu_get_entry_def mmu_walk_root pte_def load_def
      PAGING_LEVEL_INDEX_vp split: option.split)

lemma entry_flags:
  assumes "bit f 0"
  shows "paging2mmu_flags (or (and pa PAGING_ENTRY_ADDRESS) (mmu2paging_flags f)) = kept_flags f"
proof (rule bit_word_eqI)
  fix i :: nat
  have a: "\<not> bit PAGING_ENTRY_ADDRESS j" if "j < 12 \<or> 52 \<le> j" for j
    using that by (auto simp: PAGING_ENTRY_ADDRESS_mask bit_simps)
  have b: "\<not> bit PAGING_ENTRY_ADDRESS 0" "\<not> bit PAGING_ENTRY_ADDRESS 1" "\<not> bit PAGING_ENTRY_ADDRESS 2" "\<not> bit PAGING_ENTRY_ADDRESS 4"
    "\<not> bit PAGING_ENTRY_ADDRESS 5" "\<not> bit PAGING_ENTRY_ADDRESS 6" "\<not> bit PAGING_ENTRY_ADDRESS 7" "\<not> bit PAGING_ENTRY_ADDRESS 61"
    by (rule a; simp)+
  show "bit (paging2mmu_flags (or (and pa PAGING_ENTRY_ADDRESS) (mmu2paging_flags f))) i = bit (kept_flags f) i"
    unfolding bit_paging2mmu_flags bit_or_iff bit_mmu2paging_flags kept_flags_def bit_and_iff flag_bits bit_push_1
    using assms by (simp only: b simp_thms rel_simps zero_neq_one one_neq_zero) auto
qed

lemma present_flag: "and flags MMU_FLAG_PRESENT \<noteq> 0 \<longleftrightarrow> bit flags 0"
  unfolding flag_bits using and_bit [of 0 flags] by simp

subsection \<open>Correctness of mapping and unmapping\<close>

lemma vp_low: "unat a < 2 ^ 48 \<Longrightarrow> vp a = unat a div 4096"
  by (simp add: vp_def PAGE_SIZE_def)

lemma in_range_pages:
  assumes "page_aligned v" "unat v < 2 ^ 48" "unat a < 2 ^ 48"
  shows "vp v \<le> vp a \<and> vp a < vp v + n \<longleftrightarrow> v \<le> a \<and> unat a < unat v + n * 4096"
proof -
  have v: "unat v = vp v * 4096" using assms(1,2) unat_page_start [of "vp v"] aligned_page_start [OF assms(1,2)] vp_less [of v] by (simp add: PAGE_SIZE_def)
  have "vp v \<le> vp a \<longleftrightarrow> unat v \<le> unat a" unfolding v vp_low [OF assms(3)] by (simp add: less_eq_div_iff_mult_less_eq)
  moreover have "vp a < vp v + n \<longleftrightarrow> unat a < unat v + n * 4096"
    unfolding v vp_low [OF assms(3)] by (simp add: div_less_iff_less_mult algebra_simps)
  ultimately show ?thesis by (simp add: word_le_nat_alt)
qed

lemma page_offset:
  assumes "page_aligned v" "unat v < 2 ^ 48" "unat a < 2 ^ 48" "vp v \<le> vp a"
  shows "page_start (vp a - vp v) + and a 0xfff = a - v"
proof -
  have m: "(0xfff :: u64) = mask 12" by (simp add: mask_eq_exp_minus_1)
  have "unat (and a 0xfff) = take_bit 12 (unat a)" unfolding m by (simp only: take_bit_eq_mask [symmetric] unsigned_take_bit_eq)
  then have "unat (and a 0xfff) = unat a mod 4096" by (simp add: take_bit_eq_mod)
  then have "unat a = vp a * PAGE_SIZE + unat (and a 0xfff)" unfolding vp_low [OF assms(3)] by (simp add: PAGE_SIZE_def)
  then have "word_of_nat (unat a) = (word_of_nat (vp a * PAGE_SIZE + unat (and a 0xfff)) :: u64)" by simp
  then have a: "page_start (vp a) + and a 0xfff = a" by (simp add: page_start_def)
  have v: "page_start (vp v) = v" by (rule aligned_page_start [OF assms(1,2)])
  have "page_start (vp a - vp v) + v = page_start (vp a)" using page_start_add [of "vp a - vp v" "vp v"] assms(4) v by simp
  then have "page_start (vp a - vp v) = page_start (vp a) - v" by (simp only: eq_diff_eq)
  then have "page_start (vp a - vp v) + and a 0xfff = page_start (vp a) + and a 0xfff - v" by (simp only: add_diff_eq diff_add_eq)
  then show ?thesis by (simp only: a)
qed

lemma mapped_address:
  assumes "page_aligned pa" "unat pa + n * 4096 \<le> 2 ^ 52" "k < n" "bit flags 0"
  shows "\<exists>e. mapped_value (pa + page_start k) flags = Some e \<and> and e PAGING_ENTRY_ADDRESS = pa + page_start k \<and>
    paging2mmu_flags e = kept_flags flags"
proof -
  have k: "k * 4096 + 4096 \<le> n * 4096" using assms(3) by (metis Suc_leI add.commute mult_Suc mult_le_mono1)
  then have "k \<le> 2 ^ 40" using assms(2) by simp
  have "unat (page_start k) = k * 4096"
  proof -
    have "k * PAGE_SIZE < 2 ^ 64" using \<open>k \<le> 2 ^ 40\<close> by (simp add: PAGE_SIZE_def)
    then show ?thesis unfolding page_start_def unsigned_of_nat by (simp add: take_bit_nat_eq_self PAGE_SIZE_def)
  qed
  then have u: "unat (pa + page_start k) = unat pa + k * 4096" using k assms(2) by (subst unat_add_lem [THEN iffD1]) simp_all
  have "page_aligned (pa + page_start k)" using assms(1) unfolding page_aligned_def u by (simp add: PAGE_SIZE_def)
  then have "and (pa + page_start k) PAGING_ENTRY_ADDRESS = pa + page_start k"
    using k assms(2) by (intro address_aligned) (simp_all add: u)
  then show ?thesis using entry_flags [OF assms(4), of "pa + page_start k"] entry_address [of "pa + page_start k" flags] assms(4)
    by (simp add: mapped_value_def Let_def present_flag [symmetric])
qed

text \<open>What a program sees of an address space: where an address is mapped, and how.\<close>

definition translate :: "mmu_state \<Rightarrow> nat \<Rightarrow> u64 \<Rightarrow> (u64 \<times> u64) option" where
  "translate s root a = map_option (\<lambda>phys. (phys, vflags (tables s) root a)) (mmu_space_virt2phys (tables s) root a)"

lemma translate_pte:
  "translate s root a = map_option (\<lambda>e. (and e PAGING_ENTRY_ADDRESS + and a 0xfff, paging2mmu_flags e)) (pte (tables s) root (vp a))"
  by (cases "pte (tables s) root (vp a)") (simp_all add: translate_def mmu_space_virt2phys_pte vflags_pte)

lemma unat_div_page: "page_aligned sz \<Longrightarrow> unat sz = unat sz div PAGE_SIZE * 4096"
  unfolding page_aligned_def by (metis PAGE_SIZE_def add.right_neutral div_mult_mod_eq)

text \<open>C3: mapping a range of pages below \<open>2 ^ 48\<close>, whatever tables exist already. It fails only for lack of
  memory. When it succeeds, every address of the range translates to its place in the physical range
  with the flags asked for, and every other address as before. When a table cannot be allocated halfway,
  the pages mapped so far are unmapped again and every address outside them translates as before. The
  tables stay a tree, and no table is a free page.\<close>

theorem mmu_map_correct:
  assumes inv: "mmu_inv s root" and al: "page_aligned v" "page_aligned sz" "page_aligned pa"
    and low: "unat v < 2 ^ 48" "unat v + unat sz \<le> 2 ^ 48" "unat pa + unat sz \<le> 2 ^ 52" and pres: "and flags MMU_FLAG_PRESENT \<noteq> 0"
  shows "case mmu_map_pages s root v pa sz flags of
      Inl e \<Rightarrow> e = KPanic \<and> oom_panics s
    | Inr (Inr _, s') \<Rightarrow> mmu_inv s' root \<and>
        (\<forall>a. unat a < 2 ^ 48 \<longrightarrow> translate s' root a =
           (if v \<le> a \<and> unat a < unat v + unat sz then Some (pa + (a - v), kept_flags flags) else translate s root a))
    | Inr (Inl e, s') \<Rightarrow> e = ENOMEM \<and> mmu_inv s' root \<and>
        (\<exists>k. k * 4096 < unat sz \<and> (\<forall>a. unat a < 2 ^ 48 \<longrightarrow> translate s' root a =
           (if v \<le> a \<and> unat a < unat v + k * 4096 then None else translate s root a)))"
proof -
  define n where "n = unat sz div PAGE_SIZE"
  have sz: "unat sz = n * 4096" using unat_div_page [OF al(2)] by (simp only: n_def)
  have run: "mmu_map_pages s root v pa sz flags = mmu_map_loop s root v v pa n flags None" using al by (simp add: mmu_map_pages_def n_def)
  have "vp v + n \<le> 2 ^ 36" unfolding vp_low [OF low(1)] using low(2) sz by simp
  then have r: "map_result s root v v pa n flags (mmu_map_pages s root v pa sz flags)"
    unfolding run by (intro map_loop_spec [OF inv al(1,1)]) (simp_all add: entry_before_def)
  have range: "vp v \<le> vp a \<and> vp a < vp v + k \<longleftrightarrow> v \<le> a \<and> unat a < unat v + k * 4096" if "unat a < 2 ^ 48" for a k
    by (rule in_range_pages [OF al(1) low(1) that])
  have there: "map_option (\<lambda>e. (and e PAGING_ENTRY_ADDRESS + and a 0xfff, paging2mmu_flags e)) (mapped_value (pa + page_start (vp a - vp v)) flags) =
      Some (pa + (a - v), kept_flags flags)" if "unat a < 2 ^ 48" "vp v \<le> vp a" "vp a < vp v + n" for a
  proof -
    have "vp a - vp v < n" "bit flags 0" using that(2,3) pres present_flag by auto
    then obtain e where "mapped_value (pa + page_start (vp a - vp v)) flags = Some e" "and e PAGING_ENTRY_ADDRESS = pa + page_start (vp a - vp v)"
      "paging2mmu_flags e = kept_flags flags" using mapped_address [OF al(3), of n "vp a - vp v" flags] low(3) sz by auto
    then show ?thesis using page_offset [OF al(1) low(1) that(1,2)] by (simp add: add.assoc)
  qed
  show ?thesis
  proof (cases "mmu_map_pages s root v pa sz flags")
    case (Inl e)
    then show ?thesis using r low(2) sz by (simp add: map_result_def)
  next
    case (Inr q)
    obtain x s' where q: "q = (x, s')" by fastforce
    note r' = r [unfolded Inr q map_result_def sum.case prod.case]
    show ?thesis
    proof (cases x)
      case (Inl e)
      obtain k where k: "k < n" "\<And>m. m < 2 ^ 36 \<Longrightarrow> pte (tables s') root m = (if vp v \<le> m \<and> m < vp v + k then None else pte (tables s) root m)"
        "mmu_inv s' root" "e = ENOMEM" using r' low(2) sz unfolding Inl sum.case by auto
      have "translate s' root a = (if v \<le> a \<and> unat a < unat v + k * 4096 then None else translate s root a)" if "unat a < 2 ^ 48" for a
        unfolding translate_pte k(2) [OF vp_less] range [OF that] by simp
      then show ?thesis unfolding Inr q Inl sum.case prod.case using k sz by (intro conjI exI [of _ k]) simp_all
    next
      case (Inr y)
      then have m: "mmu_inv s' root" "\<And>m. m < 2 ^ 36 \<Longrightarrow> pte (tables s') root m =
          (if vp v \<le> m \<and> m < vp v + n then mapped_value (pa + page_start (m - vp v)) flags else pte (tables s) root m)" using r' by simp_all
      have "translate s' root a = (if v \<le> a \<and> unat a < unat v + unat sz then Some (pa + (a - v), kept_flags flags) else translate s root a)"
        if "unat a < 2 ^ 48" for a
        unfolding translate_pte m(2) [OF vp_less] range [OF that, of n, folded sz, symmetric] using there [OF that] by simp
      then show ?thesis unfolding \<open>mmu_map_pages s root v pa sz flags = Inr q\<close> q Inr sum.case prod.case using m(1) by blast
    qed
  qed
qed

text \<open>An address space whose tables are frames 100 to 103, with page 9 mapped.\<close>

definition ex_tables :: ptables where
  "ex_tables t i =
     (if i = 0 \<and> t \<in> {100, 101, 102} then or (page_address (t + 1)) PAGING_FLAG_RW_CPL3
      else if t = 103 \<and> i = 9 then 0x80000003 else 0)"

definition ex_mmu :: mmu_state where
  "ex_mmu = \<lparr>tables = ex_tables, mmu_pmm = ex_pmm\<rparr>"

lemma ex_tab: "k \<le> 3 \<Longrightarrow> tab ex_tables 100 k n = (if \<forall>j < k. level_index (3 - j) n = 0 then Some (100 + k) else None)"
proof (induction k)
  case (Suc k)
  have "t + 1 < 2 ^ 40 \<Longrightarrow> entry_frame (or (page_address (t + 1)) PAGING_FLAG_RW_CPL3) = t + 1" for t by (rule new_table_entry)
  from this [of "100 + k"] Suc.prems
  have e: "ex_tables (100 + k) i = (if i = 0 then or (page_address (100 + k + 1)) PAGING_FLAG_RW_CPL3 else 0)"
    "entry_frame (or (page_address (100 + k + 1)) PAGING_FLAG_RW_CPL3) = 100 + k + 1" for i
    by (auto simp: ex_tables_def)
  show ?case using Suc e by (auto simp: less_Suc_eq)
qed simp

lemma ex_zero: "n < 2 ^ 36 \<Longrightarrow> k \<le> 3 \<Longrightarrow> \<forall>j < k. level_index (3 - j) n = 0 \<Longrightarrow> n div 512 ^ (4 - k) = 0"
proof (induction k)
  case (Suc k)
  have k: "k < 3" "4 - Suc k = 3 - k" using Suc.prems(2) by simp_all
  have "n div 512 ^ (4 - k) = 0" "level_index (3 - k) n = 0" using Suc by auto
  then show ?case unfolding k(2) div_level_index [OF k(1)] by simp
qed simp

lemma ex_mmu_inv: "mmu_inv ex_mmu 100"
proof -
  have tree: "tree_ok ex_tables 100"
  proof (rule tree_okI)
    fix k k' n n' t
    assume a: "k \<le> 3" "k' \<le> 3" "n < 2 ^ 36" "n' < 2 ^ 36" "tab ex_tables 100 k n = Some t" "tab ex_tables 100 k' n' = Some t"
    then have "t = 100 + k" "t = 100 + k'" "\<forall>j < k. level_index (3 - j) n = 0" "\<forall>j < k'. level_index (3 - j) n' = 0"
      using ex_tab [OF a(1), of n] ex_tab [OF a(2), of n'] by (auto split: if_splits)
    then show "k = k' \<and> n div 512 ^ (4 - k) = n' div 512 ^ (4 - k)" using ex_zero [OF a(3,1)] ex_zero [OF a(4,2)] by simp
  qed
  have "reach ex_tables 100 \<subseteq> {100..}" unfolding reach_def by (auto simp: ex_tab split: if_splits)
  moreover have free: "free_pages ex_pmm = {64..<72}"
    by (auto simp: free_pages_def ex_pmm_def ex_page_def pmm_is_free_def PAGE_FLAG_RESERVED_def split: if_splits)
  ultimately have "reach ex_tables 100 \<inter> free_pages ex_pmm = {}" by auto
  moreover have "free_pages ex_pmm \<subseteq> {..<2 ^ 40}" unfolding free by auto
  ultimately show ?thesis using tree ex_pmm_inv by (simp add: mmu_inv_def ex_mmu_def ex_pmm_def)
qed

text \<open>The tables for page 5 exist, so that mapping it allocates nothing.\<close>

lemma ex_create: "mmu_create_entry_and_acquire_lock ex_mmu 100 0x5000 = Inr (Some (103, 5), ex_mmu)"
proof -
  have idx: "PAGING_LEVEL_INDEX 0 0x5000 = 5" "PAGING_LEVEL_INDEX (Suc 0) 0x5000 = 0" "PAGING_LEVEL_INDEX (Suc (Suc 0)) 0x5000 = 0"
    "PAGING_LEVEL_INDEX (Suc (Suc (Suc 0))) 0x5000 = 0"
    by (simp_all add: PAGING_LEVEL_INDEX_def PAGING_LEVEL_SHIFT_def)
  have e: "present (ex_tables 100 0)" "present (ex_tables 101 0)" "present (ex_tables 102 0)" by (simp_all add: ex_tables_def)
  have f: "entry_frame (ex_tables 100 0) = 101" "entry_frame (ex_tables 101 0) = 102" "entry_frame (ex_tables 102 0) = 103"
    using new_table_entry [of 101] new_table_entry [of 102] new_table_entry [of 103] by (simp_all add: ex_tables_def)
  have T: "tables ex_mmu = ex_tables" by (simp add: ex_mmu_def)
  show ?thesis
    by (simp add: mmu_create_entry_and_acquire_lock_def PAGING_LEVEL_MAX_def numeral_3_eq_3 idx e f T)
qed

lemma ex_map: "\<exists>s'. mmu_map_pages ex_mmu 100 0x5000 0x40000000 0x2000 0x15 = Inr (Inr (), s')"
proof -
  have "same_table_bit 0x6000 0x5000" by (simp add: same_table_bit_def PAGING_ENTRIES_PER_LEVEL_def PAGE_SIZE_def)
  then have "mmu_create_next_entry_and_acquire_lock s 100 0x6000 (Some (103, 5)) 0x5000 = Inr (Some (103, 6), s)" for s
    using entry_offset_Suc [of 5 103] by (simp add: mmu_create_next_entry_and_acquire_lock_def PAGE_SIZE_def)
  moreover have "mmu_create_next_entry_and_acquire_lock ex_mmu 100 0x5000 None 0x4000 = Inr (Some (103, 5), ex_mmu)"
    using ex_create by (simp add: mmu_create_next_entry_and_acquire_lock_def)
  moreover have "unat (0x2000 :: u64) div PAGE_SIZE = Suc (Suc 0)" by (simp add: PAGE_SIZE_def)
  moreover have "page_aligned 0x5000" "page_aligned 0x2000" by (simp_all add: page_aligned_def PAGE_SIZE_def)
  moreover have "word_of_nat PAGE_SIZE = (0x1000 :: u64)" by (simp add: PAGE_SIZE_def)
  ultimately show ?thesis unfolding mmu_map_pages_def by simp
qed

theorem mmu_map_correct_witness:
  "\<exists>s'. mmu_map_pages ex_mmu 100 0x5000 0x40000000 0x2000 0x15 = Inr (Inr (), s') \<and>
     translate s' 100 0x6123 = Some (0x40001123, 0x17)"
proof -
  obtain s' where run: "mmu_map_pages ex_mmu 100 0x5000 0x40000000 0x2000 0x15 = Inr (Inr (), s')" using ex_map by blast
  have "mmu_inv s' 100 \<and> (\<forall>a. unat a < 2 ^ 48 \<longrightarrow> translate s' 100 a =
      (if 0x5000 \<le> a \<and> unat a < unat (0x5000 :: u64) + unat (0x2000 :: u64)
       then Some (0x40000000 + (a - 0x5000), kept_flags 0x15) else translate ex_mmu 100 a))"
    using mmu_map_correct [OF ex_mmu_inv, where v = "0x5000" and sz = "0x2000" and pa = "0x40000000" and flags = "0x15"] run
    by (simp add: page_aligned_def PAGE_SIZE_def MMU_FLAG_PRESENT_def)
  then have "translate s' 100 0x6123 = Some (0x40001123, kept_flags 0x15)" by simp
  moreover have "kept_flags 0x15 = 0x17" by (simp add: kept_flags_def mmu_flag_defs)
  ultimately show ?thesis using run by simp
qed

text \<open>C5: unmapping a range of pages below \<open>2 ^ 48\<close> ends, and afterwards exactly the addresses outside the range
  are mapped as before; the allocator is not touched.\<close>

theorem mmu_unmap_correct:
  assumes inv: "mmu_inv s root" and al: "page_aligned v" "page_aligned sz" and low: "unat v + unat sz < 2 ^ 48"
  shows "\<exists>s'. mmu_unmap_pages s root v sz = Inr s' \<and> mmu_inv s' root \<and> mmu_pmm s' = mmu_pmm s \<and>
    (\<forall>a. unat a < 2 ^ 48 \<longrightarrow> translate s' root a = (if v \<le> a \<and> unat a < unat v + unat sz then None else translate s root a))"
proof -
  define n where "n = unat sz div PAGE_SIZE"
  have sz: "unat sz = n * 4096" using unat_div_page [OF al(2)] by (simp only: n_def)
  have u: "unat (v + sz) = unat v + n * 4096" using low sz by (subst unat_add_lem [THEN iffD1]) simp_all
  have "vp (v + sz) = vp v + n"
    using low sz u vp_low [of v] vp_low [of "v + sz"] by simp
  with unmap_pages_spec [OF inv al low] obtain s' where
    s': "mmu_unmap_pages s root v sz = Inr s'" "mmu_inv s' root" "mmu_pmm s' = mmu_pmm s"
    "\<And>m. m < 2 ^ 36 \<Longrightarrow> pte (tables s') root m = (if vp v \<le> m \<and> m < vp v + n then None else pte (tables s) root m)" by auto
  have "translate s' root a = (if v \<le> a \<and> unat a < unat v + unat sz then None else translate s root a)" if "unat a < 2 ^ 48" for a
    unfolding translate_pte s'(4) [OF vp_less] using in_range_pages [OF al(1) _ that, of n] low sz by simp
  then show ?thesis using s'(1-3) by blast
qed

theorem mmu_unmap_correct_witness:
  "translate ex_mmu 100 0x9008 = Some (0x80000008, 0xf) \<and>
   (\<exists>s'. mmu_unmap_pages ex_mmu 100 0x8000 0x2000 = Inr s' \<and> translate s' 100 0x9008 = None)"
proof -
  have vp: "vp 0x9008 = 9" by (simp add: vp_def PAGE_SIZE_def)
  have "tab ex_tables 100 3 9 = Some 103" by (subst ex_tab) (auto simp: level_index_def less_Suc_eq numeral_3_eq_3)
  then have "pte (tables ex_mmu) 100 9 = Some 0x80000003" by (simp add: pte_def ex_mmu_def ex_tables_def level_index_def present_def PAGING_FLAG_PRESENT_def)
  then have "translate ex_mmu 100 0x9008 = Some (0x80000008, 0xf)"
    by (simp add: translate_pte vp PAGING_ENTRY_ADDRESS_def paging2mmu_flags_def flag_if_def paging_flag_defs mmu_flag_defs)
  moreover have "page_aligned 0x8000" "page_aligned 0x2000" by (simp_all add: page_aligned_def PAGE_SIZE_def)
  ultimately show ?thesis using mmu_unmap_correct [OF ex_mmu_inv, of "0x8000" "0x2000"] by auto
qed

subsection \<open>What goes wrong\<close>

text \<open>The address that the search for the next entry computes is not sign extended: in the upper half every
  mapped page is below the end of the range, so that unmapping a range there goes on past its end.\<close>

lemma unmap_bound_ignored:
  assumes "mmu_get_next_entry T root a = Some (entry, current)" "2 ^ 48 \<le> unat until"
  shows "current < until"
    "mmu_unmap_loop T root a until = mmu_unmap_loop (store T entry 0) root (current + word_of_nat PAGE_SIZE) until"
proof -
  show less: "current < until"
  proof (rule next_entry_cases [OF refl])
    fix m t
    assume "mmu_get_next_entry T root a = Some ((t, level_index 0 m), page_start m)" "m < 2 ^ 36"
    then have "unat current = m * 4096" "m < 2 ^ 36" using assms(1) unat_page_start [of m] by (simp_all add: PAGE_SIZE_def)
    then show ?thesis using assms(2) by (simp add: word_less_nat_alt)
  qed (use assms(1) in simp)
  show "mmu_unmap_loop T root a until = mmu_unmap_loop (store T entry 0) root (current + word_of_nat PAGE_SIZE) until"
    using less assms(1) by (subst mmu_unmap_loop.simps) (simp add: mmu_entry_unmap_def)
qed

text \<open>Two addresses are taken to use the same table when they agree in bit 21. From the entry of address 0 the
  entry of address 4 MiB is found two frames further on in physical memory.\<close>

lemma create_next_wrong_table:
  "mmu_create_next_entry_and_acquire_lock s root 0x400000 (Some (t, 0)) 0 = Inr (Some (t + 2, 0), s)"
proof -
  have "same_table_bit 0x400000 0" by (simp add: same_table_bit_def PAGING_ENTRIES_PER_LEVEL_def PAGE_SIZE_def)
  moreover have "entry_offset (t, 0) 1024 = (t + 2, 0)"
    unfolding entry_offset_def Let_def PAGING_ENTRIES_PER_LEVEL_def by simp
  ultimately show ?thesis by (simp add: mmu_create_next_entry_and_acquire_lock_def PAGE_SIZE_def)
qed

text \<open>The flags to clear are translated like flags to set: clearing the write flag of a page also clears its
  no-execute bit.\<close>

lemma clear_write_makes_executable:
  assumes "present (load T entry)"
  shows "bit (mmu_entry_get_flags (snd (mmu_entry_clear_flags T entry MMU_FLAG_WRITE)) entry) 3"
proof -
  have b: "bit (mmu2paging_flags MMU_FLAG_WRITE) i \<longleftrightarrow> i = 1 \<or> i = 61" for i
    unfolding bit_mmu2paging_flags flag_bits bit_push_1 by auto
  let ?e = "and (load T entry) (not (mmu2paging_flags MMU_FLAG_WRITE))"
  have "bit ?e 0" "\<not> bit ?e 61" using assms by (simp_all add: bit_and_iff bit_not_iff b present_bit)
  then show ?thesis
    by (simp add: mmu_entry_get_flags_def mmu_entry_val_get_flags_def mmu_entry_clear_flags_def load_def store_def present_bit bit_paging2mmu_flags)
qed

end
