(* ===== verification/Spec2Isabelle.thy ===== *)
theory Spec2Isabelle
  imports Ringbuf Klist Avltree Xarray Unicode Ktime Endian Pmm Kheap Hashmap Locks Pipe Tty Resource Signal Paging
begin

text \<open>
  Verification of the Stanix kernel.

  Stanix is an operating system for x86-64. Its kernel (\<^verbatim>\<open>src/kernel\<close>) has a library of containers and
  codecs (\<^verbatim>\<open>klib\<close>), memory management (\<^verbatim>\<open>mem\<close> and the page tables of \<^verbatim>\<open>arch/x86_64\<close>), file systems
  (\<^verbatim>\<open>fs\<close>), tasks, signals and locks (\<^verbatim>\<open>task\<close>) and drivers (\<^verbatim>\<open>drivers\<close>). The library is used by all the
  others; pipes and terminals are ring buffers with sleeping readers and writers; the page tables take
  their pages from the page allocator. File names below are relative to \<^verbatim>\<open>src/kernel\<close>.

  Conventions. A C function that changes objects takes them as arguments and returns them updated. A
  negative error return is \<open>Inl\<close> of an error number. A panic, a null pointer, an access out of bounds, a
  list operation on a wrong list and a call that never returns are \<open>Inl\<close> of a \<open>kfault\<close>. Machine words
  are words of their width wherever they can wrap around. Spinlocks are not modelled: the bodies they
  protect are single steps. A task that sleeps under a lock gives way to a schedule, a list of what the
  other tasks do to the shared state before it is woken. Allocation results, user memory, the running
  process and the hardware are parameters.

  Shared vocabulary

  \<^item> \<open>Prelude\<close>: machine words, error numbers, kernel faults, page arithmetic, list facts, collections.
  \<^item> \<open>Userspace\<close>: the fault-tolerant copies between kernel and user memory (\<^verbatim>\<open>arch/x86_64/copy.s\<close>,
    \<^verbatim>\<open>include/task/userspace.h\<close>). User memory is a partial map from addresses to bytes; an access
    outside its domain is the page fault the code recovers from.

  Containers and codecs

  \<^item> \<open>Ringbuf\<close> (\<^verbatim>\<open>klib/ringbuf.c\<close>): reads and writes on every branch, and the refinement of a bounded FIFO
    of bytes. The interface is the locale \<open>byte_fifo\<close>.
  \<^item> \<open>Klist\<close> (\<^verbatim>\<open>klib/list.c\<close>, the writer side of \<^verbatim>\<open>klib/rculist.c\<close>): intrusive lists over an explicit store
    of nodes refine lists of addresses. The interface is the locale \<open>node_list\<close>.
  \<^item> \<open>Avltree\<close> (\<^verbatim>\<open>klib/avltree.c\<close>, \<^verbatim>\<open>klib/intervaltree.c\<close>): insertion, removal, search and iteration over
    the list of elements in order, the invariant of interval trees, and the two ways in which the code
    fails (a removal that unbalances the tree, a span that is not found). The order on nodes is the
    locale \<open>node_order\<close>.
  \<^item> \<open>Xarray\<close> (\<^verbatim>\<open>klib/xarray.c\<close>): the radix array refines a map from indices; compare-and-exchange, the
    first index in use, allocation. The interface is the locale \<open>index_map\<close>.
  \<^item> \<open>Hashmap\<close> (\<^verbatim>\<open>include/klib/hashmap.h\<close>, \<^verbatim>\<open>vector.h\<close>, \<^verbatim>\<open>refcount.h\<close>): the hash map refines a map, vectors,
    reference counts. The interface is the locale \<open>key_dict\<close>.
  \<^item> \<open>Unicode\<close> (\<^verbatim>\<open>klib/unicode.c\<close>), \<open>Ktime\<close> (\<^verbatim>\<open>klib/time.c\<close>), \<open>Endian\<close> (\<^verbatim>\<open>include/klib/endian.h\<close>): round
    trips of the codecs (locale \<open>char_codec\<close>), of dates and of byte orders, and where they fail.

  Memory

  \<^item> \<open>Pmm\<close> (\<^verbatim>\<open>mem/pmm1.c\<close>, \<^verbatim>\<open>mem/pmm.c\<close>): the boot allocator, the buddy allocator with its zones, reference
    counts and page locks. The free blocks tile the free pages; allocation, freeing and boot keep this.
  \<^item> \<open>Paging\<close> (\<^verbatim>\<open>arch/x86_64/paging.c\<close>): the tables of an address space over the allocator of \<open>Pmm\<close>. The
    tables form a tree of pages in use; mapping and unmapping change the translation of exactly the
    addresses asked for, and a mapping that runs out of memory is undone.
  \<^item> \<open>Kheap\<close> (\<^verbatim>\<open>mem/kheap.c\<close>): the first-fit heap. Its segments tile the heap, objects do not overlap.
  \<^item> \<open>Resource\<close> (\<^verbatim>\<open>drivers/resource.c\<close>): the resource manager refines a set of free addresses and a set of
    owned ranges.

  Tasks and devices

  \<^item> \<open>Locks\<close> (\<^verbatim>\<open>task/sleep.c\<close>, \<^verbatim>\<open>mutex.c\<close>, \<^verbatim>\<open>rwsem.c\<close>, \<^verbatim>\<open>oneshot.c\<close>): writers exclude readers in every
    reachable state, and no wake-up is lost.
  \<^item> \<open>Pipe\<close> (\<^verbatim>\<open>fs/pipe.c\<close>): writes of at most the size of the pipe are atomic under every schedule.
  \<^item> \<open>Tty\<close> (\<^verbatim>\<open>drivers/tty.c\<close>): no operation leaves the buffers of a terminal, and the line discipline refines
    an abstract line editor.
  \<^item> \<open>Signal\<close> (\<^verbatim>\<open>task/signal.c\<close>): dequeueing takes exactly one signal, and the return from a handler
    restores the interrupted program.

  Termination and bounds. Recursion over data is structural or has a measure. The search of the heap, the
  write loop of a pipe and the loops over page table entries may run forever in the code, so they are
  partial functions into \<open>option\<close>, in which no value means not returning. That they return is part of the
  properties of allocation, of small writes and of unmapping; it is not shown for the loop that also
  releases the pages it unmaps. The iterations over a list (\<open>list_walk\<close>) and over a tree
  (\<open>avltree_foreach\<close>) take fuel, and any fuel above the number of elements gives the whole result. The
  bound of 64 signals for one return to user mode is the code's own.

  Lemmas at the end of the theories show where the code does not do what it means to.

  Not modelled. The slab allocator keeps its lists inside the objects and appears through its result. The
  segments of virtual memory, the file layer with its caches and file systems, sockets, system calls and
  the start of programs are held together by tables of callbacks, reference counts and the current
  process; only the containers below them are modelled. The scheduler, interrupts, processor set-up,
  boot code, device drivers and loadable modules are instructions and registers of the hardware. Readers
  concurrent with a writer of an RCU list, the locks of page tables and the caches of translations are
  not modelled either. User programs and libraries are outside the kernel.
\<close>

end
